(* ===== verification/Prelude_JV.thy ===== *)
theory Prelude_JV
  imports Complex_Main "HOL-Library.Word"
begin

text \<open>
  The prelude of the development: the types every component shares (bytes, the result of a
  fallible operation), the collections of simplification rules, and the generic lemmas on
  lists, sums and prefixes that several components use.
\<close>

section \<open>Shared types\<close>

type_synonym byte = "8 word"
type_synonym bytes = "byte list"

named_theorems wf_simps \<open>unfolding rules of the well-formedness predicates\<close>
named_theorems frame_simps \<open>what an operation leaves unchanged\<close>
named_theorems eval_simps \<open>definitions the witnesses evaluate\<close>

section \<open>Results of fallible operations\<close>

definition bind_res :: "'e + 'a \<Rightarrow> ('a \<Rightarrow> 'e + 'b) \<Rightarrow> 'e + 'b" where
  "bind_res r f = (case r of Inl e \<Rightarrow> Inl e | Inr x \<Rightarrow> f x)"

lemma bind_res_simps [simp]:
  "bind_res (Inl e) f = Inl e" "bind_res (Inr x) f = f x"
  by (simp_all add: bind_res_def)

lemma bind_res_Inr_iff: "bind_res r f = Inr y \<longleftrightarrow> (\<exists>x. r = Inr x \<and> f x = Inr y)"
  by (cases r) auto

section \<open>Lists\<close>

lemma filter_takeWhile_id: "(\<And>x. x \<in> set xs \<Longrightarrow> P x) \<Longrightarrow> filter P xs = xs"
  by (induction xs) auto

lemma take_drop_append_at [simp]:
  "length xs = n \<Longrightarrow> take m (drop n (xs @ ys)) = take m ys"
  by simp

lemma dropWhile_filter_sorted:
  "sorted_wrt (<) (map f xs) \<Longrightarrow> dropWhile (\<lambda>x. f x \<le> (k::'b::linorder)) xs = filter (\<lambda>x. k < f x) xs"
proof (induction xs)
  case (Cons x xs)
  show ?case
  proof (cases "f x \<le> k")
    case False
    then have "\<forall>y \<in> set xs. k < f y" using Cons.prems by (auto intro: less_trans)
    then have "filter (\<lambda>x. k < f x) xs = xs" by (induction xs) auto
    with False show ?thesis by simp
  qed (use Cons in auto)
qed simp

lemma takeWhile_filter_sorted:
  "sorted_wrt (<) (map f xs) \<Longrightarrow> takeWhile (\<lambda>x. f x \<le> (k::'b::linorder)) xs = filter (\<lambda>x. f x \<le> k) xs"
proof (induction xs)
  case (Cons x xs)
  show ?case
  proof (cases "f x \<le> k")
    case False
    then have "\<forall>y \<in> set xs. \<not> f y \<le> k" using Cons.prems by auto
    then have "filter (\<lambda>x. f x \<le> k) xs = []" by (induction xs) auto
    with False show ?thesis by simp
  qed (use Cons in auto)
qed simp

lemma drop_length_takeWhile: "drop (length (takeWhile P xs)) xs = dropWhile P xs"
  by (induction xs) auto

lemma sum_list_drop: "sum_list (map f xs) = sum_list (map f (take n xs)) + sum_list (map f (drop n xs))"
  for f :: "'a \<Rightarrow> 'b::comm_monoid_add"
  by (metis append_take_drop_id map_append sum_list_append)

lemma last_in_drop: "drop n xs \<noteq> [] \<Longrightarrow> last (drop n xs) = last xs"
  by (simp add: last_drop)

lemma takeWhile_weaker:
  "(\<And>x. P x \<Longrightarrow> Q x) \<Longrightarrow> takeWhile Q xs = takeWhile P xs @ takeWhile Q (dropWhile P xs)"
  by (induction xs) auto

lemma dropWhile_weaker:
  "(\<And>x. P x \<Longrightarrow> Q x) \<Longrightarrow> dropWhile Q (dropWhile P xs) = dropWhile Q xs"
  by (induction xs) auto

lemma sum_list_takeWhile_dropWhile:
  fixes f :: "'a \<Rightarrow> 'b::comm_monoid_add"
  shows "sum_list (map f (takeWhile P xs)) + sum_list (map f (dropWhile P xs)) = sum_list (map f xs)"
  by (induction xs) (auto simp: add.assoc)

lemma dropWhile_sorted_filter:
  "sorted_wrt (\<lambda>x y. P y \<longrightarrow> P x) xs \<Longrightarrow> dropWhile P xs = filter (\<lambda>x. \<not> P x) xs"
proof (induction xs)
  case (Cons x xs)
  then show ?case by (cases "P x") (auto intro!: filter_True [symmetric])
qed simp

lemma takeWhile_snoc: "\<not> P y \<Longrightarrow> takeWhile P (xs @ [y]) = takeWhile P xs"
  by (induction xs) auto

lemma dropWhile_snoc: "\<not> P y \<Longrightarrow> dropWhile P (xs @ [y]) = dropWhile P xs @ [y]"
  by (induction xs) auto

lemma restrict_map_dom_subset: "dom m \<subseteq> A \<Longrightarrow> m |` A = m"
  by (rule ext) (metis domIff restrict_map_def subsetD)

lemma filter_split_sorted:
  "sorted_wrt (<) (map f xs) \<Longrightarrow> filter (\<lambda>x. \<not> (n::'b::linorder) \<le> f x) xs @ filter (\<lambda>x. n \<le> f x) xs = xs"
proof (induction xs)
  case (Cons x xs)
  show ?case
  proof (cases "n \<le> f x")
    case True
    then have "filter (\<lambda>x. \<not> n \<le> f x) xs = []" "filter (\<lambda>x. n \<le> f x) xs = xs"
      using Cons.prems by (auto simp: filter_empty_conv filter_id_conv dest: less_imp_le order_trans)
    with True show ?thesis by simp
  qed (use Cons in simp)
qed simp

end
