(* ===== verification/Protocol.thy ===== *)
theory Protocol
  imports Prelude_JV
begin

text \<open>
  The wire protocol (\<open>server/src/jarvis_live/protocol.py\<close>): the binary audio frame, its
  encoder and its decoder, and the messages of the text path as datatypes. The header is
  \<open>struct.Struct("<BBHII")\<close>: version, channel, flags, sequence number and time, little
  endian, 12 bytes.
\<close>

section \<open>Constants\<close>

definition PROTOCOL_VERSION :: int where "PROTOCOL_VERSION = 1"
definition HEADER_SIZE :: nat where "HEADER_SIZE = 12"
definition BYTES_PER_MS :: nat where "BYTES_PER_MS = 32"
definition MIN_PAYLOAD :: nat where "MIN_PAYLOAD = 20 * BYTES_PER_MS"
definition MAX_PAYLOAD :: nat where "MAX_PAYLOAD = 200 * BYTES_PER_MS"
definition CHANNEL_MIC :: int where "CHANNEL_MIC = 0"
definition CHANNEL_SYSTEM :: int where "CHANNEL_SYSTEM = 1"

lemmas protocol_consts =
  PROTOCOL_VERSION_def HEADER_SIZE_def BYTES_PER_MS_def MIN_PAYLOAD_def MAX_PAYLOAD_def
  CHANNEL_MIC_def CHANNEL_SYSTEM_def

declare protocol_consts [eval_simps]

section \<open>Binary frames\<close>

datatype frame_error =
    OddPayload
  | PayloadSize nat
  | InvalidChannel int
  | StructError
  | ShortHeader
  | UnsupportedVersion int
  | NonZeroFlags int

record frame =
  fr_channel :: int
  fr_seq :: int
  fr_t_ms :: int
  fr_pcm :: bytes
  fr_version :: int
  fr_flags :: int

text \<open>\<open>_check_payload\<close>: \<open>None\<close> when the payload is accepted, else the error it raises.\<close>

definition check_payload :: "bytes \<Rightarrow> frame_error option" where
  "check_payload pcm =
     (if length pcm mod 2 \<noteq> 0 then Some OddPayload
      else if \<not> (MIN_PAYLOAD \<le> length pcm \<and> length pcm \<le> MAX_PAYLOAD)
        then Some (PayloadSize (length pcm))
      else None)"

text \<open>
  Little-endian packing of a Python integer into \<open>n\<close> bytes, and its inverse. \<open>struct\<close>
  raises \<open>struct.error\<close> for a value that does not fit.
\<close>

fun le_bytes :: "nat \<Rightarrow> int \<Rightarrow> bytes" where
  "le_bytes 0 v = []"
| "le_bytes (Suc n) v = word_of_int (v mod 256) # le_bytes n (v div 256)"

fun le_value :: "bytes \<Rightarrow> int" where
  "le_value [] = 0"
| "le_value (b # bs) = uint b + 256 * le_value bs"

definition fits :: "nat \<Rightarrow> int \<Rightarrow> bool" where
  "fits n v \<longleftrightarrow> 0 \<le> v \<and> v < 256 ^ n"

definition pack_header :: "int \<Rightarrow> int \<Rightarrow> int \<Rightarrow> int \<Rightarrow> int \<Rightarrow> frame_error + bytes" where
  "pack_header version channel flags seq t_ms =
     (if fits 1 version \<and> fits 1 channel \<and> fits 2 flags \<and> fits 4 seq \<and> fits 4 t_ms
      then Inr (le_bytes 1 version @ le_bytes 1 channel @ le_bytes 2 flags
                @ le_bytes 4 seq @ le_bytes 4 t_ms)
      else Inl StructError)"

definition unpack_header :: "bytes \<Rightarrow> int \<times> int \<times> int \<times> int \<times> int" where
  "unpack_header d =
     (le_value (take 1 d), le_value (take 1 (drop 1 d)), le_value (take 2 (drop 2 d)),
      le_value (take 4 (drop 4 d)), le_value (take 4 (drop 8 d)))"

definition encode_frame :: "int \<Rightarrow> int \<Rightarrow> int \<Rightarrow> bytes \<Rightarrow> frame_error + bytes" where
  "encode_frame channel seq t_ms pcm =
     (if channel \<notin> {CHANNEL_MIC, CHANNEL_SYSTEM} then Inl (InvalidChannel channel)
      else case check_payload pcm of
        Some e \<Rightarrow> Inl e
      | None \<Rightarrow>
          bind_res (pack_header PROTOCOL_VERSION channel 0 seq t_ms) (\<lambda>h. Inr (h @ pcm)))"

definition decode_frame :: "bytes \<Rightarrow> frame_error + frame" where
  "decode_frame d =
     (if length d < HEADER_SIZE then Inl ShortHeader
      else let (version, channel, flags, seq, t_ms) = unpack_header d in
        if version \<noteq> PROTOCOL_VERSION then Inl (UnsupportedVersion version)
        else if channel \<notin> {CHANNEL_MIC, CHANNEL_SYSTEM} then Inl (InvalidChannel channel)
        else if flags \<noteq> 0 then Inl (NonZeroFlags flags)
        else let pcm = drop HEADER_SIZE d in
          case check_payload pcm of
            Some e \<Rightarrow> Inl e
          | None \<Rightarrow> Inr \<lparr>fr_channel = channel, fr_seq = seq, fr_t_ms = t_ms, fr_pcm = pcm,
                         fr_version = version, fr_flags = flags\<rparr>)"

section \<open>Little-endian integers\<close>

lemma length_le_bytes [simp]: "length (le_bytes n v) = n"
  by (induction n arbitrary: v) auto

lemma le_value_bounds: "0 \<le> le_value bs \<and> le_value bs < 256 ^ length bs"
proof (induction bs)
  case (Cons b bs)
  have "0 \<le> uint b" "uint b < 256" using uint_bounded [of b] by auto
  with Cons show ?case by (auto simp: )
qed simp

lemma fits_le_value: "length bs = n \<Longrightarrow> fits n (le_value bs)"
  using le_value_bounds [of bs] by (auto simp: fits_def)

lemma int_div_less_pow: "(v::int) < 256 * m \<Longrightarrow> v div 256 < m"
  by linarith

lemma le_value_le_bytes: "fits n v \<Longrightarrow> le_value (le_bytes n v) = v"
proof (induction n arbitrary: v)
  case (Suc n)
  have "fits n (v div 256)"
    using Suc.prems by (auto simp: fits_def pos_imp_zdiv_nonneg_iff int_div_less_pow)
  then have "le_value (le_bytes n (v div 256)) = v div 256" by (rule Suc.IH)
  then show ?case by (simp add: uint_word_of_int take_bit_eq_mod)
qed (simp add: fits_def)

lemma le_bytes_le_value: "le_bytes (length bs) (le_value bs) = bs"
proof (induction bs)
  case (Cons b bs)
  have b: "0 \<le> uint b" "uint b < 256" using uint_bounded [of b] by auto
  have "(uint b + 256 * le_value bs) div 256 = le_value bs"
    and "(uint b + 256 * le_value bs) mod 256 = uint b"
    using b by auto
  with Cons show ?case by simp
qed simp

lemma le_bytes_le_value': "length bs = n \<Longrightarrow> le_bytes n (le_value bs) = bs"
  using le_bytes_le_value by blast

section \<open>Encoding and decoding are inverse\<close>

lemma pack_header_Inr:
  "pack_header v c f s t = Inr h \<longleftrightarrow>
     fits 1 v \<and> fits 1 c \<and> fits 2 f \<and> fits 4 s \<and> fits 4 t \<and>
     h = le_bytes 1 v @ le_bytes 1 c @ le_bytes 2 f @ le_bytes 4 s @ le_bytes 4 t"
  by (auto simp: pack_header_def)

lemma pack_header_length: "pack_header v c f s t = Inr h \<Longrightarrow> length h = HEADER_SIZE"
  by (auto simp: pack_header_Inr HEADER_SIZE_def)

lemma unpack_pack_header:
  assumes "pack_header v c f s t = Inr h"
  shows "unpack_header (h @ pcm) = (v, c, f, s, t)"
proof -
  from assms have fit: "fits 1 v" "fits 1 c" "fits 2 f" "fits 4 s" "fits 4 t"
    and h: "h = le_bytes 1 v @ le_bytes 1 c @ le_bytes 2 f @ le_bytes 4 s @ le_bytes 4 t"
    by (simp_all add: pack_header_Inr)
  have "take 1 (h @ pcm) = le_bytes 1 v" "take 1 (drop 1 (h @ pcm)) = le_bytes 1 c"
    "take 2 (drop 2 (h @ pcm)) = le_bytes 2 f" "take 4 (drop 4 (h @ pcm)) = le_bytes 4 s"
    "take 4 (drop 8 (h @ pcm)) = le_bytes 4 t"
    by (simp_all add: h)
  with fit show ?thesis by (simp only: unpack_header_def le_value_le_bytes)
qed

lemma split_five:
  assumes "12 \<le> length d"
  shows "take 1 d @ take 1 (drop 1 d) @ take 2 (drop 2 d) @ take 4 (drop 4 d)
           @ take 4 (drop 8 d) @ drop 12 d = d"
proof -
  have step: "take n (drop k d) @ drop (n + k) d = drop k d" for n k
    by (metis append_take_drop_id drop_drop)
  have "take 4 (drop 8 d) @ drop 12 d = drop 8 d" "take 4 (drop 4 d) @ drop 8 d = drop 4 d"
    "take 2 (drop 2 d) @ drop 4 d = drop 2 d" "take 1 (drop 1 d) @ drop 2 d = drop 1 d"
    using step [of 4 8] step [of 4 4] step [of 2 2] step [of 1 1] by (simp_all only: arith_simps one_add_one)
  then show ?thesis by (simp only: append_take_drop_id)
qed

lemma pack_unpack_header:
  assumes "12 \<le> length d" "unpack_header d = (v, c, f, s, t)"
  shows "pack_header v c f s t = Inr (take 12 d)"
proof -
  let ?p = "take 1 d @ take 1 (drop 1 d) @ take 2 (drop 2 d) @ take 4 (drop 4 d) @ take 4 (drop 8 d)"
  have lens: "length (take 1 d) = 1" "length (take 1 (drop 1 d)) = 1"
    "length (take 2 (drop 2 d)) = 2" "length (take 4 (drop 4 d)) = 4" "length (take 4 (drop 8 d)) = 4"
    using assms(1) by simp_all
  have "take 12 d = take 12 (?p @ drop 12 d)" using split_five [OF assms(1)] by simp
  also have "\<dots> = ?p" using lens by simp
  finally have d: "take 12 d = ?p" .
  from assms(2) have "v = le_value (take 1 d)" "c = le_value (take 1 (drop 1 d))"
    "f = le_value (take 2 (drop 2 d))" "s = le_value (take 4 (drop 4 d))"
    "t = le_value (take 4 (drop 8 d))"
    by (auto simp: unpack_header_def)
  then have "pack_header v c f s t = Inr ?p"
    by (simp only: pack_header_Inr lens [THEN fits_le_value] lens [THEN le_bytes_le_value'] simp_thms)
  with d show ?thesis by simp
qed

lemma encode_frame_Inr:
  "encode_frame c s t pcm = Inr d \<longleftrightarrow>
     c \<in> {CHANNEL_MIC, CHANNEL_SYSTEM} \<and> check_payload pcm = None \<and>
     (\<exists>h. pack_header PROTOCOL_VERSION c 0 s t = Inr h \<and> d = h @ pcm)"
  by (auto simp: encode_frame_def bind_res_Inr_iff split: option.splits)

lemma decode_frame_Inr:
  "decode_frame d = Inr f \<longleftrightarrow>
     HEADER_SIZE \<le> length d \<and> fr_channel f \<in> {CHANNEL_MIC, CHANNEL_SYSTEM} \<and>
     unpack_header d = (PROTOCOL_VERSION, fr_channel f, 0, fr_seq f, fr_t_ms f) \<and>
     fr_pcm f = drop HEADER_SIZE d \<and> check_payload (fr_pcm f) = None \<and>
     fr_version f = PROTOCOL_VERSION \<and> fr_flags f = 0"
  by (cases f) (auto simp: decode_frame_def Let_def split: prod.splits option.splits if_splits)

text \<open>
  C40: whatever \<open>encode_frame\<close> accepts, \<open>decode_frame\<close> reads back: the same channel,
  sequence number, time and payload, version 1 and no flags.
\<close>

theorem decode_encode_frame:
  "encode_frame channel seq t_ms pcm = Inr d \<Longrightarrow>
     decode_frame d = Inr \<lparr>fr_channel = channel, fr_seq = seq, fr_t_ms = t_ms, fr_pcm = pcm,
                          fr_version = PROTOCOL_VERSION, fr_flags = 0\<rparr>"
  by (auto simp: encode_frame_Inr decode_frame_Inr unpack_pack_header pack_header_length
      dest: pack_header_length)

definition sample_pcm :: bytes where "sample_pcm = replicate 640 7"

lemma sample_pcm_ok: "check_payload sample_pcm = None"
  by (simp add: check_payload_def sample_pcm_def eval_simps)

theorem decode_encode_frame_witness:
  "\<exists>d. encode_frame 1 258 70000 sample_pcm = Inr d \<and>
       decode_frame d = Inr \<lparr>fr_channel = 1, fr_seq = 258, fr_t_ms = 70000, fr_pcm = sample_pcm,
                            fr_version = PROTOCOL_VERSION, fr_flags = 0\<rparr>"
proof -
  obtain d where d: "encode_frame 1 258 70000 sample_pcm = Inr d"
    by (simp add: encode_frame_def sample_pcm_ok pack_header_def fits_def eval_simps)
  with decode_encode_frame [OF d] show ?thesis by blast
qed

text \<open>
  The decoder accepts only what the encoder produces: a byte string that decodes is the
  encoding of the frame it decodes to, so no two different byte strings decode to the same
  frame.
\<close>

theorem encode_decode_frame:
  assumes "decode_frame d = Inr f"
  shows "encode_frame (fr_channel f) (fr_seq f) (fr_t_ms f) (fr_pcm f) = Inr d"
proof -
  from assms have len: "12 \<le> length d" by (simp add: decode_frame_Inr HEADER_SIZE_def)
  from assms have "unpack_header d = (PROTOCOL_VERSION, fr_channel f, 0, fr_seq f, fr_t_ms f)"
    by (simp add: decode_frame_Inr)
  from pack_unpack_header [OF len this] assms show ?thesis
    by (auto simp: encode_frame_Inr decode_frame_Inr HEADER_SIZE_def)
qed

theorem encode_decode_frame_witness:
  "let d = [1, 0, 0, 0, 5, 0, 0, 0, 100, 0, 0, 0] @ sample_pcm;
       f = \<lparr>fr_channel = 0, fr_seq = 5, fr_t_ms = 100, fr_pcm = sample_pcm, fr_version = 1, fr_flags = 0\<rparr>
   in decode_frame d = Inr f
      \<and> encode_frame (fr_channel f) (fr_seq f) (fr_t_ms f) (fr_pcm f) = Inr d"
proof -
  let ?d = "[1, 0, 0, 0, 5, 0, 0, 0, 100, 0, 0, 0] @ sample_pcm :: bytes"
  let ?f = "\<lparr>fr_channel = 0, fr_seq = 5, fr_t_ms = 100, fr_pcm = sample_pcm, fr_version = 1, fr_flags = 0\<rparr>"
  have "decode_frame ?d = Inr ?f"
    by (simp add: decode_frame_def unpack_header_def sample_pcm_ok eval_simps)
  from encode_decode_frame [OF this] this show ?thesis by simp
qed

section \<open>The text path\<close>

datatype channel_name = Mic | System

record cursor =
  cur_mic :: "int option"
  cur_system :: "int option"

fun cursor_at :: "cursor \<Rightarrow> channel_name \<Rightarrow> int option" where
  "cursor_at c Mic = cur_mic c"
| "cursor_at c System = cur_system c"

text \<open>\<open>SessionCreateRequest._check_channels\<close>: only \<open>["mic"]\<close> or \<open>["mic", "system"]\<close>.\<close>

definition check_channels :: "channel_name list \<Rightarrow> channel_name list option" where
  "check_channels v = (if v \<notin> {[Mic], [Mic, System]} then None else Some v)"

record draft_segment =
  ds_channel :: channel_name
  ds_start_ms :: int
  ds_end_ms :: int
  ds_text :: string
  ds_final :: bool

record marker =
  mk_t_ms :: int
  mk_label :: string

datatype played_state = Started | Done | Skipped
datatype played_reason = Route | Muted | Stale | TtsFailed | Interrupted | Superseded

record ask_played =
  ap_id :: string
  ap_state :: played_state
  ap_t_ms :: int
  ap_latency_ms :: "int option"
  ap_reason :: "played_reason option"

datatype client_message =
    Hello string cursor            \<comment> \<open>device, resume\<close>
  | Draft draft_segment
  | MarkerMsg marker
  | End
  | AskBegin string int            \<comment> \<open>id, \<open>t_ms\<close>\<close>
  | AskEnd string int
  | AskPlayed ask_played

datatype ask_outcome = Answer | Filed | Empty | NoStt | Timeout | Failed

record segment =
  sg_id :: nat
  sg_channel :: channel_name
  sg_start_ms :: int
  sg_end_ms :: int
  sg_text :: string
  sg_tier :: string

text \<open>
  The constraints of the message models' fields: \<open>NonNegInt\<close> and \<open>AskId\<close> (1 to 64
  characters). JSON parsing itself is pydantic's.
\<close>

definition nonneg :: "int \<Rightarrow> bool" where "nonneg i \<longleftrightarrow> 0 \<le> i"

definition opt_nonneg :: "int option \<Rightarrow> bool" where
  "opt_nonneg x = (case x of None \<Rightarrow> True | Some i \<Rightarrow> nonneg i)"

definition ask_id_ok :: "string \<Rightarrow> bool" where
  "ask_id_ok s \<longleftrightarrow> 1 \<le> length s \<and> length s \<le> 64"

fun client_message_ok :: "client_message \<Rightarrow> bool" where
  "client_message_ok (Hello d c) = (opt_nonneg (cur_mic c) \<and> opt_nonneg (cur_system c))"
| "client_message_ok (Draft d) = (nonneg (ds_start_ms d) \<and> nonneg (ds_end_ms d))"
| "client_message_ok (MarkerMsg m) = nonneg (mk_t_ms m)"
| "client_message_ok End = True"
| "client_message_ok (AskBegin i t) = (ask_id_ok i \<and> nonneg t)"
| "client_message_ok (AskEnd i t) = (ask_id_ok i \<and> nonneg t)"
| "client_message_ok (AskPlayed p) =
     (ask_id_ok (ap_id p) \<and> nonneg (ap_t_ms p) \<and> opt_nonneg (ap_latency_ms p))"

end
