(* ===== verification/ClientOutbox.thy ===== *)
theory ClientOutbox
  imports Protocol
begin

text \<open>
  The capture client's outbox (\<open>server/src/jarvis_live/client/outbox.py\<close>): a durable,
  append-only store of audio frames per channel, with a cumulative server ack. A channel is a
  payload file, an index file (one line per frame) and the in-memory list of entries; the
  session has one \<open>acked.json\<close>. The files are part of the state, so that reopening after a
  crash (\<open>_open_channel\<close>) is a function of what is on disk.

  An index line is \<open>Good e\<close> when it parses to the four fields of an entry and \<open>Bad\<close>
  otherwise; bytes after the last newline are the \<open>torn\<close> tail. Sequence numbers, times and
  acks are integers as in the source; file offsets and lengths are naturals.
\<close>

section \<open>State\<close>

definition CHANNELS :: "string list" where
  "CHANNELS = [''mic'', ''system'']"

datatype outbox_error =
    SessionNotFound string
  | UnknownChannel string
  | InvalidPayload nat
  | UnexpectedSeq string int int
  | ShortRead int string

record stored_frame =
  sf_channel :: string
  sf_seq :: int
  sf_t_ms :: int
  sf_pcm :: bytes

definition duration_ms :: "stored_frame \<Rightarrow> nat" where
  "duration_ms f = length (sf_pcm f) div BYTES_PER_MS"

record entry =
  e_seq :: int
  e_t_ms :: int
  e_offset :: nat
  e_len :: nat

datatype index_line = Good entry | Bad

record disk_chan =
  dk_pcm :: bytes
  dk_index :: "index_line list"
  dk_torn :: bool

record chan =
  ch_disk :: disk_chan
  ch_entries :: "entry list"
  ch_pcm_end :: nat
  ch_acked_idx :: nat
  ch_unacked_bytes :: int

record outbox =
  ob_session :: string
  ob_threshold :: nat
  ob_acked :: "string \<rightharpoonup> int"
  ob_acked_file :: "(string \<rightharpoonup> int) option"
  ob_chans :: "string \<rightharpoonup> chan"

record disk =
  d_chans :: "string \<rightharpoonup> disk_chan"
  d_acked :: "(string \<rightharpoonup> int) option"

section \<open>Files\<close>

text \<open>\<open>seek(off)\<close> then \<open>write(bs)\<close>: bytes past the end of the file are zero.\<close>

definition write_at :: "nat \<Rightarrow> bytes \<Rightarrow> bytes \<Rightarrow> bytes" where
  "write_at off bs f =
     take off f @ replicate (off - length f) 0 @ bs @ drop (off + length bs) f"

definition read_at :: "nat \<Rightarrow> nat \<Rightarrow> bytes \<Rightarrow> bytes" where
  "read_at off n f = take n (drop off f)"

definition truncate_to :: "nat \<Rightarrow> bytes \<Rightarrow> bytes" where
  "truncate_to n f = take n f @ replicate (n - length f) 0"

text \<open>A line written after a torn tail continues it, and the joined line does not parse.\<close>

definition write_line :: "entry \<Rightarrow> disk_chan \<Rightarrow> disk_chan" where
  "write_line e d = d\<lparr>dk_index := dk_index d @ [if dk_torn d then Bad else Good e], dk_torn := False\<rparr>"

definition empty_disk_chan :: disk_chan where
  "empty_disk_chan = \<lparr>dk_pcm = [], dk_index = [], dk_torn = False\<rparr>"

section \<open>Opening a channel\<close>

text \<open>
  The recovery loop of \<open>_open_channel\<close>: the longest valid, contiguous prefix of the index
  whose data is on disk. Returns the entries kept and the end of their data.
\<close>

fun recover_entries :: "nat \<Rightarrow> entry list \<Rightarrow> nat \<Rightarrow> index_line list \<Rightarrow> entry list \<times> nat" where
  "recover_entries pcm_size es data_end [] = (es, data_end)"
| "recover_entries pcm_size es data_end (Bad # ls) = (es, data_end)"
| "recover_entries pcm_size es data_end (Good e # ls) =
     (if e_offset e \<noteq> data_end \<or> e_offset e + e_len e > pcm_size
         \<or> (es \<noteq> [] \<and> e_seq (last es) + 1 \<noteq> e_seq e)
      then (es, data_end)
      else recover_entries pcm_size (es @ [e]) (e_offset e + e_len e) ls)"

definition open_channel :: "disk_chan \<Rightarrow> chan" where
  "open_channel d =
     (let (es, data_end) = recover_entries (length (dk_pcm d)) [] 0 (dk_index d) in
      \<lparr>ch_disk = \<lparr>dk_pcm = truncate_to data_end (dk_pcm d),
                  dk_index = take (length es) (dk_index d), dk_torn = False\<rparr>,
       ch_entries = es, ch_pcm_end = data_end, ch_acked_idx = 0,
       ch_unacked_bytes = int (sum_list (map e_len es))\<rparr>)"

text \<open>The loop of \<open>_advance_acked\<close>, over the entries from \<open>acked_idx\<close> on.\<close>

fun advance_loop :: "int option \<Rightarrow> entry list \<Rightarrow> nat \<Rightarrow> int \<Rightarrow> nat \<times> int" where
  "advance_loop acked [] idx ub = (idx, ub)"
| "advance_loop acked (e # es) idx ub =
     (if acked \<noteq> None \<and> e_seq e \<le> the acked
      then advance_loop acked es (Suc idx) (ub - int (e_len e))
      else (idx, ub))"

definition advance_acked :: "int option \<Rightarrow> chan \<Rightarrow> chan" where
  "advance_acked acked st =
     (let (idx, ub) = advance_loop acked (drop (ch_acked_idx st) (ch_entries st))
                        (ch_acked_idx st) (ch_unacked_bytes st)
      in st\<lparr>ch_acked_idx := idx, ch_unacked_bytes := ub\<rparr>)"

text \<open>
  \<open>Outbox.__init__\<close> over what is on disk (\<open>None\<close>: no such directory) and
  \<open>Outbox.reopen\<close>.
\<close>

definition init_outbox :: "string \<Rightarrow> nat \<Rightarrow> bool \<Rightarrow> disk option \<Rightarrow> outbox_error + outbox" where
  "init_outbox sid threshold create dsk =
     (if \<not> create \<and> dsk = None then Inl (SessionNotFound sid)
      else let d = (case dsk of None \<Rightarrow> \<lparr>d_chans = Map.empty, d_acked = None\<rparr> | Some d \<Rightarrow> d);
               acked = (case d_acked d of None \<Rightarrow> Map.empty
                        | Some loaded \<Rightarrow> loaded |` set CHANNELS);
               open1 = (\<lambda>c. advance_acked (acked c)
                         (open_channel (case d_chans d c of None \<Rightarrow> empty_disk_chan | Some x \<Rightarrow> x)))
           in Inr \<lparr>ob_session = sid, ob_threshold = threshold, ob_acked = acked,
                   ob_acked_file = d_acked d,
                   ob_chans = (\<lambda>c. if c \<in> set CHANNELS then Some (open1 c) else None)\<rparr>)"

definition reopen :: "string \<Rightarrow> nat \<Rightarrow> disk option \<Rightarrow> outbox_error + outbox" where
  "reopen sid threshold dsk = init_outbox sid threshold False dsk"

text \<open>What a process leaves on disk.\<close>

definition disk_of :: "outbox \<Rightarrow> disk" where
  "disk_of ob = \<lparr>d_chans = map_option ch_disk \<circ> ob_chans ob, d_acked = ob_acked_file ob\<rparr>"

section \<open>Queries\<close>

definition state_of :: "outbox \<Rightarrow> string \<Rightarrow> outbox_error + chan" where
  "state_of ob c = (case ob_chans ob c of None \<Rightarrow> Inl (UnknownChannel c) | Some st \<Rightarrow> Inr st)"

definition acked_seq :: "outbox \<Rightarrow> string \<Rightarrow> int option" where
  "acked_seq ob c = ob_acked ob c"

definition floor_of :: "int option \<Rightarrow> int" where
  "floor_of acked = (case acked of None \<Rightarrow> 0 | Some a \<Rightarrow> a + 1)"

definition next_seq_of :: "chan \<Rightarrow> int option \<Rightarrow> int" where
  "next_seq_of st acked =
     (let from_entries = (if ch_entries st \<noteq> [] then e_seq (last (ch_entries st)) + 1 else 0)
      in max from_entries (case acked of None \<Rightarrow> 0 | Some a \<Rightarrow> a + 1))"

definition next_seq :: "outbox \<Rightarrow> string \<Rightarrow> outbox_error + int" where
  "next_seq ob c = bind_res (state_of ob c) (\<lambda>st. Inr (next_seq_of st (ob_acked ob c)))"

text \<open>The loop of \<open>unacked\<close>, with its \<open>continue\<close>, \<open>break\<close> and short read.\<close>

fun unacked_loop ::
  "string \<Rightarrow> bytes \<Rightarrow> int \<Rightarrow> nat option \<Rightarrow> stored_frame list \<Rightarrow> entry list
     \<Rightarrow> outbox_error + stored_frame list" where
  "unacked_loop c file flr limit out [] = Inr out"
| "unacked_loop c file flr limit out (e # es) =
     (if e_seq e < flr then unacked_loop c file flr limit out es
      else if limit \<noteq> None \<and> length out \<ge> the limit then Inr out
      else let pcm = read_at (e_offset e) (e_len e) file in
        if length pcm \<noteq> e_len e then Inl (ShortRead (e_seq e) c)
        else unacked_loop c file flr limit
               (out @ [\<lparr>sf_channel = c, sf_seq = e_seq e, sf_t_ms = e_t_ms e, sf_pcm = pcm\<rparr>]) es)"

definition unacked ::
  "outbox \<Rightarrow> string \<Rightarrow> int option \<Rightarrow> nat option \<Rightarrow> outbox_error + stored_frame list" where
  "unacked ob c start limit =
     bind_res (state_of ob c) (\<lambda>st.
       let flr = max (case start of None \<Rightarrow> 0 | Some s \<Rightarrow> s) (floor_of (ob_acked ob c))
       in unacked_loop c (dk_pcm (ch_disk st)) flr limit [] (ch_entries st))"

fun duration_loop :: "int \<Rightarrow> int option \<Rightarrow> nat \<Rightarrow> entry list \<Rightarrow> nat" where
  "duration_loop flr thr tot [] = tot"
| "duration_loop flr thr tot (e # es) =
     (if e_seq e < flr then duration_loop flr thr tot es
      else if thr \<noteq> None \<and> e_seq e > the thr then tot
      else duration_loop flr thr (tot + e_len e) es)"

definition unacked_duration_ms :: "outbox \<Rightarrow> string \<Rightarrow> int option \<Rightarrow> outbox_error + nat" where
  "unacked_duration_ms ob c thr =
     bind_res (state_of ob c) (\<lambda>st.
       Inr (duration_loop (floor_of (ob_acked ob c)) thr 0 (ch_entries st) div BYTES_PER_MS))"

definition unacked_bytes :: "outbox \<Rightarrow> int" where
  "unacked_bytes ob = sum_list (map (\<lambda>c. ch_unacked_bytes (the (ob_chans ob c))) CHANNELS)"

section \<open>Writes\<close>

definition append_chan :: "chan \<Rightarrow> int \<Rightarrow> int \<Rightarrow> bytes \<Rightarrow> chan" where
  "append_chan st seq t_ms pcm =
     (let e = \<lparr>e_seq = seq, e_t_ms = t_ms, e_offset = ch_pcm_end st, e_len = length pcm\<rparr>;
          d = (ch_disk st)\<lparr>dk_pcm := write_at (ch_pcm_end st) pcm (dk_pcm (ch_disk st))\<rparr>
      in st\<lparr>ch_disk := write_line e d, ch_pcm_end := ch_pcm_end st + length pcm,
            ch_unacked_bytes := ch_unacked_bytes st + int (length pcm),
            ch_entries := ch_entries st @ [e]\<rparr>)"

definition append_frame ::
  "outbox \<Rightarrow> string \<Rightarrow> int \<Rightarrow> int \<Rightarrow> bytes \<Rightarrow> outbox_error + (stored_frame \<times> outbox)" where
  "append_frame ob c seq t_ms pcm =
     bind_res (state_of ob c) (\<lambda>st.
       if \<not> (MIN_PAYLOAD \<le> length pcm \<and> length pcm \<le> MAX_PAYLOAD)
       then Inl (InvalidPayload (length pcm))
       else bind_res (next_seq ob c) (\<lambda>expected.
         if seq \<noteq> expected then Inl (UnexpectedSeq c expected seq)
         else Inr (\<lparr>sf_channel = c, sf_seq = seq, sf_t_ms = t_ms, sf_pcm = pcm\<rparr>,
                   ob\<lparr>ob_chans := (ob_chans ob)(c \<mapsto> append_chan st seq t_ms pcm)\<rparr>)))"

definition outbox_append :: "outbox \<Rightarrow> string \<Rightarrow> bytes \<Rightarrow> int \<Rightarrow> outbox_error + (stored_frame \<times> outbox)" where
  "outbox_append ob c pcm t_ms = bind_res (next_seq ob c) (\<lambda>seq. append_frame ob c seq t_ms pcm)"

definition compact_if_fully_acked :: "nat \<Rightarrow> int option \<Rightarrow> chan \<Rightarrow> chan" where
  "compact_if_fully_acked threshold acked st =
     (if ch_entries st = [] \<or> acked = None \<or> the acked < e_seq (last (ch_entries st)) then st
      else if ch_pcm_end st < threshold then st
      else st\<lparr>ch_disk := empty_disk_chan, ch_entries := [], ch_pcm_end := 0,
              ch_acked_idx := 0, ch_unacked_bytes := 0\<rparr>)"

definition mark_acked :: "outbox \<Rightarrow> string \<Rightarrow> int \<Rightarrow> outbox_error + outbox" where
  "mark_acked ob c seq =
     bind_res (state_of ob c) (\<lambda>st.
       if (case ob_acked ob c of None \<Rightarrow> False | Some current \<Rightarrow> seq \<le> current) then Inr ob
       else let acked = (ob_acked ob)(c \<mapsto> seq) in
         Inr (ob\<lparr>ob_acked := acked, ob_acked_file := Some acked,
                 ob_chans := (ob_chans ob)(c \<mapsto>
                   compact_if_fully_acked (ob_threshold ob) (Some seq)
                     (advance_acked (Some seq) st))\<rparr>))"

section \<open>The invariant of a channel\<close>

text \<open>
  Entries are consecutive in sequence number and tile the payload file from offset 0; the files
  on disk hold exactly them; the cached counters agree with the cumulative ack, which never
  runs past the last entry.
\<close>

abbreviation lens :: "entry list \<Rightarrow> nat" where
  "lens es \<equiv> sum_list (map e_len es)"

fun tiled :: "nat \<Rightarrow> entry list \<Rightarrow> bool" where
  "tiled off [] = True"
| "tiled off (e # es) =
     (e_offset e = off \<and> (es \<noteq> [] \<longrightarrow> e_seq (hd es) = e_seq e + 1) \<and> tiled (off + e_len e) es)"

definition covered :: "int option \<Rightarrow> entry \<Rightarrow> bool" where
  "covered acked e \<longleftrightarrow> acked \<noteq> None \<and> e_seq e \<le> the acked"

definition payload_size :: "nat \<Rightarrow> bool" where
  "payload_size n \<longleftrightarrow> MIN_PAYLOAD \<le> n \<and> n \<le> MAX_PAYLOAD"

definition chan_wf :: "int option \<Rightarrow> chan \<Rightarrow> bool" where
  "chan_wf acked st \<longleftrightarrow>
     tiled 0 (ch_entries st) \<and>
     (\<forall>e \<in> set (ch_entries st). 0 \<le> e_seq e \<and> payload_size (e_len e)) \<and>
     ch_pcm_end st = lens (ch_entries st) \<and>
     dk_index (ch_disk st) = map Good (ch_entries st) \<and> \<not> dk_torn (ch_disk st) \<and>
     length (dk_pcm (ch_disk st)) = ch_pcm_end st \<and>
     ch_acked_idx st = length (takeWhile (covered acked) (ch_entries st)) \<and>
     ch_unacked_bytes st = int (lens (dropWhile (covered acked) (ch_entries st))) \<and>
     (\<forall>a. acked = Some a \<longrightarrow> -1 \<le> a) \<and>
     (\<forall>a. acked = Some a \<longrightarrow> ch_entries st \<noteq> [] \<longrightarrow> a \<le> e_seq (last (ch_entries st)))"

definition outbox_wf :: "outbox \<Rightarrow> bool" where
  "outbox_wf ob \<longleftrightarrow>
     dom (ob_chans ob) = set CHANNELS \<and> dom (ob_acked ob) \<subseteq> set CHANNELS \<and>
     (case ob_acked_file ob of None \<Rightarrow> ob_acked ob = Map.empty | Some m \<Rightarrow> m = ob_acked ob) \<and>
     (\<forall>c st. ob_chans ob c = Some st \<longrightarrow> chan_wf (ob_acked ob c) st)"

text \<open>The stored frames of a channel, and those the server has not acked.\<close>

definition frame_of :: "string \<Rightarrow> bytes \<Rightarrow> entry \<Rightarrow> stored_frame" where
  "frame_of c file e =
     \<lparr>sf_channel = c, sf_seq = e_seq e, sf_t_ms = e_t_ms e, sf_pcm = read_at (e_offset e) (e_len e) file\<rparr>"

definition frames_of :: "string \<Rightarrow> chan \<Rightarrow> stored_frame list" where
  "frames_of c st = map (frame_of c (dk_pcm (ch_disk st))) (ch_entries st)"

definition pending_of :: "string \<Rightarrow> int option \<Rightarrow> chan \<Rightarrow> stored_frame list" where
  "pending_of c acked st = filter (\<lambda>f. floor_of acked \<le> sf_seq f) (frames_of c st)"

lemma frame_of_sel [simp]:
  "sf_channel (frame_of c file e) = c" "sf_seq (frame_of c file e) = e_seq e"
  "sf_t_ms (frame_of c file e) = e_t_ms e"
  "sf_pcm (frame_of c file e) = read_at (e_offset e) (e_len e) file"
  by (simp_all add: frame_of_def)

section \<open>Lemmas on tiled entries\<close>

lemma tiled_snoc:
  "tiled off (es @ [e]) \<longleftrightarrow>
     tiled off es \<and> e_offset e = off + lens es \<and> (es \<noteq> [] \<longrightarrow> e_seq e = e_seq (last es) + 1)"
proof (induction es arbitrary: off)
  case (Cons f fs)
  have "tiled off ((f # fs) @ [e]) \<longleftrightarrow>
     e_offset f = off \<and> e_seq (hd (fs @ [e])) = e_seq f + 1 \<and> tiled (off + e_len f) (fs @ [e])"
    by simp
  then show ?case by (cases "fs = []") (auto simp: Cons.IH add.assoc)
qed simp

lemma tiled_hd_less:
  "tiled off (e # es) \<Longrightarrow> x \<in> set es \<Longrightarrow> e_seq e < e_seq x"
proof (induction es arbitrary: e off)
  case (Cons f fs)
  have f: "e_seq f = e_seq e + 1" and t: "tiled (off + e_len e) (f # fs)"
    using Cons.prems(1) by simp_all
  show ?case
  proof (cases "x = f")
    case False
    then have "e_seq f < e_seq x" using Cons.IH [OF t] Cons.prems(2) by simp
    with f show ?thesis by simp
  qed (use f in simp)
qed simp

lemma tiled_tl: "tiled off (e # es) \<Longrightarrow> tiled (off + e_len e) es"
  by simp

lemma tiled_seq_less: "tiled off es \<Longrightarrow> sorted_wrt (<) (map e_seq es)"
proof (induction es arbitrary: off)
  case (Cons e es)
  then show ?case using tiled_hd_less [OF Cons.prems] by auto
qed simp

lemma tiled_last_seq:
  assumes "tiled off es" "e \<in> set es"
  shows "e_seq e \<le> e_seq (last es)"
proof -
  from assms(2) obtain xs ys where es: "es = xs @ e # ys" by (auto simp: in_set_conv_decomp)
  with tiled_seq_less [OF assms(1)] show ?thesis
    by (cases ys rule: rev_cases) (auto simp: sorted_wrt_append)
qed

lemma tiled_bounds:
  "tiled off es \<Longrightarrow> e \<in> set es \<Longrightarrow> off \<le> e_offset e \<and> e_offset e + e_len e \<le> off + lens es"
proof (induction es arbitrary: off)
  case (Cons f fs)
  show ?case
  proof (cases "e = f")
    case False
    then show ?thesis using Cons.IH [OF tiled_tl [OF Cons.prems(1)]] Cons.prems(2) by simp
  qed (use Cons.prems in simp)
qed simp

lemma seqs_consecutive:
  "tiled off es \<Longrightarrow> es \<noteq> [] \<Longrightarrow> map e_seq es = [e_seq (hd es)..e_seq (last es)]"
proof (induction es rule: rev_induct)
  case (snoc e es)
  show ?case
  proof (cases "es = []")
    case False
    with snoc.prems have t: "tiled off es" "e_seq e = e_seq (last es) + 1"
      by (simp_all add: tiled_snoc)
    have "e_seq (hd es) \<le> e_seq (last es)"
      using tiled_last_seq [OF t(1)] False by simp
    with snoc.IH [OF t(1) False] t(2) False show ?thesis by (simp add: upto_rec2)
  qed simp
qed simp

section \<open>What the loops compute\<close>

lemma length_read_at: "off + n \<le> length f \<Longrightarrow> length (read_at off n f) = n"
  by (simp add: read_at_def)

lemma read_at_append: "off + n \<le> length f \<Longrightarrow> read_at off n (f @ x) = read_at off n f"
  by (simp add: read_at_def)

lemma read_at_end: "off = length f \<Longrightarrow> n = length x \<Longrightarrow> read_at off n (f @ x) = x"
  by (simp add: read_at_def)

lemma write_at_end: "off = length f \<Longrightarrow> write_at off bs f = f @ bs"
  by (simp add: write_at_def)

lemma truncate_to_prefix: "n \<le> length f \<Longrightarrow> truncate_to n f = take n f"
  by (simp add: truncate_to_def)

lemma unacked_loop_eq:
  assumes "\<forall>e \<in> set es. e_offset e + e_len e \<le> length file"
  shows "unacked_loop c file flr limit out es =
    Inr (out @ (let k = filter (\<lambda>f. flr \<le> sf_seq f) (map (frame_of c file) es) in
                case limit of None \<Rightarrow> k | Some n \<Rightarrow> take (n - length out) k))"
  using assms
proof (induction es arbitrary: out)
  case Nil
  show ?case by (cases limit) simp_all
next
  case (Cons e es)
  from Cons.prems have len: "length (read_at (e_offset e) (e_len e) file) = e_len e"
    by (simp add: length_read_at)
  have fr: "\<lparr>sf_channel = c, sf_seq = e_seq e, sf_t_ms = e_t_ms e,
             sf_pcm = read_at (e_offset e) (e_len e) file\<rparr> = frame_of c file e"
    by (simp add: frame_of_def)
  show ?case
  proof (cases "e_seq e < flr")
    case True
    with Cons show ?thesis by simp
  next
    case False
    show ?thesis
    proof (cases limit)
      case None
      with False len Cons show ?thesis by (simp add: fr Let_def)
    next
      case (Some n)
      have "take (n - length out) (x # xs) = x # take (n - length (out @ [x])) xs"
        if "length out < n" for x :: stored_frame and xs
        using that by (simp add: take_Cons')
      with Some False len Cons show ?thesis
        by (cases "length out < n") (simp_all add: fr Let_def)
    qed
  qed
qed

lemma duration_loop_eq:
  assumes "sorted_wrt (<) (map e_seq es)"
  shows "duration_loop flr thr tot es =
    tot + lens (filter (\<lambda>e. flr \<le> e_seq e \<and> (thr = None \<or> e_seq e \<le> the thr)) es)"
  using assms
proof (induction es arbitrary: tot)
  case (Cons e es)
  have none: "filter (\<lambda>e. flr \<le> e_seq e \<and> (thr = None \<or> e_seq e \<le> the thr)) es = []"
    if "thr \<noteq> None" "e_seq e > the thr"
    using that Cons.prems by (auto simp: filter_empty_conv)
  from Cons none show ?case by (auto simp: not_less)
qed simp

lemma advance_loop_eq:
  "advance_loop acked es idx ub =
     (idx + length (takeWhile (covered acked) es), ub - int (lens (takeWhile (covered acked) es)))"
  by (induction es arbitrary: idx ub) (auto simp: covered_def)

lemma covered_mono: "a \<le> b \<Longrightarrow> covered (Some a) e \<Longrightarrow> covered (Some b) e"
  by (simp add: covered_def)

lemma not_covered_None [simp]: "\<not> covered None e"
  by (simp add: covered_def)

section \<open>A channel's operations keep the invariant\<close>

lemma chan_wf_floor:
  "chan_wf acked st \<Longrightarrow> e \<in> set (ch_entries st) \<Longrightarrow> \<not> covered acked e \<longleftrightarrow> floor_of acked \<le> e_seq e"
  by (cases acked) (auto simp: chan_wf_def covered_def floor_of_def)

lemma chan_wf_next_seq:
  assumes "chan_wf acked st"
  shows "ch_entries st \<noteq> [] \<Longrightarrow> next_seq_of st acked = e_seq (last (ch_entries st)) + 1"
    and "ch_entries st = [] \<Longrightarrow> next_seq_of st acked = floor_of acked"
    and "0 \<le> next_seq_of st acked" "floor_of acked \<le> next_seq_of st acked"
proof -
  have nn: "ch_entries st \<noteq> [] \<Longrightarrow> 0 \<le> e_seq (last (ch_entries st))"
    using assms by (auto simp: chan_wf_def)
  show "ch_entries st \<noteq> [] \<Longrightarrow> next_seq_of st acked = e_seq (last (ch_entries st)) + 1"
    using assms nn by (cases acked) (auto simp: next_seq_of_def chan_wf_def)
  show "ch_entries st = [] \<Longrightarrow> next_seq_of st acked = floor_of acked"
    using assms by (cases acked) (auto simp: next_seq_of_def chan_wf_def floor_of_def)
  show "0 \<le> next_seq_of st acked" "floor_of acked \<le> next_seq_of st acked"
    using nn by (cases acked; auto simp: next_seq_of_def floor_of_def)+
qed

lemma append_chan_sel [simp]:
  assumes "chan_wf acked st"
  shows "ch_entries (append_chan st seq t pcm) = ch_entries st @
           [\<lparr>e_seq = seq, e_t_ms = t, e_offset = ch_pcm_end st, e_len = length pcm\<rparr>]"
    and "ch_disk (append_chan st seq t pcm) =
           \<lparr>dk_pcm = dk_pcm (ch_disk st) @ pcm,
            dk_index = map Good (ch_entries (append_chan st seq t pcm)), dk_torn = False\<rparr>"
    and "ch_pcm_end (append_chan st seq t pcm) = ch_pcm_end st + length pcm"
    and "ch_acked_idx (append_chan st seq t pcm) = ch_acked_idx st"
    and "ch_unacked_bytes (append_chan st seq t pcm) = ch_unacked_bytes st + int (length pcm)"
  using assms by (simp_all add: append_chan_def Let_def write_line_def write_at_end chan_wf_def)

lemma append_chan_wf:
  assumes "chan_wf acked st" "seq = next_seq_of st acked" "payload_size (length pcm)"
  shows "chan_wf acked (append_chan st seq t pcm)"
proof -
  let ?e = "\<lparr>e_seq = seq, e_t_ms = t, e_offset = ch_pcm_end st, e_len = length pcm\<rparr>"
  let ?es = "ch_entries st"
  have seq0: "0 \<le> seq" and flr: "floor_of acked \<le> seq"
    using assms(2) chan_wf_next_seq [OF assms(1)] by simp_all
  have nc: "\<not> covered acked \<lparr>e_seq = seq, e_t_ms = t, e_offset = y, e_len = length pcm\<rparr>" for y
    using flr by (cases acked) (auto simp: covered_def floor_of_def)
  have t: "tiled 0 (?es @ [?e])"
    using assms(1,2) chan_wf_next_seq(1) [OF assms(1)] by (auto simp: tiled_snoc chan_wf_def)
  have a: "a \<le> seq" if "acked = Some a" for a using flr that by (simp add: floor_of_def)
  have nn: "\<forall>e \<in> set (?es @ [?e]). 0 \<le> e_seq e \<and> payload_size (e_len e)"
    and lo: "\<forall>a. acked = Some a \<longrightarrow> -1 \<le> a"
    and len: "length (dk_pcm (ch_disk st)) = ch_pcm_end st" "ch_pcm_end st = lens ?es"
    and cnt: "ch_acked_idx st = length (takeWhile (covered acked) ?es)"
      "ch_unacked_bytes st = int (lens (dropWhile (covered acked) ?es))"
    using assms(1,3) seq0 by (auto simp: chan_wf_def)
  show ?thesis
    unfolding chan_wf_def append_chan_sel [OF assms(1)]
    using t nn lo len cnt a by (simp add: takeWhile_snoc dropWhile_snoc nc)
qed

lemma frame_of_grow:
  "e_offset e + e_len e \<le> length file \<Longrightarrow> frame_of c (file @ x) e = frame_of c file e"
  by (simp add: frame_of_def read_at_append)

lemma chan_wf_bounds:
  "chan_wf acked st \<Longrightarrow> e \<in> set (ch_entries st) \<Longrightarrow> e_offset e + e_len e \<le> length (dk_pcm (ch_disk st))"
  using tiled_bounds [of 0 "ch_entries st" e] by (simp add: chan_wf_def)

lemma append_chan_frames:
  assumes "chan_wf acked st"
  shows "frames_of c (append_chan st seq t pcm) =
    frames_of c st @ [\<lparr>sf_channel = c, sf_seq = seq, sf_t_ms = t, sf_pcm = pcm\<rparr>]"
proof -
  have "length (dk_pcm (ch_disk st)) = ch_pcm_end st" using assms by (simp add: chan_wf_def)
  then show ?thesis
    using chan_wf_bounds [OF assms]
    by (auto simp: frames_of_def append_chan_sel [OF assms] frame_of_grow)
      (simp add: frame_of_def read_at_end)
qed

lemma append_chan_pending:
  assumes "chan_wf acked st" "seq = next_seq_of st acked"
  shows "pending_of c acked (append_chan st seq t pcm) =
    pending_of c acked st @ [\<lparr>sf_channel = c, sf_seq = seq, sf_t_ms = t, sf_pcm = pcm\<rparr>]"
  using chan_wf_next_seq(4) [OF assms(1)] assms(2)
  by (simp add: pending_of_def append_chan_frames [OF assms(1)])

lemma advance_acked_sel [simp]:
  "ch_disk (advance_acked a st) = ch_disk st" "ch_entries (advance_acked a st) = ch_entries st"
  "ch_pcm_end (advance_acked a st) = ch_pcm_end st"
  by (simp_all add: advance_acked_def split: prod.splits)

lemma advance_acked_wf:
  assumes wf: "chan_wf acked st" and new: "\<And>a. acked = Some a \<Longrightarrow> a \<le> seq"
    and le: "ch_entries st \<noteq> [] \<Longrightarrow> seq \<le> e_seq (last (ch_entries st))" and lo: "-1 \<le> seq"
  shows "chan_wf (Some seq) (advance_acked (Some seq) st)"
proof -
  let ?es = "ch_entries st" and ?P = "covered acked" and ?Q = "covered (Some seq)"
  have PQ: "?P x \<Longrightarrow> ?Q x" for x
    using new by (cases acked) (auto simp: covered_def)
  have idx: "ch_acked_idx st = length (takeWhile ?P ?es)"
    and ub: "ch_unacked_bytes st = int (lens (dropWhile ?P ?es))"
    using wf by (simp_all add: chan_wf_def)
  have dr: "drop (ch_acked_idx st) ?es = dropWhile ?P ?es"
    by (simp add: idx drop_length_takeWhile)
  have new_idx: "ch_acked_idx (advance_acked (Some seq) st) = length (takeWhile ?Q ?es)"
    using takeWhile_weaker [of ?P ?Q ?es, OF PQ]
    by (simp add: advance_acked_def advance_loop_eq dr) (simp add: idx)
  have "int (lens (takeWhile ?Q (dropWhile ?P ?es))) + int (lens (dropWhile ?Q ?es))
         = int (lens (dropWhile ?P ?es))"
    using sum_list_takeWhile_dropWhile [of e_len ?Q "dropWhile ?P ?es"]
      dropWhile_weaker [of ?P ?Q ?es] PQ by (metis of_nat_add)
  then have new_ub: "ch_unacked_bytes (advance_acked (Some seq) st) = int (lens (dropWhile ?Q ?es))"
    by (simp add: advance_acked_def advance_loop_eq dr ub)
  show ?thesis
    using wf le lo new_idx new_ub by (simp add: chan_wf_def)
qed

lemma compact_cases:
  "compact_if_fully_acked threshold acked st = st \<or>
   (ch_entries st \<noteq> [] \<and> acked \<noteq> None \<and> e_seq (last (ch_entries st)) \<le> the acked \<and>
    compact_if_fully_acked threshold acked st =
      st\<lparr>ch_disk := empty_disk_chan, ch_entries := [], ch_pcm_end := 0, ch_acked_idx := 0,
         ch_unacked_bytes := 0\<rparr>)"
  by (auto simp: compact_if_fully_acked_def)

lemma compact_wf:
  "chan_wf acked st \<Longrightarrow> chan_wf acked (compact_if_fully_acked threshold acked st)"
  using compact_cases [of threshold acked st]
  by (auto simp: chan_wf_def empty_disk_chan_def)

lemma pending_nil_of_last:
  assumes "chan_wf acked st" "ch_entries st \<noteq> []" "e_seq (last (ch_entries st)) < floor_of acked"
  shows "pending_of c acked st = []"
  using assms tiled_last_seq [of 0 "ch_entries st"]
  by (fastforce simp: pending_of_def frames_of_def chan_wf_def filter_empty_conv)

lemma compact_pending:
  assumes "chan_wf acked st"
  shows "pending_of c acked (compact_if_fully_acked threshold acked st) = pending_of c acked st"
  using compact_cases [of threshold acked st]
proof
  assume *: "ch_entries st \<noteq> [] \<and> acked \<noteq> None \<and> e_seq (last (ch_entries st)) \<le> the acked \<and>
    compact_if_fully_acked threshold acked st =
      st\<lparr>ch_disk := empty_disk_chan, ch_entries := [], ch_pcm_end := 0, ch_acked_idx := 0,
         ch_unacked_bytes := 0\<rparr>"
  then have "pending_of c acked st = []"
    by (intro pending_nil_of_last [OF assms]) (auto simp: floor_of_def)
  moreover have "pending_of c acked (compact_if_fully_acked threshold acked st) = []"
    using * by (simp add: pending_of_def frames_of_def)
  ultimately show ?thesis by simp
qed simp

lemma compact_next_seq:
  assumes "chan_wf acked st"
  shows "next_seq_of (compact_if_fully_acked threshold acked st) acked = next_seq_of st acked"
  using compact_cases [of threshold acked st]
proof
  assume *: "ch_entries st \<noteq> [] \<and> acked \<noteq> None \<and> e_seq (last (ch_entries st)) \<le> the acked \<and>
    compact_if_fully_acked threshold acked st =
      st\<lparr>ch_disk := empty_disk_chan, ch_entries := [], ch_pcm_end := 0, ch_acked_idx := 0,
         ch_unacked_bytes := 0\<rparr>"
  then obtain a where "acked = Some a" by auto
  with * assms show ?thesis by (auto simp: next_seq_of_def chan_wf_def)
qed simp

lemma advance_pending [simp]: "pending_of c a (advance_acked b st) = pending_of c a st"
  by (simp add: pending_of_def frames_of_def)

lemma advance_next_seq [simp]: "next_seq_of (advance_acked b st) a = next_seq_of st a"
  by (simp add: next_seq_of_def)

lemma pending_filter:
  "floor_of acked \<le> seq + 1 \<Longrightarrow>
     pending_of c (Some seq) st = filter (\<lambda>f. seq < sf_seq f) (pending_of c acked st)"
  by (simp add: pending_of_def floor_of_def) (rule filter_cong, auto)

section \<open>Recovery from disk\<close>

lemma recover_all:
  assumes "tiled de es" "de + lens es \<le> sz" "acc \<noteq> [] \<Longrightarrow> es \<noteq> [] \<Longrightarrow> e_seq (hd es) = e_seq (last acc) + 1"
  shows "recover_entries sz acc de (map Good es @ rest) = recover_entries sz (acc @ es) (de + lens es) rest"
  using assms
proof (induction es arbitrary: acc de)
  case (Cons e es)
  have "recover_entries sz acc de (map Good (e # es) @ rest) =
        recover_entries sz (acc @ [e]) (de + e_len e) (map Good es @ rest)"
    using Cons.prems by auto
  also have "\<dots> = recover_entries sz ((acc @ [e]) @ es) (de + e_len e + lens es) rest"
    by (rule Cons.IH) (use Cons.prems in auto)
  finally show ?case by (simp add: add.assoc)
qed simp

lemma open_channel_exact:
  assumes "chan_wf acked st" "dk_pcm d = dk_pcm (ch_disk st) @ extra"
    "dk_index d = map Good (ch_entries st)"
  shows "open_channel d =
    st\<lparr>ch_acked_idx := 0, ch_unacked_bytes := int (lens (ch_entries st))\<rparr>"
proof -
  have len: "length (dk_pcm (ch_disk st)) = lens (ch_entries st)"
    and t: "tiled 0 (ch_entries st)"
    using assms(1) by (simp_all add: chan_wf_def)
  have "recover_entries (length (dk_pcm d)) [] 0 (dk_index d) = (ch_entries st, lens (ch_entries st))"
    using recover_all [OF t, of "length (dk_pcm d)" "[]" "[]"] assms(2,3) len by simp
  then have "open_channel d =
    \<lparr>ch_disk = \<lparr>dk_pcm = dk_pcm (ch_disk st), dk_index = map Good (ch_entries st), dk_torn = False\<rparr>,
     ch_entries = ch_entries st, ch_pcm_end = lens (ch_entries st), ch_acked_idx = 0,
     ch_unacked_bytes = int (lens (ch_entries st))\<rparr>"
    using assms(2,3) len by (simp add: open_channel_def truncate_to_prefix)
  also have "\<dots> = st\<lparr>ch_acked_idx := 0, ch_unacked_bytes := int (lens (ch_entries st))\<rparr>"
    using assms(1) by (cases st; cases "ch_disk st") (simp add: chan_wf_def)
  finally show ?thesis .
qed

lemma reset_advance:
  assumes "chan_wf acked st"
  shows "advance_acked acked (st\<lparr>ch_acked_idx := 0, ch_unacked_bytes := int (lens (ch_entries st))\<rparr>) = st"
proof -
  have "int (lens (ch_entries st)) - int (lens (takeWhile (covered acked) (ch_entries st)))
        = int (lens (dropWhile (covered acked) (ch_entries st)))"
    using sum_list_takeWhile_dropWhile [of e_len "covered acked" "ch_entries st"] by linarith
  with assms show ?thesis
    by (cases st) (simp add: advance_acked_def advance_loop_eq chan_wf_def)
qed

lemma reopen_exact:
  "chan_wf acked st \<Longrightarrow> dk_pcm d = dk_pcm (ch_disk st) @ extra \<Longrightarrow> dk_index d = map Good (ch_entries st) \<Longrightarrow>
     advance_acked acked (open_channel d) = st"
  by (simp add: open_channel_exact reset_advance)

section \<open>The outbox as a whole\<close>

definition chan_at :: "outbox \<Rightarrow> string \<Rightarrow> chan" where
  "chan_at ob c = the (ob_chans ob c)"

definition pending :: "outbox \<Rightarrow> string \<Rightarrow> stored_frame list" where
  "pending ob c = pending_of c (ob_acked ob c) (chan_at ob c)"

definition next_of :: "outbox \<Rightarrow> string \<Rightarrow> int" where
  "next_of ob c = next_seq_of (chan_at ob c) (ob_acked ob c)"

lemma outbox_wfD:
  assumes "outbox_wf ob" "c \<in> set CHANNELS"
  shows "ob_chans ob c = Some (chan_at ob c)" "state_of ob c = Inr (chan_at ob c)"
    "chan_wf (ob_acked ob c) (chan_at ob c)" "next_seq ob c = Inr (next_of ob c)"
    "-1 \<le> floor_of (ob_acked ob c) - 1"
proof -
  from assms have "c \<in> dom (ob_chans ob)" by (simp add: outbox_wf_def)
  then show c: "ob_chans ob c = Some (chan_at ob c)" by (auto simp: chan_at_def)
  then show "state_of ob c = Inr (chan_at ob c)" by (simp add: state_of_def)
  then show "next_seq ob c = Inr (next_of ob c)" by (simp add: next_seq_def next_of_def)
  from assms(1) c show wf: "chan_wf (ob_acked ob c) (chan_at ob c)" by (simp add: outbox_wf_def)
  then show "-1 \<le> floor_of (ob_acked ob c) - 1"
    by (cases "ob_acked ob c") (auto simp: floor_of_def chan_wf_def)
qed

lemma unknown_channel:
  "outbox_wf ob \<Longrightarrow> c \<notin> set CHANNELS \<Longrightarrow> state_of ob c = Inl (UnknownChannel c)"
  by (cases "ob_chans ob c") (auto simp: outbox_wf_def state_of_def dom_def)

lemma outbox_wf_upd:
  assumes "outbox_wf ob" "c \<in> set CHANNELS" "chan_wf (ob_acked ob c) st"
  shows "outbox_wf (ob\<lparr>ob_chans := (ob_chans ob)(c \<mapsto> st)\<rparr>)"
  using assms by (auto simp: outbox_wf_def split: option.splits)

text \<open>The two query loops over a well-formed outbox.\<close>

lemma unacked_eq:
  assumes "outbox_wf ob" "c \<in> set CHANNELS"
  shows "unacked ob c start limit =
    Inr (let k = filter (\<lambda>f. start = None \<or> the start \<le> sf_seq f) (pending ob c)
         in case limit of None \<Rightarrow> k | Some n \<Rightarrow> take n k)"
proof -
  note wf = outbox_wfD [OF assms]
  let ?st = "chan_at ob c"
  have flr: "0 \<le> floor_of (ob_acked ob c)" using wf(5) by simp
  define flr where "flr = max (case start of None \<Rightarrow> 0 | Some s \<Rightarrow> s) (floor_of (ob_acked ob c))"
  have eq: "filter (\<lambda>f. flr \<le> sf_seq f) (map (frame_of c (dk_pcm (ch_disk ?st))) (ch_entries ?st))
     = filter (\<lambda>f. start = None \<or> the start \<le> sf_seq f) (pending ob c)"
    unfolding pending_def pending_of_def frames_of_def filter_filter flr_def using flr
    by (intro filter_cong) (auto split: option.splits)
  have "\<forall>e \<in> set (ch_entries ?st). e_offset e + e_len e \<le> length (dk_pcm (ch_disk ?st))"
    using chan_wf_bounds [OF wf(3)] by blast
  from unacked_loop_eq [OF this, of c flr limit "[]"] show ?thesis
    by (cases limit) (simp_all add: unacked_def wf(2) Let_def flr_def [symmetric] eq)
qed

lemma lens_frames:
  assumes "chan_wf acked st"
  shows "sum_list (map (length \<circ> sf_pcm) (frames_of c st)) = lens (ch_entries st)"
    and "sum_list (map (length \<circ> sf_pcm) (filter (\<lambda>f. P (sf_seq f)) (frames_of c st)))
         = lens (filter (\<lambda>e. P (e_seq e)) (ch_entries st))"
proof -
  have len: "length (read_at (e_offset e) (e_len e) (dk_pcm (ch_disk st))) = e_len e"
    if "e \<in> set (ch_entries st)" for e
    using chan_wf_bounds [OF assms that] by (simp add: length_read_at)
  have "sum_list (map (length \<circ> sf_pcm) (filter (\<lambda>f. Q (sf_seq f)) (map (frame_of c (dk_pcm (ch_disk st))) es)))
     = lens (filter (\<lambda>e. Q (e_seq e)) es)" if "set es \<subseteq> set (ch_entries st)" for Q es
    using that by (induction es) (auto simp: len)
  from this [of "ch_entries st" "\<lambda>_. True"] this [of "ch_entries st" P]
  show "sum_list (map (length \<circ> sf_pcm) (frames_of c st)) = lens (ch_entries st)"
    and "sum_list (map (length \<circ> sf_pcm) (filter (\<lambda>f. P (sf_seq f)) (frames_of c st)))
         = lens (filter (\<lambda>e. P (e_seq e)) (ch_entries st))"
    by (simp_all add: frames_of_def)
qed

definition audio_bytes :: "stored_frame list \<Rightarrow> nat" where
  "audio_bytes fs = sum_list (map (length \<circ> sf_pcm) fs)"

lemma unacked_duration_eq:
  assumes "outbox_wf ob" "c \<in> set CHANNELS"
  shows "unacked_duration_ms ob c thr =
    Inr (audio_bytes (filter (\<lambda>f. thr = None \<or> sf_seq f \<le> the thr) (pending ob c)) div BYTES_PER_MS)"
proof -
  note wf = outbox_wfD [OF assms]
  have s: "sorted_wrt (<) (map e_seq (ch_entries (chan_at ob c)))"
    using wf(3) tiled_seq_less by (auto simp: chan_wf_def)
  have "filter (\<lambda>f. thr = None \<or> sf_seq f \<le> the thr) (pending ob c) =
        filter (\<lambda>f. floor_of (ob_acked ob c) \<le> sf_seq f \<and> (thr = None \<or> sf_seq f \<le> the thr))
          (frames_of c (chan_at ob c))"
    by (simp add: pending_def pending_of_def conj_commute)
  then show ?thesis
    using lens_frames(2) [OF wf(3), of "\<lambda>s. floor_of (ob_acked ob c) \<le> s \<and> (thr = None \<or> s \<le> the thr)" c]
    by (simp add: unacked_duration_ms_def wf(2) duration_loop_eq [OF s] audio_bytes_def)
qed

lemma append_eq:
  assumes "outbox_wf ob" "c \<in> set CHANNELS" "MIN_PAYLOAD \<le> length pcm" "length pcm \<le> MAX_PAYLOAD"
  shows "outbox_append ob c pcm t =
    Inr (\<lparr>sf_channel = c, sf_seq = next_of ob c, sf_t_ms = t, sf_pcm = pcm\<rparr>,
         ob\<lparr>ob_chans := (ob_chans ob)(c \<mapsto> append_chan (chan_at ob c) (next_of ob c) t pcm)\<rparr>)"
  using outbox_wfD [OF assms(1,2)] assms(3,4)
  by (simp add: outbox_append_def append_frame_def)

lemma payload_size_pos: "payload_size n \<Longrightarrow> 0 < n"
  by (simp add: payload_size_def protocol_consts)

lemma append_wf:
  assumes "outbox_wf ob" "outbox_append ob c pcm t = Inr (f, ob')"
  shows "c \<in> set CHANNELS" "outbox_wf ob'"
    and "f = \<lparr>sf_channel = c, sf_seq = next_of ob c, sf_t_ms = t, sf_pcm = pcm\<rparr>"
    and "pending ob' c = pending ob c @ [f]" "next_of ob' c = next_of ob c + 1"
    and "ob_acked ob' = ob_acked ob"
    and "d \<noteq> c \<Longrightarrow> ob_chans ob' d = ob_chans ob d"
proof -
  show c: "c \<in> set CHANNELS"
    using assms unknown_channel [OF assms(1)]
    by (cases "c \<in> set CHANNELS") (auto simp: outbox_append_def next_seq_def)
  have sz: "MIN_PAYLOAD \<le> length pcm" "length pcm \<le> MAX_PAYLOAD"
    using assms(2) by (auto simp: outbox_append_def append_frame_def bind_res_Inr_iff split: if_splits)
  note wf = outbox_wfD [OF assms(1) c]
  from append_eq [OF assms(1) c sz, of t] assms(2)
  have f: "f = \<lparr>sf_channel = c, sf_seq = next_of ob c, sf_t_ms = t, sf_pcm = pcm\<rparr>"
    and ob': "ob' = ob\<lparr>ob_chans := (ob_chans ob)(c \<mapsto> append_chan (chan_at ob c) (next_of ob c) t pcm)\<rparr>"
    by auto
  have ack: "ob_acked ob' = ob_acked ob" by (simp add: ob')
  have at: "chan_at ob' c = append_chan (chan_at ob c) (next_of ob c) t pcm"
    by (simp add: ob' chan_at_def)
  have wf': "chan_wf (ob_acked ob c) (append_chan (chan_at ob c) (next_of ob c) t pcm)"
    by (rule append_chan_wf [OF wf(3)]) (use sz in \<open>simp_all add: next_of_def payload_size_def\<close>)
  show "f = \<lparr>sf_channel = c, sf_seq = next_of ob c, sf_t_ms = t, sf_pcm = pcm\<rparr>" by (rule f)
  show "outbox_wf ob'" unfolding ob' by (rule outbox_wf_upd [OF assms(1) c wf'])
  show "pending ob' c = pending ob c @ [f]"
    using append_chan_pending [OF wf(3), of "next_of ob c" c t pcm]
    unfolding pending_def at ack f by (simp add: next_of_def)
  show "ob_acked ob' = ob_acked ob" by (rule ack)
  show "next_of ob' c = next_of ob c + 1"
    using chan_wf_next_seq(1) [OF wf'] unfolding next_of_def [of ob'] at ack
    by (simp add: append_chan_sel [OF wf(3)])
  show "d \<noteq> c \<Longrightarrow> ob_chans ob' d = ob_chans ob d" by (simp add: ob')
qed

lemma mark_acked_wf:
  assumes "outbox_wf ob" "c \<in> set CHANNELS" "-1 \<le> seq" "seq < next_of ob c"
  shows "\<exists>ob'. mark_acked ob c seq = Inr ob' \<and> outbox_wf ob' \<and>
     pending ob' c = filter (\<lambda>f. seq < sf_seq f) (pending ob c) \<and> next_of ob' c = next_of ob c \<and>
     floor_of (ob_acked ob' c) = max (floor_of (ob_acked ob c)) (seq + 1) \<and>
     (\<forall>d. d \<noteq> c \<longrightarrow> ob_chans ob' d = ob_chans ob d \<and> ob_acked ob' d = ob_acked ob d)"
proof -
  note wf = outbox_wfD [OF assms(1,2)]
  show ?thesis
  proof (cases "case ob_acked ob c of None \<Rightarrow> False | Some current \<Rightarrow> seq \<le> current")
    case True
    then obtain cur where cur: "ob_acked ob c = Some cur" "seq \<le> cur"
      by (auto split: option.splits)
    then have "filter (\<lambda>f. seq < sf_seq f) (pending ob c) = pending ob c"
      by (auto simp: pending_def pending_of_def floor_of_def intro!: filter_cong)
    with True cur assms(1) show ?thesis
      by (intro exI [of _ ob]) (auto simp: mark_acked_def wf(2) floor_of_def)
  next
    case False
    let ?st' = "compact_if_fully_acked (ob_threshold ob) (Some seq)
                  (advance_acked (Some seq) (chan_at ob c))"
    let ?acked = "(ob_acked ob)(c \<mapsto> seq)"
    let ?ob' = "ob\<lparr>ob_acked := ?acked, ob_acked_file := Some ?acked, ob_chans := (ob_chans ob)(c \<mapsto> ?st')\<rparr>"
    have eq: "mark_acked ob c seq = Inr ?ob'"
      using False by (simp add: mark_acked_def wf(2) Let_def)
    have new: "floor_of (ob_acked ob c) \<le> seq + 1" "floor_of (ob_acked ob c) \<le> seq \<or> ob_acked ob c = None"
      using False assms(3) by (auto simp: floor_of_def split: option.splits)
    have le: "seq \<le> e_seq (last (ch_entries (chan_at ob c)))" if "ch_entries (chan_at ob c) \<noteq> []"
      using chan_wf_next_seq(1) [OF wf(3) that] assms(4) by (simp add: next_of_def)
    have adv: "chan_wf (Some seq) (advance_acked (Some seq) (chan_at ob c))"
      by (rule advance_acked_wf [OF wf(3) _ le assms(3)]) (use False in auto)
    have wf': "chan_wf (Some seq) ?st'" by (rule compact_wf [OF adv])
    have "outbox_wf ?ob'"
      using assms(1,2) wf' by (auto simp: outbox_wf_def)
    moreover have "pending ?ob' c = filter (\<lambda>f. seq < sf_seq f) (pending ob c)"
      using compact_pending [OF adv, of c "ob_threshold ob"] pending_filter [OF new(1), of c "chan_at ob c"]
      by (simp add: pending_def chan_at_def [of ?ob'])
    moreover have "next_seq_of (chan_at ob c) (Some seq) = next_of ob c"
      using chan_wf_next_seq(1) [OF wf(3)] chan_wf_next_seq(2) [OF wf(3)] le assms(3,4) False
      by (cases "ch_entries (chan_at ob c) = []")
        (auto simp: next_of_def next_seq_of_def floor_of_def split: option.splits)
    then have "next_of ?ob' c = next_of ob c"
      using compact_next_seq [OF adv, of "ob_threshold ob"] by (simp add: next_of_def chan_at_def [of ?ob'])
    moreover have "floor_of (ob_acked ?ob' c) = max (floor_of (ob_acked ob c)) (seq + 1)"
      using new(1) by (simp add: floor_of_def)
    ultimately show ?thesis using eq by (intro exI [of _ ?ob']) auto
  qed
qed

lemma init_fresh_wf:
  assumes "init_outbox sid threshold True None = Inr ob"
  shows "outbox_wf ob" "c \<in> set CHANNELS \<Longrightarrow> pending ob c = [] \<and> next_of ob c = 0 \<and> ob_acked ob c = None"
proof -
  have ob: "ob = \<lparr>ob_session = sid, ob_threshold = threshold, ob_acked = Map.empty, ob_acked_file = None,
      ob_chans = (\<lambda>c. if c \<in> set CHANNELS then Some (advance_acked None (open_channel empty_disk_chan)) else None)\<rparr>"
    using assms by (simp add: init_outbox_def cong: if_cong)
  have chan: "advance_acked None (open_channel empty_disk_chan) =
    \<lparr>ch_disk = empty_disk_chan, ch_entries = [], ch_pcm_end = 0, ch_acked_idx = 0, ch_unacked_bytes = 0\<rparr>"
    by (simp add: advance_acked_def open_channel_def empty_disk_chan_def truncate_to_def)
  have wf0: "chan_wf None \<lparr>ch_disk = empty_disk_chan, ch_entries = [], ch_pcm_end = 0,
      ch_acked_idx = 0, ch_unacked_bytes = 0\<rparr>"
    by (simp add: chan_wf_def empty_disk_chan_def)
  show "outbox_wf ob"
    by (auto simp: outbox_wf_def ob chan wf0 split: if_splits)
  show "pending ob c = [] \<and> next_of ob c = 0 \<and> ob_acked ob c = None" if "c \<in> set CHANNELS"
    using that by (simp add: pending_def pending_of_def frames_of_def chan_at_def next_of_def next_seq_of_def ob chan)
qed

lemma reopen_disk_of:
  assumes "outbox_wf ob"
  shows "reopen (ob_session ob) (ob_threshold ob) (Some (disk_of ob)) = Inr ob"
proof -
  have acked: "(case ob_acked_file ob of None \<Rightarrow> Map.empty | Some m \<Rightarrow> m |` set CHANNELS) = ob_acked ob"
    using assms by (cases "ob_acked_file ob") (auto simp: outbox_wf_def restrict_map_dom_subset)
  have chans: "(\<lambda>c. if c \<in> set CHANNELS then Some (advance_acked (ob_acked ob c)
      (open_channel (case map_option ch_disk (ob_chans ob c) of None \<Rightarrow> empty_disk_chan | Some x \<Rightarrow> x))) else None)
     = ob_chans ob"
  proof
    fix c
    show "(if c \<in> set CHANNELS then Some (advance_acked (ob_acked ob c)
      (open_channel (case map_option ch_disk (ob_chans ob c) of None \<Rightarrow> empty_disk_chan | Some x \<Rightarrow> x))) else None)
     = ob_chans ob c"
    proof (cases "c \<in> set CHANNELS")
      case True
      note wf = outbox_wfD [OF assms True]
      have "advance_acked (ob_acked ob c) (open_channel (ch_disk (chan_at ob c))) = chan_at ob c"
        by (rule reopen_exact [OF wf(3), of _ "[]"]) (use wf(3) in \<open>simp_all add: chan_wf_def\<close>)
      with True wf(1) show ?thesis by simp
    next
      case False
      with assms have "ob_chans ob c = None" by (metis domIff outbox_wf_def)
      with False show ?thesis by simp
    qed
  qed
  have "reopen (ob_session ob) (ob_threshold ob) (Some (disk_of ob)) =
    Inr \<lparr>ob_session = ob_session ob, ob_threshold = ob_threshold ob,
         ob_acked = (case ob_acked_file ob of None \<Rightarrow> Map.empty | Some m \<Rightarrow> m |` set CHANNELS),
         ob_acked_file = ob_acked_file ob,
         ob_chans = (\<lambda>c. if c \<in> set CHANNELS then Some (advance_acked
            ((case ob_acked_file ob of None \<Rightarrow> Map.empty | Some m \<Rightarrow> m |` set CHANNELS) c)
            (open_channel (case map_option ch_disk (ob_chans ob c) of None \<Rightarrow> empty_disk_chan | Some x \<Rightarrow> x)))
          else None)\<rparr>"
    by (simp add: reopen_def init_outbox_def disk_of_def Let_def cong: if_cong)
  also have "\<dots> = Inr ob" unfolding acked chans by simp
  finally show ?thesis .
qed

section \<open>Crashes\<close>

text \<open>
  What a process that dies inside \<open>append_frame\<close> leaves on disk: after \<open>k\<close> bytes of the
  payload, inside the index line, or after it.
\<close>

datatype crash_point = InPayload nat | InIndexLine | AfterIndexLine

fun crash_append :: "crash_point \<Rightarrow> chan \<Rightarrow> int \<Rightarrow> int \<Rightarrow> bytes \<Rightarrow> disk_chan" where
  "crash_append (InPayload k) st seq t pcm =
     (ch_disk st)\<lparr>dk_pcm := write_at (ch_pcm_end st) (take k pcm) (dk_pcm (ch_disk st))\<rparr>"
| "crash_append InIndexLine st seq t pcm =
     (ch_disk st)\<lparr>dk_pcm := write_at (ch_pcm_end st) pcm (dk_pcm (ch_disk st)), dk_torn := True\<rparr>"
| "crash_append AfterIndexLine st seq t pcm = ch_disk (append_chan st seq t pcm)"

lemma crash_append_recovers:
  assumes "chan_wf acked st" "seq = next_seq_of st acked" "payload_size (length pcm)"
  shows "advance_acked acked (open_channel (crash_append cp st seq t pcm)) =
    (if cp = AfterIndexLine then append_chan st seq t pcm else st)"
proof (cases cp)
  case (InPayload k)
  have "advance_acked acked (open_channel (crash_append cp st seq t pcm)) = st"
    by (rule reopen_exact [OF assms(1), of _ "take k pcm"])
      (use assms(1) in \<open>simp_all add: InPayload write_at_end chan_wf_def\<close>)
  with InPayload show ?thesis by simp
next
  case InIndexLine
  have "advance_acked acked (open_channel (crash_append cp st seq t pcm)) = st"
    by (rule reopen_exact [OF assms(1), of _ pcm])
      (use assms(1) in \<open>simp_all add: InIndexLine write_at_end chan_wf_def\<close>)
  with InIndexLine show ?thesis by simp
next
  case AfterIndexLine
  note wf' = append_chan_wf [OF assms, of t]
  have "advance_acked acked (open_channel (crash_append cp st seq t pcm)) = append_chan st seq t pcm"
    by (rule reopen_exact [OF wf', of _ "[]"])
      (use wf' in \<open>simp_all add: AfterIndexLine chan_wf_def\<close>)
  with AfterIndexLine show ?thesis by simp
qed

text \<open>
  \<open>_compact_if_fully_acked\<close> truncates the payload file and then the index; dying in between
  leaves index lines that point at nothing, which recovery drops.
\<close>

lemma crash_compact_recovers:
  assumes "chan_wf acked st" "compact_if_fully_acked threshold acked st \<noteq> st"
  shows "advance_acked acked (open_channel ((ch_disk st)\<lparr>dk_pcm := []\<rparr>)) =
    compact_if_fully_acked threshold acked st"
proof -
  from compact_cases [of threshold acked st] assms(2)
  have ne: "ch_entries st \<noteq> []"
    and eq: "compact_if_fully_acked threshold acked st =
      st\<lparr>ch_disk := empty_disk_chan, ch_entries := [], ch_pcm_end := 0, ch_acked_idx := 0,
         ch_unacked_bytes := 0\<rparr>"
    by auto
  from ne obtain e es where es: "ch_entries st = e # es" by (cases "ch_entries st") auto
  with assms(1) have "0 < e_len e" "dk_index (ch_disk st) = Good e # map Good es"
    by (simp_all add: chan_wf_def payload_size_pos)
  then have "open_channel ((ch_disk st)\<lparr>dk_pcm := []\<rparr>) =
    \<lparr>ch_disk = empty_disk_chan, ch_entries = [], ch_pcm_end = 0, ch_acked_idx = 0, ch_unacked_bytes = 0\<rparr>"
    by (simp add: open_channel_def empty_disk_chan_def truncate_to_def)
  then show ?thesis by (simp add: eq advance_acked_def)
qed

section \<open>Properties\<close>

text \<open>
  Appending assigns the next sequence number, keeps the invariant, and puts exactly the new
  frame at the end of what is waiting for the server; acks and the other channel are untouched.
\<close>

theorem outbox_append_correct:
  assumes "outbox_wf ob" "c \<in> set CHANNELS" "MIN_PAYLOAD \<le> length pcm" "length pcm \<le> MAX_PAYLOAD"
    "unacked ob c None None = Inr before"
  shows "\<exists>f ob'. outbox_append ob c pcm t = Inr (f, ob') \<and> outbox_wf ob' \<and>
     next_seq ob c = Inr (sf_seq f) \<and> next_seq ob' c = Inr (sf_seq f + 1) \<and>
     sf_pcm f = pcm \<and> sf_t_ms f = t \<and>
     unacked ob' c None None = Inr (before @ [f]) \<and> ob_acked ob' = ob_acked ob \<and>
     (\<forall>d. d \<noteq> c \<longrightarrow> ob_chans ob' d = ob_chans ob d)"
proof -
  obtain f ob' where ap: "outbox_append ob c pcm t = Inr (f, ob')"
    using append_eq [OF assms(1-4), of t] by blast
  note w = append_wf [OF assms(1) ap]
  from assms(5) have "before = pending ob c" by (simp add: unacked_eq [OF assms(1,2)])
  with w show ?thesis
    using outbox_wfD(4) [OF assms(1,2)] outbox_wfD(4) [OF w(2) assms(2)]
    by (intro exI [of _ f] exI [of _ ob'] conjI) (simp_all add: ap unacked_eq [OF w(2) assms(2)])
qed

definition fresh_outbox :: outbox where
  "fresh_outbox = \<lparr>ob_session = ''s'', ob_threshold = 1000, ob_acked = Map.empty, ob_acked_file = None,
     ob_chans = (\<lambda>c. if c \<in> set CHANNELS then Some \<lparr>ch_disk = empty_disk_chan, ch_entries = [],
        ch_pcm_end = 0, ch_acked_idx = 0, ch_unacked_bytes = 0\<rparr> else None)\<rparr>"

lemma fresh_outbox: "init_outbox ''s'' 1000 True None = Inr fresh_outbox"
  by (simp add: init_outbox_def fresh_outbox_def advance_acked_def open_channel_def
      empty_disk_chan_def truncate_to_def cong: if_cong)

lemmas fresh_outbox_wf = init_fresh_wf(1) [OF fresh_outbox]

lemma mic_channel: "''mic'' \<in> set CHANNELS"
  by (simp add: CHANNELS_def)

lemma fresh_pending: "pending fresh_outbox ''mic'' = []" "next_of fresh_outbox ''mic'' = 0"
  "ob_acked fresh_outbox ''mic'' = None"
  using init_fresh_wf(2) [OF fresh_outbox mic_channel] by simp_all

lemma sample_size: "MIN_PAYLOAD \<le> length sample_pcm" "length sample_pcm \<le> MAX_PAYLOAD"
  by (simp_all add: sample_pcm_def protocol_consts)

theorem outbox_append_correct_witness:
  "\<exists>f ob'. outbox_append fresh_outbox ''mic'' sample_pcm 40 = Inr (f, ob') \<and>
     unacked ob' ''mic'' None None = Inr [f] \<and> sf_pcm f = sample_pcm"
proof -
  have "unacked fresh_outbox ''mic'' None None = Inr []"
    by (simp add: unacked_eq [OF fresh_outbox_wf mic_channel] fresh_pending)
  from outbox_append_correct [OF fresh_outbox_wf mic_channel sample_size this, of 40]
  show ?thesis by auto
qed

text \<open>
  An ack of a frame that was stored drops exactly the frames up to it from what is waiting,
  whether or not it triggers compaction; the next sequence number is unaffected, so no number
  is ever assigned twice.
\<close>

theorem mark_acked_correct:
  assumes "outbox_wf ob" "c \<in> set CHANNELS" "0 \<le> seq" "next_seq ob c = Inr n" "seq < n"
    "unacked ob c None None = Inr before"
  shows "\<exists>ob'. mark_acked ob c seq = Inr ob' \<and> outbox_wf ob' \<and>
     unacked ob' c None None = Inr (filter (\<lambda>f. seq < sf_seq f) before) \<and>
     next_seq ob' c = Inr n"
proof -
  have n: "next_of ob c = n" using assms(4) outbox_wfD(4) [OF assms(1,2)] by simp
  obtain ob' where ob': "mark_acked ob c seq = Inr ob'" "outbox_wf ob'"
    "pending ob' c = filter (\<lambda>f. seq < sf_seq f) (pending ob c)" "next_of ob' c = next_of ob c"
    using mark_acked_wf [OF assms(1,2), of seq] assms(3,5) n by auto
  from assms(6) have "before = pending ob c" by (simp add: unacked_eq [OF assms(1,2)])
  with ob' n show ?thesis
    using outbox_wfD(4) [OF ob'(2) assms(2)]
    by (intro exI [of _ ob']) (simp add: unacked_eq [OF ob'(2) assms(2)])
qed

theorem mark_acked_correct_witness:
  "\<exists>f ob1 ob2. outbox_append fresh_outbox ''mic'' sample_pcm 40 = Inr (f, ob1) \<and>
     mark_acked ob1 ''mic'' 0 = Inr ob2 \<and> unacked ob2 ''mic'' None None = Inr [] \<and>
     next_seq ob2 ''mic'' = Inr 1"
proof -
  obtain f ob1 where ap: "outbox_append fresh_outbox ''mic'' sample_pcm 40 = Inr (f, ob1)"
    using append_eq [OF fresh_outbox_wf mic_channel sample_size, of 40] by blast
  note w = append_wf [OF fresh_outbox_wf ap]
  have "unacked ob1 ''mic'' None None = Inr [f]" "next_seq ob1 ''mic'' = Inr 1"
    using w outbox_wfD(4) [OF w(2) mic_channel]
    by (simp_all add: unacked_eq [OF w(2) mic_channel] fresh_pending)
  from mark_acked_correct [OF w(2) mic_channel _ this(2) _ this(1), of 0] w(3) ap
  show ?thesis by (auto simp: fresh_pending)
qed

text \<open>
  C39: reopening a session from what a well-formed outbox has on disk gives back that outbox
  exactly: the entries, the files, the acks and the cached counters.
\<close>

theorem reopen_restores:
  assumes "outbox_wf ob"
  shows "reopen (ob_session ob) (ob_threshold ob) (Some (disk_of ob)) = Inr ob"
  by (rule reopen_disk_of [OF assms])

theorem reopen_restores_witness:
  "reopen ''s'' 1000 (Some (disk_of fresh_outbox)) = Inr fresh_outbox"
  using reopen_restores [OF fresh_outbox_wf] by (simp add: fresh_outbox_def)

text \<open>
  C21: a crash while a frame is being appended is atomic. Wherever the process dies (after any
  number of payload bytes, inside the index line, or after it), reopening the channel gives
  either the channel without the frame or the channel with it, and it has the frame exactly
  when the index line was written.
\<close>

theorem crash_append_atomic:
  assumes "outbox_wf ob" "c \<in> set CHANNELS" "MIN_PAYLOAD \<le> length pcm" "length pcm \<le> MAX_PAYLOAD"
    "outbox_append ob c pcm t = Inr (f, ob')"
  shows "advance_acked (ob_acked ob c)
       (open_channel (crash_append cp (chan_at ob c) (sf_seq f) t pcm)) =
     (if cp = AfterIndexLine then chan_at ob' c else chan_at ob c)"
proof -
  have f: "f = \<lparr>sf_channel = c, sf_seq = next_of ob c, sf_t_ms = t, sf_pcm = pcm\<rparr>"
    and ob': "ob' = ob\<lparr>ob_chans := (ob_chans ob)(c \<mapsto> append_chan (chan_at ob c) (next_of ob c) t pcm)\<rparr>"
    using append_eq [OF assms(1-4), of t] assms(5) by auto
  show ?thesis
    using crash_append_recovers [OF outbox_wfD(3) [OF assms(1,2)], of "next_of ob c" pcm cp t]
      assms(3,4)
    by (simp add: payload_size_def f ob' next_of_def chan_at_def [of "ob\<lparr>ob_chans := _\<rparr>"])
qed

theorem crash_append_atomic_witness:
  "advance_acked None (open_channel (crash_append (InPayload 100) (chan_at fresh_outbox ''mic'') 0 40 sample_pcm))
     = chan_at fresh_outbox ''mic''"
proof -
  obtain f ob1 where ap: "outbox_append fresh_outbox ''mic'' sample_pcm 40 = Inr (f, ob1)" and "sf_seq f = 0"
    using append_eq [OF fresh_outbox_wf mic_channel sample_size, of 40] fresh_pending by auto
  with crash_append_atomic [OF fresh_outbox_wf mic_channel sample_size ap, of "InPayload 100"]
  show ?thesis by (simp add: fresh_pending)
qed

text \<open>
  The queries. \<open>unacked\<close> never fails on a well-formed outbox and returns the waiting
  frames from \<open>start\<close> on, at most \<open>limit\<close> of them, and \<open>unacked_duration_ms\<close> is
  the audio in the frames \<open>unacked\<close> would return.
\<close>

theorem outbox_queries:
  assumes "outbox_wf ob" "c \<in> set CHANNELS" "unacked ob c None None = Inr fs"
  shows "unacked ob c (Some start) (Some n) = Inr (take n (filter (\<lambda>f. start \<le> sf_seq f) fs)) \<and>
     unacked_duration_ms ob c (Some thr) =
       Inr (audio_bytes (filter (\<lambda>f. sf_seq f \<le> thr) fs) div BYTES_PER_MS) \<and>
     unacked_duration_ms ob c None = Inr (audio_bytes fs div BYTES_PER_MS)"
  using assms(3) by (simp add: unacked_eq [OF assms(1,2)] unacked_duration_eq [OF assms(1,2)])

theorem outbox_queries_witness:
  "\<exists>f ob1. outbox_append fresh_outbox ''mic'' sample_pcm 40 = Inr (f, ob1) \<and>
     unacked_duration_ms ob1 ''mic'' None = Inr 20"
proof -
  obtain f ob1 where ap: "outbox_append fresh_outbox ''mic'' sample_pcm 40 = Inr (f, ob1)"
    using append_eq [OF fresh_outbox_wf mic_channel sample_size, of 40] by blast
  note w = append_wf [OF fresh_outbox_wf ap]
  have "unacked ob1 ''mic'' None None = Inr [f]"
    using w by (simp add: unacked_eq [OF w(2) mic_channel] fresh_pending)
  from outbox_queries [OF w(2) mic_channel this] w(3) ap show ?thesis
    by (simp add: audio_bytes_def sample_pcm_def BYTES_PER_MS_def)
qed

section \<open>A concrete outbox\<close>

definition sample_stored :: stored_frame where
  "sample_stored = \<lparr>sf_channel = ''mic'', sf_seq = 0, sf_t_ms = 40, sf_pcm = sample_pcm\<rparr>"

definition one_frame_outbox :: outbox where
  "one_frame_outbox = snd (projr (outbox_append fresh_outbox ''mic'' sample_pcm 40))"

lemma one_frame_append:
  "outbox_append fresh_outbox ''mic'' sample_pcm 40 = Inr (sample_stored, one_frame_outbox)"
  using append_eq [OF fresh_outbox_wf mic_channel sample_size, of 40]
  by (simp add: one_frame_outbox_def sample_stored_def fresh_pending)

lemma one_frame_wf: "outbox_wf one_frame_outbox"
  and one_frame_pending: "pending one_frame_outbox ''mic'' = [sample_stored]"
  and one_frame_next: "next_of one_frame_outbox ''mic'' = 1"
  and one_frame_acked: "ob_acked one_frame_outbox = Map.empty"
  and one_frame_system: "pending one_frame_outbox ''system'' = []"
proof -
  note w = append_wf [OF fresh_outbox_wf one_frame_append]
  show "outbox_wf one_frame_outbox" by (rule w(2))
  show "pending one_frame_outbox ''mic'' = [sample_stored]" using w(4) by (simp add: fresh_pending)
  show "next_of one_frame_outbox ''mic'' = 1" using w(5) by (simp add: fresh_pending)
  show a: "ob_acked one_frame_outbox = Map.empty" using w(6) by (simp add: fresh_outbox_def)
  have "chan_at one_frame_outbox ''system'' = chan_at fresh_outbox ''system''"
    using w(7) [of "''system''"] by (simp add: chan_at_def)
  then show "pending one_frame_outbox ''system'' = []"
    using init_fresh_wf(2) [OF fresh_outbox, of "''system''"] a
    by (simp add: pending_def CHANNELS_def fresh_outbox_def)
qed

end
