(* ===== verification/Transport.thy ===== *)
theory Transport
  imports ClientOutbox
begin

text \<open>
  The producer connection (\<open>server/src/jarvis_live/client/transport.py\<close>): the reconnect
  policy, the connection's state machine, the handshake, the receive loop and the send loop with
  its backpressure and its end condition. The socket is not under \<open>src/\<close>: how many sends
  succeed before it breaks is a parameter (\<open>ss_budget\<close>), and what arrives on it is a list of
  server events. \<open>float\<close> arithmetic is modelled by real numbers.
\<close>

section \<open>Reconnect policy\<close>

record reconnect_policy =
  rp_initial_delay :: real
  rp_max_delay :: real
  rp_jitter_fraction :: real

definition default_policy :: reconnect_policy where
  "default_policy = \<lparr>rp_initial_delay = 1 / 2, rp_max_delay = 30, rp_jitter_fraction = 1 / 4\<rparr>"

text \<open>\<open>r\<close> is the jitter, a number from 0 up to 1.\<close>

definition delay :: "reconnect_policy \<Rightarrow> int \<Rightarrow> real \<Rightarrow> real" where
  "delay p attempt r =
     (let base = min (rp_max_delay p) (rp_initial_delay p * 2 ^ nat (min (max attempt 0) 30))
      in min (rp_max_delay p) (base * (1 + rp_jitter_fraction p * r)))"

section \<open>The connection\<close>

datatype conn_state = CIdle | CConnecting | CConnected | CReconnecting | CEnded | CFailed | CStopped

record conn =
  cn_state :: conn_state
  cn_failure :: "string option"
  cn_failures :: nat
  cn_control :: "client_message list"
  cn_end_requested :: bool
  cn_end_sent :: bool
  cn_done :: bool

definition new_conn :: conn where
  "new_conn = \<lparr>cn_state = CIdle, cn_failure = None, cn_failures = 0, cn_control = [],
     cn_end_requested = False, cn_end_sent = False, cn_done = False\<rparr>"

definition set_state :: "conn_state \<Rightarrow> conn \<Rightarrow> conn" where
  "set_state new c = c\<lparr>cn_state := new,
     cn_done := (cn_done c \<or> new \<in> {CEnded, CFailed, CStopped})\<rparr>"

text \<open>
  \<open>_run\<close>: the top of the loop, and what follows one \<open>_run_once\<close>. \<open>Retry d\<close> is the
  sleep before the next round, \<open>Return\<close> leaves the loop.
\<close>

datatype attempt = AttemptOk | AttemptFatal string | AttemptTransient
datatype after_attempt = Return | Retry real

definition run_begin :: "conn \<Rightarrow> conn" where
  "run_begin c = set_state (if cn_failures c = 0 then CConnecting else CReconnecting) c"

definition run_after :: "reconnect_policy \<Rightarrow> real \<Rightarrow> attempt \<Rightarrow> conn \<Rightarrow> conn \<times> after_attempt" where
  "run_after p r a c =
     (case a of
        AttemptOk \<Rightarrow> (set_state CEnded c, Return)
      | AttemptFatal e \<Rightarrow> (set_state CFailed (c\<lparr>cn_failure := Some e\<rparr>), Return)
      | AttemptTransient \<Rightarrow>
          (set_state CReconnecting (c\<lparr>cn_failures := Suc (cn_failures c)\<rparr>),
           Retry (delay p (int (cn_failures c)) r)))"

text \<open>\<open>stop\<close>: drop the connection; an ended or failed one keeps its state.\<close>

definition stop :: "conn \<Rightarrow> conn" where
  "stop c = (if cn_state c \<notin> {CEnded, CFailed} then set_state CStopped c else c)"

definition send_marker :: "int \<Rightarrow> string \<Rightarrow> conn \<Rightarrow> conn" where
  "send_marker t label c = c\<lparr>cn_control := cn_control c @ [MarkerMsg \<lparr>mk_t_ms = t, mk_label = label\<rparr>]\<rparr>"

definition send_draft :: "draft_segment \<Rightarrow> conn \<Rightarrow> conn" where
  "send_draft d c = c\<lparr>cn_control := cn_control c @ [Draft d]\<rparr>"

definition send_ask :: "client_message \<Rightarrow> conn \<Rightarrow> conn" where
  "send_ask m c = c\<lparr>cn_control := cn_control c @ [m]\<rparr>"

text \<open>The HTTP status of the ticket request, and the close code of the stream.\<close>

definition FATAL_HTTP :: "int list" where "FATAL_HTTP = [401, 403, 404]"
definition FATAL_WS_CLOSE :: "int list" where "FATAL_WS_CLOSE = [4401, 4404]"

definition ticket_result :: "int \<Rightarrow> attempt" where
  "ticket_result status =
     (if status \<in> set FATAL_HTTP then AttemptFatal ''HTTP''
      else if 400 \<le> status then AttemptTransient else AttemptOk)"

definition closed_result :: "int option \<Rightarrow> attempt" where
  "closed_result rcvd =
     (case rcvd of None \<Rightarrow> AttemptTransient
      | Some code \<Rightarrow> if code \<in> set FATAL_WS_CLOSE then AttemptFatal ''server closed the stream''
                     else AttemptTransient)"

section \<open>Receiving\<close>

datatype server_event =
    EvHelloAck cursor
  | EvAck channel_name int
  | EvError string string
  | EvOther string
  | EvMalformed

fun channel_str :: "channel_name \<Rightarrow> string" where
  "channel_str Mic = ''mic''"
| "channel_str System = ''system''"

text \<open>\<open>_recv_hello_ack\<close>: everything before the ack is skipped, an error or a close raises.\<close>

fun recv_hello_ack :: "server_event list \<Rightarrow> (string + cursor) \<times> server_event list" where
  "recv_hello_ack [] = (Inl ''closed before hello_ack'', [])"
| "recv_hello_ack (EvHelloAck c # es) = (Inr c, es)"
| "recv_hello_ack (EvError code message # es) = (Inl (code @ '': '' @ message), es)"
| "recv_hello_ack (EvAck c s # es) = recv_hello_ack es"
| "recv_hello_ack (EvOther k # es) = recv_hello_ack es"
| "recv_hello_ack (EvMalformed # es) = recv_hello_ack es"

definition ack_cursor :: "outbox \<Rightarrow> cursor \<Rightarrow> channel_name \<Rightarrow> outbox_error + outbox" where
  "ack_cursor ob cur c =
     (case cursor_at cur c of None \<Rightarrow> Inr ob | Some seq \<Rightarrow> mark_acked ob (channel_str c) seq)"

definition after_acked :: "int option \<Rightarrow> int" where
  "after_acked acked = (case acked of None \<Rightarrow> 0 | Some a \<Rightarrow> a + 1)"

text \<open>The part of \<open>_converse\<close> after the hello ack: acks applied, where sending starts.\<close>

definition handshake ::
  "outbox \<Rightarrow> conn \<Rightarrow> cursor \<Rightarrow> outbox_error + (outbox \<times> conn \<times> (channel_name \<Rightarrow> int))" where
  "handshake ob cn cur =
     bind_res (ack_cursor ob cur Mic) (\<lambda>ob1. bind_res (ack_cursor ob1 cur System) (\<lambda>ob2.
       Inr (ob2, set_state CConnected (cn\<lparr>cn_failures := 0\<rparr>),
            \<lambda>c. after_acked (acked_seq ob2 (channel_str c)))))"

text \<open>
  \<open>_receive_loop\<close> over what arrives before the server closes the socket: the outbox after
  the acks, the events relayed, and whether the loop returns or raises.
\<close>

fun receive_loop ::
  "outbox \<Rightarrow> bool \<Rightarrow> server_event list \<Rightarrow> server_event list \<Rightarrow> (string + unit) \<times> outbox \<times> server_event list" where
  "receive_loop ob end_sent events [] =
     (if \<not> end_sent then Inl ''server closed the connection'' else Inr (), ob, events)"
| "receive_loop ob end_sent events (e # es) =
     (case e of
        EvMalformed \<Rightarrow> receive_loop ob end_sent events es
      | EvAck c seq \<Rightarrow>
          (case mark_acked ob (channel_str c) seq of
             Inl err \<Rightarrow> (Inl ''outbox error'', ob, events)
           | Inr ob' \<Rightarrow> receive_loop ob' end_sent events es)
      | EvHelloAck cur \<Rightarrow> receive_loop ob end_sent events es
      | _ \<Rightarrow> receive_loop ob end_sent (events @ [e]) es)"

section \<open>Sending\<close>

datatype send_error = EncodeError frame_error | OutboxErr outbox_error | SocketLost | SendCancelled

datatype wire = WBinary bytes | WText client_message

fun CHANNEL_INDEX :: "channel_name \<Rightarrow> int" where
  "CHANNEL_INDEX Mic = 0"
| "CHANNEL_INDEX System = 1"

definition SEND_BATCH :: nat where "SEND_BATCH = 16"

record send_state =
  ss_budget :: nat
  ss_cancel :: bool
  ss_sent :: "wire list"
  ss_next :: "channel_name \<Rightarrow> int"
  ss_progressed :: bool

text \<open>What an awaited send raises once the budget is used up: the socket broke, or the sender was cancelled.\<close>

definition send_raises :: "send_state \<Rightarrow> send_error" where
  "send_raises s = (if ss_cancel s then SendCancelled else SocketLost)"

definition put_wire :: "wire \<Rightarrow> send_state \<Rightarrow> send_state" where
  "put_wire w s = s\<lparr>ss_budget := ss_budget s - 1, ss_sent := ss_sent s @ [w], ss_progressed := True\<rparr>"

text \<open>
  The control messages: popped and sent one by one, and put back where the send raises an
  \<open>Exception\<close>, which a cancellation is not.
\<close>

fun drain_control ::
  "client_message list \<Rightarrow> send_state \<Rightarrow> send_error option \<times> client_message list \<times> send_state" where
  "drain_control [] s = (None, [], s)"
| "drain_control (m # ms) s =
     (if ss_budget s = 0 then (Some (send_raises s), if ss_cancel s then ms else m # ms, s)
      else drain_control ms (put_wire (WText m) s))"

text \<open>The inner loop over a batch of frames, with the in-flight count of \<open>_send_loop\<close>.\<close>

fun send_frames ::
  "nat \<Rightarrow> channel_name \<Rightarrow> nat \<Rightarrow> stored_frame list \<Rightarrow> send_state \<Rightarrow> send_error option \<times> send_state" where
  "send_frames cap c in_flight [] s = (None, s)"
| "send_frames cap c in_flight (f # fs) s =
     (if in_flight > cap then (None, s)
      else case encode_frame (CHANNEL_INDEX c) (sf_seq f) (sf_t_ms f) (sf_pcm f) of
        Inl e \<Rightarrow> (Some (EncodeError e), s)
      | Inr d \<Rightarrow>
          if ss_budget s = 0 then (Some (send_raises s), s)
          else let s' = put_wire (WBinary d) s in
            send_frames cap c (in_flight + duration_ms f) fs
              (s'\<lparr>ss_next := (ss_next s')(c := sf_seq f + 1)\<rparr>))"

definition in_flight_ms :: "outbox \<Rightarrow> channel_name \<Rightarrow> int \<Rightarrow> outbox_error + nat" where
  "in_flight_ms ob c nxt =
     (if nxt \<noteq> 0 then unacked_duration_ms ob (channel_str c) (Some (nxt - 1)) else Inr 0)"

definition send_channel ::
  "nat \<Rightarrow> outbox \<Rightarrow> channel_name \<Rightarrow> send_state \<Rightarrow> send_error option \<times> send_state" where
  "send_channel cap ob c s =
     (let nxt = ss_next s c in
      case in_flight_ms ob c nxt of
        Inl e \<Rightarrow> (Some (OutboxErr e), s)
      | Inr in_flight \<Rightarrow>
          if in_flight > cap then (None, s)
          else case unacked ob (channel_str c) (Some nxt) (Some SEND_BATCH) of
            Inl e \<Rightarrow> (Some (OutboxErr e), s)
          | Inr fs \<Rightarrow> send_frames cap c in_flight fs s)"





text \<open>
  \<open>_converse\<close> waits for the receiver or the sender, whichever finishes first: an exception of
  a finished one is raised (and retried), otherwise the connection is over.
\<close>

datatype task = Running | Raised | Returned

definition converse_result :: "task \<Rightarrow> task \<Rightarrow> attempt" where
  "converse_result receiver sender =
     (if receiver = Raised \<or> sender = Raised then AttemptTransient else AttemptOk)"

text \<open>\<open>end\<close>: the request, and what it returns once the connection is done or timed out.\<close>

definition request_end :: "conn \<Rightarrow> conn" where
  "request_end c = c\<lparr>cn_end_requested := True\<rparr>"

definition end_result :: "bool \<Rightarrow> conn \<Rightarrow> conn \<times> bool" where
  "end_result timed_out c = (if timed_out then (stop c, False) else (c, cn_state c = CEnded))"

section \<open>The reconnect delay\<close>

definition policy_ok :: "reconnect_policy \<Rightarrow> bool" where
  "policy_ok p \<longleftrightarrow> 0 < rp_initial_delay p \<and> rp_initial_delay p \<le> rp_max_delay p \<and> 0 \<le> rp_jitter_fraction p"

definition base_delay :: "reconnect_policy \<Rightarrow> int \<Rightarrow> real" where
  "base_delay p attempt = min (rp_max_delay p) (rp_initial_delay p * 2 ^ nat (min (max attempt 0) 30))"

lemma delay_base: "delay p a r = min (rp_max_delay p) (base_delay p a * (1 + rp_jitter_fraction p * r))"
  by (simp add: delay_def base_delay_def)

lemma base_delay_mono:
  assumes "policy_ok p" "a \<le> b"
  shows "base_delay p a \<le> base_delay p b"
proof -
  have "(2::real) ^ nat (min (max a 0) 30) \<le> 2 ^ nat (min (max b 0) 30)"
    using assms(2) by (intro power_increasing) auto
  then show ?thesis
    using assms(1) unfolding base_delay_def policy_ok_def
    by (intro min.mono mult_left_mono) auto
qed

lemma base_delay_bounds:
  assumes "policy_ok p"
  shows "rp_initial_delay p \<le> base_delay p a" "base_delay p a \<le> rp_max_delay p"
proof -
  have "(1::real) \<le> 2 ^ nat (min (max a 0) 30)" by simp
  then have "rp_initial_delay p * 1 \<le> rp_initial_delay p * 2 ^ nat (min (max a 0) 30)"
    using assms unfolding policy_ok_def by (intro mult_left_mono) auto
  then show "rp_initial_delay p \<le> base_delay p a" "base_delay p a \<le> rp_max_delay p"
    using assms by (auto simp: base_delay_def policy_ok_def)
qed

text \<open>
  The reconnect delay never leaves its range, whatever the attempt number and the jitter,
  and without jitter it never gets shorter from one attempt to the next.
\<close>

theorem delay_bounded_monotone:
  assumes "policy_ok p" "0 \<le> r" "a \<le> b"
  shows "rp_initial_delay p \<le> delay p a r \<and> delay p a r \<le> rp_max_delay p \<and> delay p a r \<le> delay p b r"
proof -
  have j: "1 \<le> 1 + rp_jitter_fraction p * r" using assms(1,2) by (simp add: policy_ok_def)
  have b0: "0 \<le> base_delay p a" using base_delay_bounds [OF assms(1), of a] assms(1)
    by (auto simp: policy_ok_def)
  then have "rp_initial_delay p * 1 \<le> base_delay p a * (1 + rp_jitter_fraction p * r)"
    using base_delay_bounds [OF assms(1), of a] j by (intro mult_mono) auto
  moreover have "base_delay p a * (1 + rp_jitter_fraction p * r) \<le> base_delay p b * (1 + rp_jitter_fraction p * r)"
    using base_delay_mono [OF assms(1,3)] j by (intro mult_right_mono) auto
  ultimately show ?thesis
    using assms(1) by (auto simp: delay_base policy_ok_def)
qed

theorem delay_bounded_monotone_witness:
  "policy_ok default_policy \<and> delay default_policy 3 0 = 4 \<and> delay default_policy 100 1 = 30 \<and>
   delay default_policy 3 0 \<le> delay default_policy 4 0"
proof -
  have ok: "policy_ok default_policy" by (simp add: policy_ok_def default_policy_def)
  have "delay default_policy 3 0 \<le> delay default_policy 4 0"
    using delay_bounded_monotone [OF ok, of 0 3 4] by simp
  with ok show ?thesis by (simp add: delay_def default_policy_def)
qed

section \<open>What a batch sends\<close>

definition wire_frame :: "channel_name \<Rightarrow> stored_frame \<Rightarrow> wire" where
  "wire_frame c f = WBinary (projr (encode_frame (CHANNEL_INDEX c) (sf_seq f) (sf_t_ms f) (sf_pcm f)))"

text \<open>
  The frames a batch sends are a prefix of the batch; the cursor ends one past the last of
  them; and before each send the in-flight count was within the cap.
\<close>

lemma send_frames_spec:
  assumes "send_frames cap c in_flight fs s = (err, s')"
  shows "\<exists>k. k \<le> length fs \<and> ss_sent s' = ss_sent s @ map (wire_frame c) (take k fs) \<and>
     ss_next s' = (if k = 0 then ss_next s else (ss_next s)(c := sf_seq (fs ! (k - 1)) + 1)) \<and>
     ss_progressed s' = (ss_progressed s \<or> 0 < k) \<and>
     (\<forall>j < k. in_flight + sum_list (map duration_ms (take j fs)) \<le> cap) \<and>
     (\<forall>f \<in> set (take k fs). \<exists>d. encode_frame (CHANNEL_INDEX c) (sf_seq f) (sf_t_ms f) (sf_pcm f) = Inr d)"
  using assms
proof (induction fs arbitrary: in_flight s)
  case Nil
  then show ?case by simp
next
  case (Cons f fs)
  have stop: ?case if "s' = s" by (rule exI [of _ 0]) (simp add: that)
  show ?case
  proof (cases "in_flight > cap")
    case True
    then show ?thesis using Cons.prems stop by simp
  next
    case False
    show ?thesis
    proof (cases "encode_frame (CHANNEL_INDEX c) (sf_seq f) (sf_t_ms f) (sf_pcm f)")
      case (Inl e)
      then show ?thesis using Cons.prems stop False by simp
    next
      case (Inr d)
      show ?thesis
      proof (cases "ss_budget s = 0")
        case True
        then show ?thesis using Cons.prems stop False Inr by simp
      next
        case budget: False
        let ?s1 = "(put_wire (WBinary d) s)\<lparr>ss_next := (ss_next s)(c := sf_seq f + 1)\<rparr>"
        have "send_frames cap c (in_flight + duration_ms f) fs ?s1 = (err, s')"
          using Cons.prems False Inr budget by (simp add: put_wire_def)
        from Cons.IH [OF this] obtain k where k: "k \<le> length fs"
          "ss_sent s' = ss_sent ?s1 @ map (wire_frame c) (take k fs)"
          "ss_next s' = (if k = 0 then ss_next ?s1 else (ss_next ?s1)(c := sf_seq (fs ! (k - 1)) + 1))"
          "ss_progressed s' = (ss_progressed ?s1 \<or> 0 < k)"
          "\<forall>j < k. in_flight + duration_ms f + sum_list (map duration_ms (take j fs)) \<le> cap"
          "\<forall>f \<in> set (take k fs). \<exists>d. encode_frame (CHANNEL_INDEX c) (sf_seq f) (sf_t_ms f) (sf_pcm f) = Inr d"
          by blast
        have wf: "WBinary d = wire_frame c f" by (simp add: wire_frame_def Inr)
        have "in_flight + sum_list (map duration_ms (take j (f # fs))) \<le> cap" if "j < Suc k" for j
          using k(5) False that by (cases j) (auto simp: add.assoc)
        then show ?thesis
          using k(1-4,6) Inr by (intro exI [of _ "Suc k"]) (auto simp: put_wire_def wf nth_Cons')
      qed
    qed
  qed
qed

lemma pending_sorted:
  assumes "outbox_wf ob" "c \<in> set CHANNELS"
  shows "sorted_wrt (<) (map sf_seq (pending ob c))"
proof -
  have "sorted_wrt (<) (map e_seq (ch_entries (chan_at ob c)))"
    using outbox_wfD(3) [OF assms] tiled_seq_less by (auto simp: chan_wf_def)
  then have "sorted_wrt (\<lambda>f g. sf_seq f < sf_seq g) (frames_of c (chan_at ob c))"
    by (simp add: frames_of_def sorted_wrt_map)
  then show ?thesis
    unfolding pending_def pending_of_def by (simp add: sorted_wrt_map sorted_wrt_filter)
qed

lemma pending_facts:
  assumes "outbox_wf ob" "c \<in> set CHANNELS" "f \<in> set (pending ob c)"
  shows "0 \<le> sf_seq f" "payload_size (length (sf_pcm f))"
proof -
  note wf = outbox_wfD(3) [OF assms(1,2)]
  from assms(3) obtain e where e: "e \<in> set (ch_entries (chan_at ob c))"
    "f = frame_of c (dk_pcm (ch_disk (chan_at ob c))) e"
    by (auto simp: pending_def pending_of_def frames_of_def)
  with wf show "0 \<le> sf_seq f" by (auto simp: chan_wf_def)
  from e wf chan_wf_bounds [OF wf e(1)] show "payload_size (length (sf_pcm f))"
    by (auto simp: chan_wf_def length_read_at)
qed

lemma filter_upto_sorted:
  assumes "sorted_wrt (<) (map sf_seq fs)" "k < length (filter (\<lambda>f. n \<le> sf_seq f) fs)"
  defines "P \<equiv> filter (\<lambda>f. n \<le> sf_seq f) fs"
  shows "filter (\<lambda>f. sf_seq f \<le> sf_seq (P ! k)) fs = filter (\<lambda>f. sf_seq f \<le> n - 1) fs @ take (Suc k) P"
    and "filter (\<lambda>f. sf_seq (P ! k) + 1 \<le> sf_seq f) fs = drop (Suc k) P"
proof -
  let ?L = "filter (\<lambda>f. sf_seq f \<le> n - 1) fs"
  have "filter (\<lambda>f. \<not> n \<le> sf_seq f) fs = ?L" by (rule filter_cong) auto
  moreover have "filter (\<lambda>f. \<not> n \<le> sf_seq f) fs @ filter (\<lambda>f. n \<le> sf_seq f) fs = fs"
    using assms(1) by (rule filter_split_sorted)
  ultimately have split: "fs = ?L @ P" by (simp add: P_def)
  have sP: "sorted_wrt (<) (map sf_seq P)"
    using assms(1) unfolding P_def by (simp add: sorted_wrt_map sorted_wrt_filter)
  have k: "k < length P" using assms(2) by (simp add: P_def)
  have ge: "n \<le> sf_seq (P ! k)" using nth_mem [OF k] by (simp add: P_def)
  have "P = take (Suc k) P @ drop (Suc k) P" by simp
  moreover have lo: "sf_seq f \<le> sf_seq (P ! k)" if f: "f \<in> set (take (Suc k) P)" for f
  proof -
    from f obtain i where i: "i < Suc k" "f = P ! i" by (auto simp: in_set_conv_nth)
    show ?thesis
      using sorted_wrt_nth_less [OF sP, of i k] i k by (cases "i = k") auto
  qed
  have hi: "sf_seq (P ! k) < sf_seq f" if f: "f \<in> set (drop (Suc k) P)" for f
  proof -
    from f obtain i where "i < length (drop (Suc k) P)" "f = drop (Suc k) P ! i"
      by (metis in_set_conv_nth)
    then have "Suc k + i < length P" "f = P ! (Suc k + i)" by auto
    then show ?thesis using sorted_wrt_nth_less [OF sP, of k "Suc k + i"] by simp
  qed
  have "filter (\<lambda>f. sf_seq f \<le> sf_seq (P ! k)) (take (Suc k) P) = take (Suc k) P"
    by (rule filter_True) (use lo in blast)
  moreover have "filter (\<lambda>f. sf_seq f \<le> sf_seq (P ! k)) (drop (Suc k) P) = []"
    using hi by (force simp: filter_empty_conv)
  ultimately have A: "filter (\<lambda>f. sf_seq f \<le> sf_seq (P ! k)) P = take (Suc k) P"
    by (metis append_Nil2 append_take_drop_id filter_append)
  have "filter (\<lambda>f. sf_seq (P ! k) + 1 \<le> sf_seq f) (take (Suc k) P) = []"
    using lo by (force simp: filter_empty_conv)
  moreover have "filter (\<lambda>f. sf_seq (P ! k) + 1 \<le> sf_seq f) (drop (Suc k) P) = drop (Suc k) P"
    by (rule filter_True) (use hi in force)
  ultimately have B: "filter (\<lambda>f. sf_seq (P ! k) + 1 \<le> sf_seq f) P = drop (Suc k) P"
    by (metis append_Nil append_take_drop_id filter_append)
  have "filter (\<lambda>f. sf_seq f \<le> sf_seq (P ! k)) (?L @ P) = ?L @ take (Suc k) P"
    unfolding filter_append A using ge by (auto intro!: filter_cong)
  with split show "filter (\<lambda>f. sf_seq f \<le> sf_seq (P ! k)) fs = ?L @ take (Suc k) P" by metis
  have "filter (\<lambda>f. sf_seq (P ! k) + 1 \<le> sf_seq f) (?L @ P) = drop (Suc k) P"
    unfolding filter_append B using ge by (auto simp: filter_empty_conv)
  with split show "filter (\<lambda>f. sf_seq (P ! k) + 1 \<le> sf_seq f) fs = drop (Suc k) P" by metis
qed

lemma channel_str_in: "channel_str c \<in> set CHANNELS"
  by (cases c) (simp_all add: CHANNELS_def)

definition unsent :: "outbox \<Rightarrow> channel_name \<Rightarrow> int \<Rightarrow> stored_frame list" where
  "unsent ob c nxt = filter (\<lambda>f. nxt \<le> sf_seq f) (pending ob (channel_str c))"

definition in_flight_bytes :: "outbox \<Rightarrow> channel_name \<Rightarrow> int \<Rightarrow> nat" where
  "in_flight_bytes ob c nxt = audio_bytes (filter (\<lambda>f. sf_seq f \<le> nxt - 1) (pending ob (channel_str c)))"

lemma audio_bytes_simps [simp]:
  "audio_bytes [] = 0" "audio_bytes (f # fs) = length (sf_pcm f) + audio_bytes fs"
  "audio_bytes (xs @ ys) = audio_bytes xs + audio_bytes ys"
  by (simp_all add: audio_bytes_def)

lemma in_flight_ms_eq:
  assumes "outbox_wf ob"
  shows "in_flight_ms ob c nxt = Inr (in_flight_bytes ob c nxt div BYTES_PER_MS)"
proof (cases "nxt = 0")
  case True
  have "filter (\<lambda>f. sf_seq f \<le> -1) (pending ob (channel_str c)) = []"
    using pending_facts(1) [OF assms(1) channel_str_in] by (force simp: filter_empty_conv)
  with True show ?thesis by (simp add: in_flight_ms_def in_flight_bytes_def)
next
  case False
  then show ?thesis
    by (simp add: in_flight_ms_def in_flight_bytes_def unacked_duration_eq [OF assms(1) channel_str_in])
qed

lemma send_channel_cases:
  assumes "outbox_wf ob" "send_channel cap ob c s = (err, s')"
  shows "\<exists>k \<le> SEND_BATCH. k \<le> length (unsent ob c (ss_next s c)) \<and>
     ss_sent s' = ss_sent s @ map (wire_frame c) (take k (unsent ob c (ss_next s c))) \<and>
     ss_next s' = (if k = 0 then ss_next s
       else (ss_next s)(c := sf_seq (unsent ob c (ss_next s c) ! (k - 1)) + 1)) \<and>
     ss_progressed s' = (ss_progressed s \<or> 0 < k) \<and>
     (\<forall>j < k. in_flight_bytes ob c (ss_next s c) div BYTES_PER_MS
         + sum_list (map duration_ms (take j (unsent ob c (ss_next s c)))) \<le> cap) \<and>
     (\<forall>f \<in> set (take k (unsent ob c (ss_next s c))). \<exists>d. encode_frame (CHANNEL_INDEX c) (sf_seq f) (sf_t_ms f) (sf_pcm f) = Inr d)"
proof -
  let ?U = "unsent ob c (ss_next s c)"
  have un: "unacked ob (channel_str c) (Some (ss_next s c)) (Some SEND_BATCH) = Inr (take SEND_BATCH ?U)"
    by (simp add: unacked_eq [OF assms(1) channel_str_in] unsent_def)
  show ?thesis
  proof (cases "in_flight_bytes ob c (ss_next s c) div BYTES_PER_MS > cap")
    case True
    with assms(2) have "s' = s" by (simp add: send_channel_def in_flight_ms_eq [OF assms(1)] Let_def)
    then show ?thesis by (intro exI [of _ 0]) simp
  next
    case False
    with assms(2) un have
      "send_frames cap c (in_flight_bytes ob c (ss_next s c) div BYTES_PER_MS) (take SEND_BATCH ?U) s = (err, s')"
      by (simp add: send_channel_def in_flight_ms_eq [OF assms(1)] Let_def)
    from send_frames_spec [OF this] obtain k where k: "k \<le> length (take SEND_BATCH ?U)"
      "ss_sent s' = ss_sent s @ map (wire_frame c) (take k (take SEND_BATCH ?U))"
      "ss_next s' = (if k = 0 then ss_next s
         else (ss_next s)(c := sf_seq (take SEND_BATCH ?U ! (k - 1)) + 1))"
      "ss_progressed s' = (ss_progressed s \<or> 0 < k)"
      "\<forall>j < k. in_flight_bytes ob c (ss_next s c) div BYTES_PER_MS
         + sum_list (map duration_ms (take j (take SEND_BATCH ?U))) \<le> cap"
      "\<forall>f \<in> set (take k (take SEND_BATCH ?U)). \<exists>d. encode_frame (CHANNEL_INDEX c) (sf_seq f) (sf_t_ms f) (sf_pcm f) = Inr d"
      by blast
    have "k \<le> SEND_BATCH" "k \<le> length ?U" "take k (take SEND_BATCH ?U) = take k ?U"
      using k(1) by (auto simp: min_absorb1)
    moreover have "0 < k \<Longrightarrow> take SEND_BATCH ?U ! (k - 1) = ?U ! (k - 1)"
      using calculation(1) by simp
    moreover have "j < k \<Longrightarrow> take j (take SEND_BATCH ?U) = take j ?U" for j
      using calculation(1) by (simp add: min_def)
    ultimately show ?thesis
      using k(2-6) by (intro exI [of _ k]) auto
  qed
qed

text \<open>
  What one round sends on a channel, whether or not the socket breaks in the middle: the
  next frames not sent yet, in order, without a gap or a repetition, at most \<open>SEND_BATCH\<close> of
  them, and the cursor then stands at the first frame still unsent.
\<close>

theorem send_channel_in_order:
  assumes "outbox_wf ob" "send_channel cap ob c s = (err, s')"
  shows "\<exists>k \<le> SEND_BATCH.
     ss_sent s' = ss_sent s @ map (wire_frame c) (take k (unsent ob c (ss_next s c))) \<and>
     unsent ob c (ss_next s' c) = drop k (unsent ob c (ss_next s c)) \<and>
     (\<forall>d. d \<noteq> c \<longrightarrow> ss_next s' d = ss_next s d)"
proof -
  let ?U = "unsent ob c (ss_next s c)"
  obtain k where k: "k \<le> SEND_BATCH" "k \<le> length ?U"
    "ss_sent s' = ss_sent s @ map (wire_frame c) (take k ?U)"
    "ss_next s' = (if k = 0 then ss_next s else (ss_next s)(c := sf_seq (?U ! (k - 1)) + 1))"
    using send_channel_cases [OF assms] by blast
  have "unsent ob c (ss_next s' c) = drop k ?U"
  proof (cases k)
    case (Suc j)
    with k(2) have "j < length ?U" by simp
    from filter_upto_sorted(2) [OF pending_sorted [OF assms(1) channel_str_in], of j "ss_next s c"] this
    show ?thesis using k(4) Suc by (simp add: unsent_def)
  qed (use k in simp)
  with k show ?thesis by (intro exI [of _ k]) auto
qed

lemma bytes_of_durations:
  "audio_bytes fs \<le> BYTES_PER_MS * sum_list (map duration_ms fs) + 31 * length fs"
proof (induction fs)
  case (Cons f fs)
  have "length (sf_pcm f) \<le> BYTES_PER_MS * duration_ms f + 31"
    by (simp add: duration_ms_def BYTES_PER_MS_def)
  with Cons show ?case by (simp add: algebra_simps)
qed simp

text \<open>
  Backpressure. After a round the audio sent on a channel and not acked exceeds neither what
  it was before the round nor the cap by more than one frame of the largest size (200 ms) and
  the rounding of one batch.
\<close>

theorem backpressure_bound:
  assumes "outbox_wf ob" "send_channel cap ob c s = (err, s')"
    "in_flight_ms ob c (ss_next s c) = Inr before" "in_flight_ms ob c (ss_next s' c) = Inr after"
  shows "after \<le> max before (cap + 200 + SEND_BATCH)"
proof -
  let ?U = "unsent ob c (ss_next s c)"
  let ?B = "in_flight_bytes ob c (ss_next s c)"
  obtain k where k: "k \<le> SEND_BATCH" "k \<le> length ?U"
    "ss_next s' = (if k = 0 then ss_next s else (ss_next s)(c := sf_seq (?U ! (k - 1)) + 1))"
    "\<forall>j < k. ?B div BYTES_PER_MS + sum_list (map duration_ms (take j ?U)) \<le> cap"
    using send_channel_cases [OF assms(1,2)] by blast
  have after: "after = in_flight_bytes ob c (ss_next s' c) div BYTES_PER_MS"
    and before: "before = ?B div BYTES_PER_MS"
    using assms(3,4) by (simp_all add: in_flight_ms_eq [OF assms(1)])
  show ?thesis
  proof (cases k)
    case 0
    with k(3) after before show ?thesis by simp
  next
    case (Suc j)
    with k(2) have j: "j < length ?U" by simp
    have "in_flight_bytes ob c (ss_next s' c) = ?B + audio_bytes (take (Suc j) ?U)"
      using filter_upto_sorted(1) [OF pending_sorted [OF assms(1) channel_str_in], of j "ss_next s c"] j k(3) Suc
      by (simp add: in_flight_bytes_def unsent_def)
    also have "take (Suc j) ?U = take j ?U @ [?U ! j]" using j by (simp add: take_Suc_conv_app_nth)
    finally have eq: "in_flight_bytes ob c (ss_next s' c) =
      ?B + audio_bytes (take j ?U) + length (sf_pcm (?U ! j))" by simp
    have "?U ! j \<in> set (pending ob (channel_str c))"
      using nth_mem [OF j] by (simp add: unsent_def)
    then have last: "length (sf_pcm (?U ! j)) \<le> 6400"
      using pending_facts(2) [OF assms(1) channel_str_in] by (simp add: payload_size_def protocol_consts)
    have "?B div BYTES_PER_MS + sum_list (map duration_ms (take j ?U)) \<le> cap"
      using k(4) Suc by simp
    moreover have "audio_bytes (take j ?U) \<le> 32 * sum_list (map duration_ms (take j ?U)) + 31 * j"
      using bytes_of_durations [of "take j ?U"] j by (simp add: BYTES_PER_MS_def min_def)
    moreover have "j < 16" using k(1) Suc by (simp add: SEND_BATCH_def)
    ultimately have "in_flight_bytes ob c (ss_next s' c) div 32 \<le> cap + 216"
      using eq last by (simp add: BYTES_PER_MS_def)
    then show ?thesis by (simp add: after BYTES_PER_MS_def SEND_BATCH_def)
  qed
qed

definition idle_send :: send_state where
  "idle_send = \<lparr>ss_budget = 5, ss_cancel = False, ss_sent = [], ss_next = (\<lambda>_. 0), ss_progressed = False\<rparr>"

lemma one_frame_unsent: "unsent one_frame_outbox Mic 0 = [sample_stored]"
  by (simp add: unsent_def one_frame_pending sample_stored_def)

lemma one_frame_send:
  "send_channel 5000 one_frame_outbox Mic idle_send =
     (None, idle_send\<lparr>ss_budget := 4, ss_sent := [wire_frame Mic sample_stored],
                      ss_next := (\<lambda>_. 0)(Mic := 1), ss_progressed := True\<rparr>)"
proof -
  have un: "unacked one_frame_outbox ''mic'' (Some 0) (Some SEND_BATCH) = Inr [sample_stored]"
    using unacked_eq [OF one_frame_wf mic_channel]
    by (simp add: one_frame_pending sample_stored_def SEND_BATCH_def)
  obtain d where d: "encode_frame 0 0 40 sample_pcm = Inr d"
    by (simp add: encode_frame_def sample_pcm_ok pack_header_def fits_def eval_simps)
  with un show ?thesis
    by (simp add: send_channel_def in_flight_ms_eq [OF one_frame_wf] Let_def idle_send_def put_wire_def
        in_flight_ms_def wire_frame_def sample_stored_def)
qed

theorem send_channel_in_order_witness:
  "\<exists>s'. send_channel 5000 one_frame_outbox Mic idle_send = (None, s') \<and>
     ss_sent s' = [wire_frame Mic sample_stored] \<and>
     (\<exists>k \<le> SEND_BATCH. unsent one_frame_outbox Mic (ss_next s' Mic) = drop k [sample_stored])"
proof -
  let ?s' = "idle_send\<lparr>ss_budget := 4, ss_sent := [wire_frame Mic sample_stored],
                      ss_next := (\<lambda>_. 0)(Mic := 1), ss_progressed := True\<rparr>"
  have "unsent one_frame_outbox Mic (ss_next idle_send Mic) = [sample_stored]"
    by (simp add: idle_send_def one_frame_unsent)
  with send_channel_in_order [OF one_frame_wf one_frame_send]
  have "\<exists>k \<le> SEND_BATCH. unsent one_frame_outbox Mic (ss_next ?s' Mic) = drop k [sample_stored]"
    by auto
  then show ?thesis by (intro exI [of _ ?s']) (simp add: one_frame_send)
qed

theorem backpressure_bound_witness:
  "\<exists>s' after. send_channel 5000 one_frame_outbox Mic idle_send = (None, s') \<and>
     in_flight_ms one_frame_outbox Mic (ss_next s' Mic) = Inr after \<and>
     after \<le> max 0 (5000 + 200 + SEND_BATCH)"
proof -
  let ?s' = "idle_send\<lparr>ss_budget := 4, ss_sent := [wire_frame Mic sample_stored],
                      ss_next := (\<lambda>_. 0)(Mic := 1), ss_progressed := True\<rparr>"
  have before: "in_flight_ms one_frame_outbox Mic (ss_next idle_send Mic) = Inr 0"
    by (simp add: in_flight_ms_def idle_send_def)
  obtain after where after: "in_flight_ms one_frame_outbox Mic (ss_next ?s' Mic) = Inr after"
    using in_flight_ms_eq [OF one_frame_wf] by blast
  from backpressure_bound [OF one_frame_wf one_frame_send before after] one_frame_send after
  show ?thesis by blast
qed

section \<open>Control messages and the end of a session\<close>

lemma drain_control_spec:
  "drain_control q s = (err, q', s') \<Longrightarrow>
     \<exists>k. ss_sent s' = ss_sent s @ map WText (take k q) \<and> (err = None \<longrightarrow> q' = []) \<and>
         (if err = Some SendCancelled then k < length q \<and> q' = drop (Suc k) q else q' = drop k q) \<and>
         ss_next s' = ss_next s"
proof (induction q s rule: drain_control.induct)
  case (2 m ms s)
  show ?case
  proof (cases "ss_budget s = 0")
    case True
    with 2 show ?thesis by (intro exI [of _ 0]) (auto simp: send_raises_def split: if_splits)
  next
    case False
    then have "drain_control ms (put_wire (WText m) s) = (err, q', s')" using "2.prems" by simp
    from "2.IH" [OF False this] obtain k where "if err = Some SendCancelled then k < length ms \<and> q' = drop (Suc k) ms else q' = drop k ms"
      "err = None \<longrightarrow> q' = []" "ss_sent s' = ss_sent (put_wire (WText m) s) @ map WText (take k ms)"
      "ss_next s' = ss_next (put_wire (WText m) s)" by blast
    then show ?thesis by (intro exI [of _ "Suc k"]) (auto simp: put_wire_def split: if_splits)
  qed
qed auto

text \<open>
  No control message is lost or sent twice on a connection that breaks: what a round put on
  the wire followed by what it left in the queue is the queue as it was. The exception is a
  sender cancelled inside a send: the one message it was sending is gone from the queue.
\<close>

theorem control_not_lost:
  assumes "drain_control q s = (err, q', s')"
  shows "\<exists>sent. ss_sent s' = ss_sent s @ map WText sent \<and> (err = None \<longrightarrow> q' = []) \<and>
     (if err = Some SendCancelled then \<exists>m. sent @ m # q' = q else sent @ q' = q)"
proof -
  from drain_control_spec [OF assms] obtain k where k: "ss_sent s' = ss_sent s @ map WText (take k q)"
    "err = None \<longrightarrow> q' = []"
    "if err = Some SendCancelled then k < length q \<and> q' = drop (Suc k) q else q' = drop k q" by blast
  have "\<exists>m. take k q @ m # q' = q" if "err = Some SendCancelled"
    by (rule exI [of _ "q ! k"]) (use k(3) that id_take_nth_drop [of k q] in simp)
  with k show ?thesis by (intro exI [of _ "take k q"]) (auto split: if_splits)
qed

theorem control_not_lost_witness:
  "\<exists>q' s' sent. drain_control [AskBegin ''a'' 5, AskEnd ''a'' 9] (idle_send\<lparr>ss_budget := 1\<rparr>) = (Some SocketLost, q', s') \<and>
     ss_sent s' = map WText sent \<and> sent @ q' = [AskBegin ''a'' 5, AskEnd ''a'' 9]"
proof -
  let ?s' = "put_wire (WText (AskBegin ''a'' 5)) (idle_send\<lparr>ss_budget := 1\<rparr>)"
  have d: "drain_control [AskBegin ''a'' 5, AskEnd ''a'' 9] (idle_send\<lparr>ss_budget := 1\<rparr>)
    = (Some SocketLost, [AskEnd ''a'' 9], ?s')" by (simp add: put_wire_def send_raises_def idle_send_def)
  from control_not_lost [OF d] d show ?thesis by (auto simp: idle_send_def)
qed



definition ending_conn :: conn where
  "ending_conn = new_conn\<lparr>cn_state := CConnected, cn_end_requested := True\<rparr>"



text \<open>
  \<open>end\<close> can report a clean end with audio still unacked. Once \<open>end\<close> has been sent, a
  server that closes the socket normally, for instance after rejecting the connection with an
  error, makes the receive loop return instead of raise, so the connection counts as ended.
\<close>

theorem clean_end_with_unacked_audio:
  assumes "unacked ob ''mic'' None None = Inr (f # fs)" "cn_end_sent cn" "cn_failures cn = 0"
  shows "receive_loop ob (cn_end_sent cn) [] [EvError code message] = (Inr (), ob, [EvError code message]) \<and>
     converse_result Returned Running = AttemptOk \<and>
     (\<exists>cn'. run_after p r AttemptOk cn = (cn', Return) \<and> end_result False cn' = (cn', True)) \<and>
     unacked ob ''mic'' None None \<noteq> Inr []"
  using assms by (simp add: converse_result_def run_after_def end_result_def set_state_def)

theorem clean_end_with_unacked_audio_witness:
  "\<exists>cn'. run_after default_policy 0 AttemptOk (ending_conn\<lparr>cn_end_sent := True\<rparr>) = (cn', Return) \<and>
     end_result False cn' = (cn', True) \<and> unacked one_frame_outbox ''mic'' None None \<noteq> Inr []"
proof -
  have "unacked one_frame_outbox ''mic'' None None = Inr [sample_stored]"
    by (simp add: unacked_eq [OF one_frame_wf mic_channel] one_frame_pending)
  from clean_end_with_unacked_audio [OF this, of "ending_conn\<lparr>cn_end_sent := True\<rparr>"]
  show ?thesis by (simp add: ending_conn_def new_conn_def)
qed

end
