(* ===== verification/Capture.thy ===== *)
theory Capture
  imports Transport
begin

text \<open>
  The recorder side of the client (\<open>server/src/jarvis_live/client/capture.py\<close>): cutting the
  recorder's byte stream into frames, storing them in the outbox with times derived from the
  audio emitted, and restarting a recorder that dies. What the recorder process writes and how
  long it ran are parameters; clock values are in milliseconds.
\<close>

section \<open>Frame cutter\<close>

definition FRAME_MS :: nat where "FRAME_MS = 100"
definition HEALTHY_MS :: nat where "HEALTHY_MS = 1000"

record cutter =
  ct_size :: nat
  ct_buf :: bytes

definition new_cutter :: "nat \<Rightarrow> cutter" where
  "new_cutter frame_ms = \<lparr>ct_size = frame_ms * BYTES_PER_MS, ct_buf = []\<rparr>"

text \<open>The list comprehension of \<open>feed\<close>: the first \<open>n\<close> slices of the buffer.\<close>

definition slices :: "nat \<Rightarrow> nat \<Rightarrow> bytes \<Rightarrow> bytes list" where
  "slices size1 n buf = map (\<lambda>i. take size1 (drop (i * size1) buf)) [0..<n]"

definition cutter_feed :: "cutter \<Rightarrow> bytes \<Rightarrow> bytes list \<times> cutter" where
  "cutter_feed ct data =
     (let buf = ct_buf ct @ data; n = length buf div ct_size ct
      in (slices (ct_size ct) n buf, ct\<lparr>ct_buf := drop (n * ct_size ct) buf\<rparr>))"

definition ljust :: "nat \<Rightarrow> bytes \<Rightarrow> bytes" where
  "ljust n b = b @ replicate (n - length b) 0"

definition cutter_flush :: "cutter \<Rightarrow> bytes option \<times> cutter" where
  "cutter_flush ct =
     (if ct_buf ct = [] then (None, ct)
      else (Some (ljust MIN_PAYLOAD (ct_buf ct)), ct\<lparr>ct_buf := []\<rparr>))"

section \<open>Restart policy\<close>

record restart_policy =
  rs_initial_delay :: real
  rs_max_delay :: real
  rs_max_rapid :: nat

definition restart_delay :: "restart_policy \<Rightarrow> nat \<Rightarrow> real" where
  "restart_delay p attempt = min (rs_max_delay p) (rs_initial_delay p * 2 ^ min attempt 30)"

section \<open>The capturer\<close>

record capturer =
  cp_channel :: string
  cp_frame_ms :: nat
  cp_start_ms :: int
  cp_restarts :: nat
  cp_position_ms :: int
  cp_last_frame_at :: "int option"     \<comment> \<open>milliseconds of the monotonic clock\<close>

text \<open>\<open>now_ms\<close>: at most one frame past the newest one.\<close>

definition now_ms :: "capturer \<Rightarrow> int \<Rightarrow> int" where
  "now_ms cp clock_ms =
     (case cp_last_frame_at cp of
        None \<Rightarrow> cp_position_ms cp
      | Some stamp \<Rightarrow> cp_position_ms cp + min (max (clock_ms - stamp) 0) (int (cp_frame_ms cp)))"

datatype capture_error = CaptureOutbox outbox_error | OutboxFull | CannotStart | KeepsFailing

text \<open>
  \<open>_store\<close>, with the daemon's \<open>on_frame\<close> callback (\<open>limit\<close>: stop when the outbox holds
  more unacked bytes). Returns the duration stored.
\<close>

definition store_frame ::
  "int option \<Rightarrow> int \<Rightarrow> outbox \<Rightarrow> capturer \<Rightarrow> bytes \<Rightarrow> int \<Rightarrow> capture_error option \<times> outbox \<times> capturer \<times> nat" where
  "store_frame limit clock_ms ob cp pcm t_ms =
     (case outbox_append ob (cp_channel cp) pcm t_ms of
        Inl e \<Rightarrow> (Some (CaptureOutbox e), ob, cp, 0)
      | Inr (f, ob') \<Rightarrow>
          let cp' = cp\<lparr>cp_last_frame_at := Some clock_ms, cp_position_ms := sf_t_ms f + int (duration_ms f)\<rparr>
          in if limit \<noteq> None \<and> unacked_bytes ob' > the limit then (Some OutboxFull, ob', cp', duration_ms f)
             else (None, ob', cp', duration_ms f))"

text \<open>The frames of one recorder process, each timed by what was produced before it.\<close>

fun store_frames ::
  "int option \<Rightarrow> int \<Rightarrow> int \<Rightarrow> nat \<Rightarrow> outbox \<Rightarrow> capturer \<Rightarrow> bytes list
     \<Rightarrow> capture_error option \<times> outbox \<times> capturer \<times> nat" where
  "store_frames limit clock_ms base_ms produced ob cp [] = (None, ob, cp, produced)"
| "store_frames limit clock_ms base_ms produced ob cp (pcm # rest) =
     (case store_frame limit clock_ms ob cp pcm (base_ms + int produced) of
        (Some e, ob', cp', d) \<Rightarrow> (Some e, ob', cp', produced)
      | (None, ob', cp', d) \<Rightarrow> store_frames limit clock_ms base_ms (produced + d) ob' cp' rest)"

text \<open>
  \<open>_run_process\<close>: every read is cut and stored, then the tail. \<open>reads\<close> is what the recorder
  wrote, read by read.
\<close>

fun cut_reads :: "cutter \<Rightarrow> bytes list \<Rightarrow> bytes list \<times> cutter" where
  "cut_reads ct [] = ([], ct)"
| "cut_reads ct (d # ds) =
     (let (fs, ct1) = cutter_feed ct d; (gs, ct2) = cut_reads ct1 ds in (fs @ gs, ct2))"

definition run_process ::
  "int option \<Rightarrow> int \<Rightarrow> outbox \<Rightarrow> capturer \<Rightarrow> int \<Rightarrow> bytes list
     \<Rightarrow> capture_error option \<times> outbox \<times> capturer \<times> nat" where
  "run_process limit clock_ms ob cp base_ms reads =
     (let (fs, ct) = cut_reads (new_cutter (cp_frame_ms cp)) reads;
          tail = (case fst (cutter_flush ct) of None \<Rightarrow> [] | Some t \<Rightarrow> [t])
      in store_frames limit clock_ms base_ms 0 ob cp (fs @ tail))"

text \<open>
  The loop of \<open>run\<close> around one process: where its audio starts (\<open>process_base\<close>), and what
  follows it (\<open>after_process\<close>): give up after \<open>max_rapid\<close> quick failures in a row, else sleep
  and restart.
\<close>

record run_state =
  rn_timeline_end :: int
  rn_rapid :: nat
  rn_first :: bool
  rn_restarts :: nat

definition run_init :: "capturer \<Rightarrow> run_state" where
  "run_init cp = \<lparr>rn_timeline_end = cp_start_ms cp, rn_rapid = 0, rn_first = True, rn_restarts = 0\<rparr>"

definition process_base :: "capturer \<Rightarrow> run_state \<Rightarrow> int \<Rightarrow> int" where
  "process_base cp rn wall_ms =
     (if rn_first rn then cp_start_ms cp else max (rn_timeline_end rn) wall_ms)"

datatype run_next = GiveUp | Restart real

definition after_process ::
  "restart_policy \<Rightarrow> run_state \<Rightarrow> int \<Rightarrow> nat \<Rightarrow> int \<Rightarrow> run_state \<times> run_next" where
  "after_process p rn base_ms produced_ms elapsed_ms =
     (let quick = (produced_ms < HEALTHY_MS \<and> elapsed_ms < 5000);
          rapid = (if quick then Suc (rn_rapid rn) else 0);
          rn1 = rn\<lparr>rn_timeline_end := max (rn_timeline_end rn) (base_ms + int produced_ms),
                   rn_rapid := rapid, rn_first := False\<rparr>
      in if rapid \<ge> rs_max_rapid p then (rn1, GiveUp)
         else (rn1\<lparr>rn_restarts := Suc (rn_restarts rn)\<rparr>, Restart (restart_delay p (rapid - 1))))"

section \<open>Cutting\<close>

lemma concat_slices: "n * k \<le> length buf \<Longrightarrow> concat (slices k n buf) = take (n * k) buf"
proof (induction n)
  case (Suc n)
  then have "concat (slices k (Suc n) buf) = take (n * k) buf @ take k (drop (n * k) buf)"
    by (simp add: slices_def)
  also have "\<dots> = take (n * k + k) buf" by (simp add: take_add)
  finally show ?case by (simp add: add.commute)
qed (simp add: slices_def)

lemma length_slices:
  "n * k \<le> length buf \<Longrightarrow> x \<in> set (slices k n buf) \<Longrightarrow> length x = k"
proof -
  assume le: "n * k \<le> length buf" and "x \<in> set (slices k n buf)"
  then obtain i where i: "i < n" "x = take k (drop (i * k) buf)" by (auto simp: slices_def)
  have "i * k + k \<le> n * k" using i(1) by (metis Suc_leI add.commute mult_Suc mult_le_mono1)
  with le i(2) show ?thesis by simp
qed

lemma cutter_feed_spec:
  assumes "0 < ct_size ct" "cutter_feed ct data = (fs, ct')"
  shows "concat fs @ ct_buf ct' = ct_buf ct @ data" "\<forall>f \<in> set fs. length f = ct_size ct"
    "length (ct_buf ct') < ct_size ct" "ct_size ct' = ct_size ct"
proof -
  let ?buf = "ct_buf ct @ data" and ?k = "ct_size ct"
  let ?n = "length ?buf div ?k"
  have le: "?n * ?k \<le> length ?buf" by simp
  have fs: "fs = slices ?k ?n ?buf" and ct': "ct' = ct\<lparr>ct_buf := drop (?n * ?k) ?buf\<rparr>"
    using assms(2) by (auto simp: cutter_feed_def Let_def)
  have "concat fs @ ct_buf ct' = take (?n * ?k) ?buf @ drop (?n * ?k) ?buf"
    unfolding fs concat_slices [OF le] by (simp add: ct')
  also have "\<dots> = ?buf" by (rule append_take_drop_id)
  finally show "concat fs @ ct_buf ct' = ct_buf ct @ data" .
  show "\<forall>f \<in> set fs. length f = ct_size ct" unfolding fs using length_slices [OF le] by blast
  have "length (ct_buf ct') = length ?buf - ?n * ?k" by (simp add: ct' del: length_append drop_append)
  then show "length (ct_buf ct') < ct_size ct"
    using assms(1) mod_less_divisor [of ?k "length ?buf"] by (simp only: minus_div_mult_eq_mod)
  show "ct_size ct' = ct_size ct" by (simp add: ct')
qed

lemma cut_reads_spec:
  assumes "0 < ct_size ct" "length (ct_buf ct) < ct_size ct" "cut_reads ct reads = (fs, ct')"
  shows "concat fs @ ct_buf ct' = ct_buf ct @ concat reads \<and> (\<forall>f \<in> set fs. length f = ct_size ct) \<and>
    length (ct_buf ct') < ct_size ct \<and> ct_size ct' = ct_size ct"
  using assms
proof (induction reads arbitrary: ct fs ct')
  case (Cons d ds)
  obtain fs1 ct1 where 1: "cutter_feed ct d = (fs1, ct1)" by fastforce
  obtain fs2 ct2 where 2: "cut_reads ct1 ds = (fs2, ct2)" by fastforce
  note s1 = cutter_feed_spec [OF Cons.prems(1) 1]
  have "concat fs2 @ ct_buf ct2 = ct_buf ct1 @ concat ds \<and> (\<forall>f \<in> set fs2. length f = ct_size ct1) \<and>
    length (ct_buf ct2) < ct_size ct1 \<and> ct_size ct2 = ct_size ct1"
    using Cons.IH [of ct1 fs2 ct2] s1 Cons.prems(1) 2 by simp
  moreover have "fs = fs1 @ fs2" "ct' = ct2" using Cons.prems(3) 1 2 by auto
  moreover have "concat fs1 @ ct_buf ct1 @ concat ds = ct_buf ct @ d @ concat ds"
    using s1(1) by (metis append_assoc)
  ultimately show ?case using s1 by auto
qed auto

text \<open>A list of blocks of one size and a shorter rest are determined by their concatenation.\<close>

lemma blocks_unique:
  assumes "\<forall>x \<in> set xs. length x = k" "\<forall>y \<in> set ys. length y = k" "length r < k" "length q < k"
    "concat xs @ r = concat ys @ q"
  shows "xs = ys \<and> r = q"
  using assms
proof (induction xs arbitrary: ys)
  case Nil
  then show ?case by (cases ys) auto
next
  case (Cons x xs)
  show ?case
  proof (cases ys)
    case Nil
    with Cons.prems show ?thesis by (metis append_Nil concat.simps length_append list.set_intros(1) not_add_less1 append_assoc)
  next
    case (Cons y zs)
    with Cons.prems have "x = y" "concat xs @ r = concat zs @ q" by auto
    with Cons.IH [of zs] Cons.prems \<open>ys = y # zs\<close> show ?thesis by auto
  qed
qed

text \<open>
  C36: however the recorder's output is split into reads, the frames cut from it are the same:
  every frame has the full size, nothing is lost or reordered, and less than a frame stays in
  the buffer.
\<close>

theorem cut_reads_chunking:
  assumes "0 < frame_ms" "concat reads = concat reads'"
  shows "cut_reads (new_cutter frame_ms) reads = cut_reads (new_cutter frame_ms) reads' \<and>
     concat (fst (cut_reads (new_cutter frame_ms) reads)) @ ct_buf (snd (cut_reads (new_cutter frame_ms) reads))
       = concat reads \<and>
     (\<forall>f \<in> set (fst (cut_reads (new_cutter frame_ms) reads)). length f = frame_ms * BYTES_PER_MS)"
proof -
  let ?ct = "new_cutter frame_ms"
  have pos: "0 < ct_size ?ct" "length (ct_buf ?ct) < ct_size ?ct"
    using assms(1) by (simp_all add: new_cutter_def BYTES_PER_MS_def)
  obtain fs ct where 1: "cut_reads ?ct reads = (fs, ct)" by fastforce
  obtain fs' ct' where 2: "cut_reads ?ct reads' = (fs', ct')" by fastforce
  note s1 = cut_reads_spec [OF pos 1] and s2 = cut_reads_spec [OF pos 2]
  have "fs = fs' \<and> ct_buf ct = ct_buf ct'"
    by (rule blocks_unique [of _ "ct_size ?ct"]) (use s1 s2 assms(2) in auto)
  moreover have "ct = ct'" using s1 s2 calculation by (cases ct; cases ct') simp
  ultimately show ?thesis using 1 2 s1 by (simp add: new_cutter_def)
qed

theorem cut_reads_chunking_witness:
  "cut_reads (new_cutter 1) [replicate 20 1, replicate 50 2] =
   cut_reads (new_cutter 1) [replicate 20 1 @ replicate 50 2, []]"
  using cut_reads_chunking [of 1 "[replicate 20 1, replicate 50 2]" "[replicate 20 1 @ replicate 50 2, []]"]
  by simp

section \<open>The tail\<close>

text \<open>
  A recorder that dies inside a sample stalls the stream for good. The tail of an odd number
  of bytes (at least the protocol minimum) is stored by the outbox, but no send round gets past
  it: the encoder rejects it, the round raises, the connection is retried, and the next
  connection starts at the same frame.
\<close>

theorem odd_tail_never_sent:
  assumes "outbox_wf ob" "pending ob ''mic'' = []" "odd (length (ct_buf ct))"
    "MIN_PAYLOAD \<le> length (ct_buf ct)" "length (ct_buf ct) \<le> MAX_PAYLOAD"
  shows "\<exists>tail f ob'. fst (cutter_flush ct) = Some tail \<and>
     outbox_append ob ''mic'' tail t = Inr (f, ob') \<and> outbox_wf ob' \<and> pending ob' ''mic'' = [f] \<and>
     (\<forall>s. ss_next s Mic = sf_seq f \<longrightarrow> send_channel cap ob' Mic s = (Some (EncodeError OddPayload), s)) \<and>
     (\<forall>cn r. snd (run_after default_policy r AttemptTransient cn) \<noteq> Return)"
proof -
  have ne: "ct_buf ct \<noteq> []" using assms(4) by (auto simp: protocol_consts)
  have tail: "ljust MIN_PAYLOAD (ct_buf ct) = ct_buf ct" using assms(4) by (simp add: ljust_def)
  obtain f ob' where ap: "outbox_append ob ''mic'' (ct_buf ct) t = Inr (f, ob')"
    using append_eq [OF assms(1) mic_channel assms(4,5), of t] by blast
  note w = append_wf [OF assms(1) ap]
  have send: "send_channel cap ob' Mic s = (Some (EncodeError OddPayload), s)"
    if nxt: "ss_next s Mic = sf_seq f" for s
  proof -
    have "unsent ob' Mic (sf_seq f) = [f]" using w(4) assms(2) by (simp add: unsent_def)
    then have un: "unacked ob' ''mic'' (Some (sf_seq f)) (Some SEND_BATCH) = Inr [f]"
      using unacked_eq [OF w(2) mic_channel] by (simp add: unsent_def SEND_BATCH_def)
    have "in_flight_bytes ob' Mic (sf_seq f) = 0"
      using w(4) assms(2) by (simp add: in_flight_bytes_def)
    then have fl: "in_flight_ms ob' Mic (sf_seq f) = Inr 0"
      by (simp add: in_flight_ms_eq [OF w(2)])
    have "encode_frame 0 (sf_seq f) (sf_t_ms f) (sf_pcm f) = Inl OddPayload"
      using w(3) assms(3) by (simp add: encode_frame_def check_payload_def CHANNEL_MIC_def odd_iff_mod_2_eq_one)
    with un fl nxt show ?thesis by (simp add: send_channel_def)
  qed
  show ?thesis
    using ne tail ap w(2,4) assms(2) send
    by (intro exI [of _ "ct_buf ct"] exI [of _ f] exI [of _ ob'])
      (simp add: cutter_flush_def run_after_def)
qed

theorem odd_tail_never_sent_witness:
  "\<exists>f ob'. outbox_append fresh_outbox ''mic'' (replicate 641 1) 0 = Inr (f, ob') \<and>
     (\<forall>s. ss_next s Mic = sf_seq f \<longrightarrow> send_channel 5000 ob' Mic s = (Some (EncodeError OddPayload), s))"
proof -
  let ?ct = "\<lparr>ct_size = 3200, ct_buf = replicate 641 1\<rparr>"
  have sz: "odd (length (ct_buf ?ct))" "MIN_PAYLOAD \<le> length (ct_buf ?ct)" "length (ct_buf ?ct) \<le> MAX_PAYLOAD"
    by (simp_all add: protocol_consts)
  from odd_tail_never_sent [OF fresh_outbox_wf fresh_pending(1) sz, of 0 5000]
  obtain tail f ob' where t: "fst (cutter_flush ?ct) = Some tail"
    and r: "outbox_append fresh_outbox ''mic'' tail 0 = Inr (f, ob')"
      "\<forall>s. ss_next s Mic = sf_seq f \<longrightarrow> send_channel 5000 ob' Mic s = (Some (EncodeError OddPayload), s)"
    by blast
  have "tail = replicate 641 1"
    using t by (simp add: cutter_flush_def ljust_def MIN_PAYLOAD_def BYTES_PER_MS_def)
  with r show ?thesis by blast
qed

section \<open>One recorder process\<close>

text \<open>Frames that start at \<open>t\<close> and follow each other without a gap on the frames' clock.\<close>

fun contiguous_from :: "int \<Rightarrow> stored_frame list \<Rightarrow> bool" where
  "contiguous_from t [] = True"
| "contiguous_from t (f # fs) = (sf_t_ms f = t \<and> contiguous_from (t + int (duration_ms f)) fs)"

lemma store_frames_spec:
  assumes "outbox_wf ob" "cp_channel cp = c" "c \<in> set CHANNELS"
    "\<forall>p \<in> set ps. MIN_PAYLOAD \<le> length p \<and> length p \<le> MAX_PAYLOAD"
  shows "\<exists>ob' cp' fs. store_frames None clock base produced ob cp ps =
       (None, ob', cp', produced + sum_list (map duration_ms fs)) \<and>
     outbox_wf ob' \<and> pending ob' c = pending ob c @ fs \<and> map sf_pcm fs = ps \<and>
     map sf_seq fs = map (\<lambda>i. next_of ob c + int i) [0..<length fs] \<and>
     contiguous_from (base + int produced) fs"
  using assms
proof (induction ps arbitrary: ob cp produced)
  case Nil
  then show ?case by (intro exI [of _ ob] exI [of _ cp] exI [of _ "[]"]) simp
next
  case (Cons p ps)
  have sz: "MIN_PAYLOAD \<le> length p" "length p \<le> MAX_PAYLOAD" using Cons.prems(4) by auto
  obtain f ob1 where ap: "outbox_append ob c p (base + int produced) = Inr (f, ob1)"
    using append_eq [OF Cons.prems(1,3) sz] by blast
  note w = append_wf [OF Cons.prems(1) ap]
  obtain cp1 where cp1: "store_frame None clock ob cp p (base + int produced) = (None, ob1, cp1, duration_ms f)"
    "cp_channel cp1 = c"
    using ap Cons.prems(2) by (simp add: store_frame_def Let_def)
  obtain ob' cp' fs where r:
    "store_frames None clock base (produced + duration_ms f) ob1 cp1 ps =
       (None, ob', cp', produced + duration_ms f + sum_list (map duration_ms fs))"
    "outbox_wf ob'" "pending ob' c = pending ob1 c @ fs" "map sf_pcm fs = ps"
    "map sf_seq fs = map (\<lambda>i. next_of ob1 c + int i) [0..<length fs]"
    "contiguous_from (base + int (produced + duration_ms f)) fs"
    using Cons.IH [OF w(2) cp1(2) Cons.prems(3), of "produced + duration_ms f"] Cons.prems(4) by auto
  have seqs: "map sf_seq (f # fs) = map (\<lambda>i. next_of ob c + int i) [0..<length (f # fs)]"
    using r(5) w(3,5) by (simp add: upt_conv_Cons map_Suc_upt [symmetric] del: upt_Suc)
  show ?case
    using r w(3,4) cp1 seqs
    by (intro exI [of _ ob'] exI [of _ cp'] exI [of _ "f # fs"]) (simp add: add.assoc add.commute del: upt_Suc)
qed

lemma cutter_sizes:
  assumes "cut_reads (new_cutter frame_ms) reads = (fs, ct)" "0 < frame_ms"
    "MIN_PAYLOAD \<le> frame_ms * BYTES_PER_MS" "frame_ms * BYTES_PER_MS \<le> MAX_PAYLOAD"
    "tail = (case fst (cutter_flush ct) of None \<Rightarrow> [] | Some t \<Rightarrow> [t])"
  shows "\<forall>p \<in> set (fs @ tail). MIN_PAYLOAD \<le> length p \<and> length p \<le> MAX_PAYLOAD"
    and "\<exists>k < MIN_PAYLOAD. concat (fs @ tail) = concat reads @ replicate k 0"
proof -
  have pos: "0 < ct_size (new_cutter frame_ms)" "length (ct_buf (new_cutter frame_ms)) < ct_size (new_cutter frame_ms)"
    using assms(2) by (simp_all add: new_cutter_def BYTES_PER_MS_def)
  from cut_reads_spec [OF pos assms(1)]
  have s: "concat fs @ ct_buf ct = concat reads" "\<forall>f \<in> set fs. length f = frame_ms * BYTES_PER_MS"
    "length (ct_buf ct) < frame_ms * BYTES_PER_MS"
    by (simp_all add: new_cutter_def)
  show "\<forall>p \<in> set (fs @ tail). MIN_PAYLOAD \<le> length p \<and> length p \<le> MAX_PAYLOAD"
    using s(2,3) assms(3-5) by (auto simp: cutter_flush_def ljust_def)
  have mp: "0 < MIN_PAYLOAD" by (simp add: protocol_consts)
  show "\<exists>k < MIN_PAYLOAD. concat (fs @ tail) = concat reads @ replicate k 0"
  proof (cases "ct_buf ct = []")
    case True
    then show ?thesis using s(1) assms(5) mp by (intro exI [of _ 0]) (simp add: cutter_flush_def)
  next
    case False
    then have "concat (fs @ tail) = (concat fs @ ct_buf ct) @ replicate (MIN_PAYLOAD - length (ct_buf ct)) 0"
      using assms(5) by (simp add: cutter_flush_def ljust_def)
    moreover have "MIN_PAYLOAD - length (ct_buf ct) < MIN_PAYLOAD" using False mp by simp
    ultimately show ?thesis unfolding s(1) by blast
  qed
qed

text \<open>
  Everything one recorder process writes ends up in the outbox: the frames stored for it
  are the next sequence numbers in order, carry its bytes unchanged (the last one zero-padded to
  the protocol minimum) and follow each other without a gap on the frames' clock, starting at
  the process's base.
\<close>

theorem run_process_stores_everything:
  assumes "outbox_wf ob" "cp_channel cp \<in> set CHANNELS" "0 < cp_frame_ms cp"
    "MIN_PAYLOAD \<le> cp_frame_ms cp * BYTES_PER_MS" "cp_frame_ms cp * BYTES_PER_MS \<le> MAX_PAYLOAD"
  shows "\<exists>ob' cp' fs k. run_process None clock ob cp base reads =
       (None, ob', cp', sum_list (map duration_ms fs)) \<and> outbox_wf ob' \<and>
     pending ob' (cp_channel cp) = pending ob (cp_channel cp) @ fs \<and>
     concat (map sf_pcm fs) = concat reads @ replicate k 0 \<and> k < MIN_PAYLOAD \<and>
     map sf_seq fs = map (\<lambda>i. next_of ob (cp_channel cp) + int i) [0..<length fs] \<and>
     contiguous_from base fs"
proof -
  obtain fs ct where cut: "cut_reads (new_cutter (cp_frame_ms cp)) reads = (fs, ct)" by fastforce
  define tail where "tail = (case fst (cutter_flush ct) of None \<Rightarrow> [] | Some t \<Rightarrow> [t])"
  note sz = cutter_sizes [OF cut assms(3-5) tail_def]
  from sz(2) obtain k where k: "k < MIN_PAYLOAD" "concat (fs @ tail) = concat reads @ replicate k 0" by blast
  have run: "run_process None clock ob cp base reads = store_frames None clock base 0 ob cp (fs @ tail)"
    by (simp add: run_process_def cut tail_def)
  from store_frames_spec [OF assms(1) refl assms(2) sz(1), of clock base 0] obtain ob' cp' gs where
    "store_frames None clock base 0 ob cp (fs @ tail) = (None, ob', cp', 0 + sum_list (map duration_ms gs))"
    "outbox_wf ob'" "pending ob' (cp_channel cp) = pending ob (cp_channel cp) @ gs" "map sf_pcm gs = fs @ tail"
    "map sf_seq gs = map (\<lambda>i. next_of ob (cp_channel cp) + int i) [0..<length gs]"
    "contiguous_from (base + int 0) gs" by blast
  then show ?thesis using k by (intro exI [of _ ob'] exI [of _ cp'] exI [of _ gs] exI [of _ k]) (simp add: run)
qed

definition mic_capturer :: capturer where
  "mic_capturer = \<lparr>cp_channel = ''mic'', cp_frame_ms = FRAME_MS, cp_start_ms = 0, cp_restarts = 0,
     cp_position_ms = 0, cp_last_frame_at = None\<rparr>"

theorem run_process_stores_everything_witness:
  "\<exists>ob' cp' fs k. run_process None 7 fresh_outbox mic_capturer 500 [replicate 100 1, replicate 5000 2] =
       (None, ob', cp', sum_list (map duration_ms fs)) \<and>
     concat (map sf_pcm fs) = replicate 100 1 @ replicate 5000 2 @ replicate k 0"
  using run_process_stores_everything [of fresh_outbox mic_capturer 7 500 "[replicate 100 1, replicate 5000 2]"]
    fresh_outbox_wf mic_channel
  by (auto simp: mic_capturer_def FRAME_MS_def protocol_consts)

section \<open>Restarts\<close>

text \<open>
  The loop of \<open>run\<close> over a list of processes, each given by what it produced, how long it ran
  and the wall clock at its start: the base of each process that was started, and whether the
  loop gave up.
\<close>

fun run_processes :: "restart_policy \<Rightarrow> capturer \<Rightarrow> run_state \<Rightarrow> (nat \<times> int \<times> int) list \<Rightarrow> (int \<times> nat) list \<times> bool" where
  "run_processes p cp rn [] = ([], False)"
| "run_processes p cp rn ((produced, elapsed, wall) # ps) =
     (let base = process_base cp rn wall in
      case after_process p rn base produced elapsed of
        (rn', GiveUp) \<Rightarrow> ([(base, produced)], True)
      | (rn', Restart d) \<Rightarrow> (let (bs, g) = run_processes p cp rn' ps in ((base, produced) # bs, g)))"

definition quick :: "nat \<times> int \<times> int \<Rightarrow> bool" where
  "quick q = (fst q < HEALTHY_MS \<and> fst (snd q) < 5000)"

lemma run_processes_ordered:
  assumes "rn_first rn \<longrightarrow> rn_timeline_end rn = cp_start_ms cp" "run_processes p cp rn ps = (bs, g)"
  shows "(\<forall>b \<in> set bs. rn_timeline_end rn \<le> fst b) \<and> sorted_wrt (\<lambda>a b. fst a + int (snd a) \<le> fst b) bs"
  using assms
proof (induction ps arbitrary: rn bs)
  case (Cons q ps)
  obtain produced elapsed wall where q: "q = (produced, elapsed, wall)" by (cases q)
  let ?base = "process_base cp rn wall"
  have base: "rn_timeline_end rn \<le> ?base" using Cons.prems(1) by (simp add: process_base_def)
  obtain rn' nx where ap: "after_process p rn ?base produced elapsed = (rn', nx)" by fastforce
  have rn': "rn_timeline_end rn' = max (rn_timeline_end rn) (?base + int produced)" "\<not> rn_first rn'"
    using ap by (auto simp: after_process_def Let_def split: if_splits)
  show ?case
  proof (cases nx)
    case GiveUp
    then show ?thesis using Cons.prems(2) ap base by (auto simp: q Let_def)
  next
    case (Restart d)
    obtain bs' where r: "run_processes p cp rn' ps = (bs', g)" "bs = (?base, produced) # bs'"
      using Cons.prems(2) ap Restart by (auto simp: q Let_def split: prod.splits)
    have "(\<forall>b \<in> set bs'. rn_timeline_end rn' \<le> fst b) \<and> sorted_wrt (\<lambda>a b. fst a + int (snd a) \<le> fst b) bs'"
      using Cons.IH [OF _ r(1)] rn'(2) by simp
    then show ?thesis using r(2) rn'(1) base by (auto simp: max_def split: if_splits)
  qed
qed auto

lemma run_processes_rapid:
  assumes "run_processes p cp rn ps = (bs, g)" "rn_rapid rn + k = rs_max_rapid p" "0 < k"
    "k \<le> length ps" "\<forall>q \<in> set (take k ps). quick q"
  shows "g \<and> length bs = k"
  using assms
proof (induction ps arbitrary: rn bs k)
  case (Cons q ps)
  obtain produced elapsed wall where q: "q = (produced, elapsed, wall)" by (cases q)
  have "quick q" using Cons.prems(3,5) by (cases k) auto
  then have qk: "produced < HEALTHY_MS \<and> elapsed < 5000" by (simp add: quick_def q)
  obtain rn' nx where ap: "after_process p rn (process_base cp rn wall) produced elapsed = (rn', nx)" by fastforce
  show ?case
  proof (cases "k = 1")
    case True
    then have "nx = GiveUp" using ap qk Cons.prems(2) by (auto simp: after_process_def Let_def)
    then show ?thesis using Cons.prems(1) ap True by (auto simp: q Let_def)
  next
    case False
    then have nx: "\<exists>d. nx = Restart d" "rn_rapid rn' = Suc (rn_rapid rn)"
      using ap qk Cons.prems(2,3) by (auto simp: after_process_def Let_def)
    obtain bs' where r: "run_processes p cp rn' ps = (bs', g)" "length bs = Suc (length bs')"
      using Cons.prems(1) ap nx(1) by (auto simp: q Let_def split: prod.splits)
    have tk: "take k (q # ps) = q # take (k - 1) ps" using Cons.prems(3) by (cases k) auto
    have "g \<and> length bs' = k - 1"
      by (rule Cons.IH [OF r(1)]) (use Cons.prems(2-5) False nx(2) tk in auto)
    then show ?thesis using r(2) Cons.prems(3) by simp
  qed
qed simp

text \<open>
  Over any sequence of recorder deaths and restarts, the audio of a process starts no
  earlier than the session's start and than the end of the audio of every process before it;
  and exactly \<open>max_rapid\<close> quick failures at the start are tolerated before capture gives up.
\<close>

theorem restarts_keep_the_timeline:
  assumes "run_processes p cp (run_init cp) ps = (bs, g)"
  shows "(\<forall>b \<in> set bs. cp_start_ms cp \<le> fst b) \<and> sorted_wrt (\<lambda>a b. fst a + int (snd a) \<le> fst b) bs \<and>
     (0 < rs_max_rapid p \<and> rs_max_rapid p \<le> length ps \<and> (\<forall>q \<in> set (take (rs_max_rapid p) ps). quick q)
        \<longrightarrow> g \<and> length bs = rs_max_rapid p)"
  using run_processes_ordered [OF _ assms] run_processes_rapid [OF assms, of "rs_max_rapid p"]
  by (auto simp: run_init_def)

definition default_restart :: restart_policy where
  "default_restart = \<lparr>rs_initial_delay = 1 / 2, rs_max_delay = 10, rs_max_rapid = 5\<rparr>"

theorem restarts_keep_the_timeline_witness:
  "\<exists>bs. run_processes default_restart mic_capturer (run_init mic_capturer) [(4000, 4100, 0), (300, 400, 9000)]
       = (bs, False) \<and> sorted_wrt (\<lambda>a b. fst a + int (snd a) \<le> fst b) bs"
proof -
  obtain bs g where r: "run_processes default_restart mic_capturer (run_init mic_capturer)
     [(4000, 4100, 0), (300, 400, 9000)] = (bs, g)" by fastforce
  have "g = False" using r by (auto simp: default_restart_def mic_capturer_def run_init_def after_process_def Let_def HEALTHY_MS_def)
  with r restarts_keep_the_timeline [OF r] show ?thesis by blast
qed

end
