(* ===== verification/Segmenter.thy ===== *)
theory Segmenter
  imports Prelude_JV
begin

text \<open>
  Voice-activity segmentation (\<open>server/src/jarvis_live/ingest/segmenter.py\<close>): PCM in, closed
  speech segments out. The voice activity detector (\<open>webrtcvad\<close>) is a parameter: \<open>vad h\<close> is
  its answer on the last frame of \<open>h\<close>, given that \<open>h\<close> is everything it was shown, so it may
  keep any state of its own.
\<close>

section \<open>State\<close>

definition SEG_BYTES_PER_MS :: nat where "SEG_BYTES_PER_MS = 32"

record seg_config =
  gc_frame_ms :: nat
  gc_close_silence_ms :: nat
  gc_max_ms :: nat
  gc_overlap_ms :: nat
  gc_min_speech_ms :: nat

definition default_seg_config :: seg_config where
  "default_seg_config = \<lparr>gc_frame_ms = 30, gc_close_silence_ms = 700, gc_max_ms = 15000,
     gc_overlap_ms = 500, gc_min_speech_ms = 400\<rparr>"

record speech_segment =
  sp_start_ms :: nat
  sp_end_ms :: nat
  sp_pcm :: bytes
  sp_speech_ms :: nat

record vframe =
  vf_pcm :: bytes
  vf_speech :: bool

record segmenter =
  sg_cfg :: seg_config
  sg_shown :: "bytes list"     \<comment> \<open>what the detector was shown\<close>
  sg_buf :: bytes
  sg_seen :: nat
  sg_open :: "vframe list"
  sg_open_start :: nat
  sg_carry :: nat

definition ceil_div :: "nat \<Rightarrow> nat \<Rightarrow> nat" where
  "ceil_div a b = nat (- (- int a div int b))"

definition frame_bytes :: "segmenter \<Rightarrow> nat" where
  "frame_bytes s = gc_frame_ms (sg_cfg s) * SEG_BYTES_PER_MS"

definition close_frames :: "segmenter \<Rightarrow> nat" where
  "close_frames s = ceil_div (gc_close_silence_ms (sg_cfg s)) (gc_frame_ms (sg_cfg s))"

definition max_frames :: "segmenter \<Rightarrow> nat" where
  "max_frames s = gc_max_ms (sg_cfg s) div gc_frame_ms (sg_cfg s)"

definition overlap_frames :: "segmenter \<Rightarrow> nat" where
  "overlap_frames s = ceil_div (gc_overlap_ms (sg_cfg s)) (gc_frame_ms (sg_cfg s))"

definition new_segmenter :: "seg_config \<Rightarrow> segmenter" where
  "new_segmenter cfg = \<lparr>sg_cfg = cfg, sg_shown = [], sg_buf = [], sg_seen = 0, sg_open = [],
     sg_open_start = 0, sg_carry = 0\<rparr>"

section \<open>Operations\<close>

definition position_ms :: "segmenter \<Rightarrow> nat" where
  "position_ms s = sg_seen s * gc_frame_ms (sg_cfg s)"

definition open_start_ms :: "segmenter \<Rightarrow> nat option" where
  "open_start_ms s = (if sg_open s \<noteq> [] then Some (sg_open_start s * gc_frame_ms (sg_cfg s)) else None)"

definition trailing_silence :: "vframe list \<Rightarrow> nat" where
  "trailing_silence fs = length (takeWhile (\<lambda>f. \<not> vf_speech f) (rev fs))"

abbreviation speech_count :: "vframe list \<Rightarrow> nat" where
  "speech_count fs \<equiv> length (filter vf_speech fs)"

definition build_segment :: "segmenter \<Rightarrow> nat \<Rightarrow> speech_segment option" where
  "build_segment s end_frame =
     (let frames = take (end_frame - sg_open_start s) (sg_open s);
          ms = gc_frame_ms (sg_cfg s);
          fresh_ms = speech_count (drop (sg_carry s) frames) * ms
      in if fresh_ms < gc_min_speech_ms (sg_cfg s) then None
         else Some \<lparr>sp_start_ms = sg_open_start s * ms, sp_end_ms = end_frame * ms,
                    sp_pcm = concat (map vf_pcm frames), sp_speech_ms = speech_count frames * ms\<rparr>)"

definition close_segment :: "segmenter \<Rightarrow> nat \<Rightarrow> speech_segment option \<times> segmenter" where
  "close_segment s end_frame = (build_segment s end_frame, s\<lparr>sg_open := [], sg_carry := 0\<rparr>)"

text \<open>\<open>xs[-n:]\<close>: the last \<open>n\<close> elements, but all of them for \<open>n = 0\<close>.\<close>

definition last_slice :: "nat \<Rightarrow> 'a list \<Rightarrow> 'a list" where
  "last_slice n xs = (if n = 0 then xs else drop (length xs - n) xs)"

definition push_opened :: "segmenter \<Rightarrow> speech_segment list \<times> segmenter" where
  "push_opened s =
     (let quiet = trailing_silence (sg_open s) in
      if quiet \<ge> close_frames s
      then (case close_segment s (sg_seen s - quiet) of (seg, s') \<Rightarrow> (case seg of None \<Rightarrow> [] | Some x \<Rightarrow> [x], s'))
      else if length (sg_open s) \<ge> max_frames s
      then let carry = last_slice (overlap_frames s) (sg_open s)
           in (case build_segment s (sg_seen s) of None \<Rightarrow> [] | Some x \<Rightarrow> [x],
               s\<lparr>sg_open := carry, sg_open_start := sg_seen s - length carry, sg_carry := length carry\<rparr>)
      else ([], s))"

text \<open>The detector is asked, and the frame opens or joins a segment.\<close>

definition see_frame :: "segmenter \<Rightarrow> bytes \<Rightarrow> segmenter" where
  "see_frame s pcm = s\<lparr>sg_shown := sg_shown s @ [pcm], sg_seen := sg_seen s + 1\<rparr>"

definition open_frame :: "segmenter \<Rightarrow> bytes \<Rightarrow> bool \<Rightarrow> segmenter" where
  "open_frame s pcm speech =
     s\<lparr>sg_open_start := (if sg_open s = [] then sg_seen s - 1 else sg_open_start s),
       sg_open := sg_open s @ [\<lparr>vf_pcm = pcm, vf_speech = speech\<rparr>]\<rparr>"

definition push_frame :: "(bytes list \<Rightarrow> bool) \<Rightarrow> segmenter \<Rightarrow> bytes \<Rightarrow> speech_segment list \<times> segmenter" where
  "push_frame vad s pcm =
     (let s1 = see_frame s pcm; speech = vad (sg_shown s1)
      in if sg_open s = [] \<and> \<not> speech then ([], s1) else push_opened (open_frame s1 pcm speech))"

text \<open>The loop of \<open>feed\<close>; \<open>n\<close> is the frame length in bytes, which is positive.\<close>

function feed_loop :: "(bytes list \<Rightarrow> bool) \<Rightarrow> nat \<Rightarrow> segmenter \<Rightarrow> speech_segment list \<times> segmenter" where
  "feed_loop vad n s =
     (if 0 < n \<and> n \<le> length (sg_buf s)
      then let (out1, s1) = push_frame vad s (take n (sg_buf s));
               (out2, s2) = feed_loop vad n (s1\<lparr>sg_buf := drop n (sg_buf s)\<rparr>)
           in (out1 @ out2, s2)
      else ([], s))"
  by auto
termination by (relation "measure (\<lambda>(vad, n, s). length (sg_buf s))") auto

declare feed_loop.simps [simp del]

definition seg_feed :: "(bytes list \<Rightarrow> bool) \<Rightarrow> segmenter \<Rightarrow> bytes \<Rightarrow> speech_segment list \<times> segmenter" where
  "seg_feed vad s pcm = feed_loop vad (frame_bytes s) (s\<lparr>sg_buf := sg_buf s @ pcm\<rparr>)"

definition seg_flush :: "segmenter \<Rightarrow> speech_segment list \<times> segmenter" where
  "seg_flush s =
     (case close_segment s (sg_seen s - trailing_silence (sg_open s)) of
        (seg, s') \<Rightarrow> (case seg of None \<Rightarrow> [] | Some x \<Rightarrow> [x], s'\<lparr>sg_buf := []\<rparr>))"

fun seg_feeds :: "(bytes list \<Rightarrow> bool) \<Rightarrow> segmenter \<Rightarrow> bytes list \<Rightarrow> speech_segment list \<times> segmenter" where
  "seg_feeds vad s [] = ([], s)"
| "seg_feeds vad s (d # ds) =
     (let (o1, s1) = seg_feed vad s d; (o2, s2) = seg_feeds vad s1 ds in (o1 @ o2, s2))"

section \<open>Feeding does not depend on the chunks\<close>

lemma push_opened_buf:
  "push_opened (s\<lparr>sg_buf := z\<rparr>) = (fst (push_opened s), (snd (push_opened s))\<lparr>sg_buf := z\<rparr>)"
  by (simp add: push_opened_def Let_def close_segment_def build_segment_def close_frames_def
      max_frames_def overlap_frames_def)

lemma open_see_buf:
  "see_frame (s\<lparr>sg_buf := z\<rparr>) p = (see_frame s p)\<lparr>sg_buf := z\<rparr>"
  "open_frame (s\<lparr>sg_buf := z\<rparr>) p b = (open_frame s p b)\<lparr>sg_buf := z\<rparr>"
  by (simp_all add: see_frame_def open_frame_def)

lemma push_frame_buf:
  "push_frame vad (s\<lparr>sg_buf := z\<rparr>) p = (fst (push_frame vad s p), (snd (push_frame vad s p))\<lparr>sg_buf := z\<rparr>)"
  by (simp add: push_frame_def Let_def open_see_buf push_opened_buf)

lemma feed_loop_short: "\<not> (0 < n \<and> n \<le> length (sg_buf s)) \<Longrightarrow> feed_loop vad n s = ([], s)"
  by (subst feed_loop.simps) (simp only: if_False)

lemma feed_loop_step:
  assumes "0 < n" "n \<le> length (sg_buf s)" "push_frame vad s (take n (sg_buf s)) = (o1, s1)"
    "feed_loop vad n (s1\<lparr>sg_buf := drop n (sg_buf s)\<rparr>) = (o2, s2)"
  shows "feed_loop vad n s = (o1 @ o2, s2)"
  using assms by (subst feed_loop.simps) simp

lemma feed_loop_append:
  "feed_loop vad n s = (o1, s1) \<Longrightarrow> feed_loop vad n (s1\<lparr>sg_buf := sg_buf s1 @ y\<rparr>) = (o2, s2) \<Longrightarrow>
   feed_loop vad n (s\<lparr>sg_buf := sg_buf s @ y\<rparr>) = (o1 @ o2, s2)"
proof (induction vad n s arbitrary: o1 s1 rule: feed_loop.induct)
  case (1 vad n s)
  show ?case
  proof (cases "0 < n \<and> n \<le> length (sg_buf s)")
    case False
    with 1 show ?thesis by (simp add: feed_loop_short)
  next
    case True
    obtain p1 t1 where p: "push_frame vad s (take n (sg_buf s)) = (p1, t1)" by fastforce
    obtain p2 t2 where l: "feed_loop vad n (t1\<lparr>sg_buf := drop n (sg_buf s)\<rparr>) = (p2, t2)" by fastforce
    have eq: "o1 = p1 @ p2" "s1 = t2"
      using feed_loop_step [OF _ _ p l] True "1.prems"(1) by auto
    have "feed_loop vad n ((t1\<lparr>sg_buf := drop n (sg_buf s)\<rparr>)\<lparr>sg_buf := sg_buf (t1\<lparr>sg_buf := drop n (sg_buf s)\<rparr>) @ y\<rparr>)
       = (p2 @ o2, s2)"
      using "1.IH" [OF True p [symmetric] refl l] "1.prems"(2) eq(2) by simp
    then have "feed_loop vad n ((t1\<lparr>sg_buf := sg_buf s @ y\<rparr>)\<lparr>sg_buf := drop n (sg_buf s @ y)\<rparr>) = (p2 @ o2, s2)"
      using True by simp
    moreover have "push_frame vad (s\<lparr>sg_buf := sg_buf s @ y\<rparr>) (take n (sg_buf s @ y)) = (p1, t1\<lparr>sg_buf := sg_buf s @ y\<rparr>)"
      using True p by (simp add: push_frame_buf)
    ultimately show ?thesis
      using feed_loop_step [of n "s\<lparr>sg_buf := sg_buf s @ y\<rparr>" vad p1 "t1\<lparr>sg_buf := sg_buf s @ y\<rparr>" "p2 @ o2" s2]
        True eq(1) by simp
  qed
qed

lemma push_opened_cfg [simp]: "sg_cfg (snd (push_opened s)) = sg_cfg s"
  by (simp add: push_opened_def Let_def close_segment_def)

lemma push_frame_cfg [simp]: "sg_cfg (snd (push_frame vad s p)) = sg_cfg s"
  by (simp add: push_frame_def Let_def see_frame_def open_frame_def)

lemma feed_loop_cfg: "sg_cfg (snd (feed_loop vad n s)) = sg_cfg s"
proof (induction vad n s rule: feed_loop.induct)
  case (1 vad n s)
  show ?case
  proof (cases "0 < n \<and> n \<le> length (sg_buf s)")
    case True
    obtain p1 t1 where p: "push_frame vad s (take n (sg_buf s)) = (p1, t1)" by fastforce
    obtain p2 t2 where l: "feed_loop vad n (t1\<lparr>sg_buf := drop n (sg_buf s)\<rparr>) = (p2, t2)" by fastforce
    have "sg_cfg t1 = sg_cfg s" using push_frame_cfg [of vad s "take n (sg_buf s)"] by (simp add: p)
    then show ?thesis
      using "1.IH" [OF True p [symmetric] refl] feed_loop_step [OF _ _ p l] True l by simp
  qed (simp add: feed_loop_short)
qed

text \<open>
  C35: segmentation does not depend on how the audio arrives: feeding a list of chunks gives the
  same segments, and the same state after, as feeding their concatenation.
\<close>

theorem seg_feeds_chunking:
  "ds \<noteq> [] \<Longrightarrow> seg_feeds vad s ds = seg_feed vad s (concat ds)"
proof (induction ds arbitrary: s)
  case (Cons d ds)
  obtain o1 s1 where f: "seg_feed vad s d = (o1, s1)" by fastforce
  have cfg: "frame_bytes s1 = frame_bytes s"
    using feed_loop_cfg [of vad "frame_bytes s" "s\<lparr>sg_buf := sg_buf s @ d\<rparr>"] f
    by (simp add: seg_feed_def frame_bytes_def)
  obtain o2 s2 where g: "seg_feed vad s1 (concat ds) = (o2, s2)" by fastforce
  have "feed_loop vad (frame_bytes s) ((s\<lparr>sg_buf := sg_buf s @ d\<rparr>)\<lparr>sg_buf := sg_buf (s\<lparr>sg_buf := sg_buf s @ d\<rparr>) @ concat ds\<rparr>)
      = (o1 @ o2, s2)"
    by (rule feed_loop_append) (use f g cfg in \<open>simp_all add: seg_feed_def\<close>)
  then have app: "seg_feed vad s (concat (d # ds)) = (o1 @ o2, s2)" by (simp add: seg_feed_def)
  show ?case
  proof (cases "ds = []")
    case True
    then show ?thesis using f by simp
  next
    case False
    then show ?thesis using Cons.IH [of s1] f g app by simp
  qed
qed simp

definition always_speech :: "bytes list \<Rightarrow> bool" where "always_speech h = True"

theorem seg_feeds_chunking_witness:
  "seg_feeds always_speech (new_segmenter default_seg_config) [replicate 700 1, replicate 900 2] =
   seg_feed always_speech (new_segmenter default_seg_config) (replicate 700 1 @ replicate 900 2)"
  using seg_feeds_chunking [of "[replicate 700 1, replicate 900 2]"] by simp

section \<open>What a segment is\<close>

text \<open>The stream as whole frames, each with the detector's answer.\<close>

definition judged :: "(bytes list \<Rightarrow> bool) \<Rightarrow> bytes list \<Rightarrow> vframe list" where
  "judged vad h = map (\<lambda>i. \<lparr>vf_pcm = h ! i, vf_speech = vad (take (Suc i) h)\<rparr>) [0..<length h]"

lemma judged_snoc: "judged vad (h @ [p]) = judged vad h @ [\<lparr>vf_pcm = p, vf_speech = vad (h @ [p])\<rparr>]"
  by (simp add: judged_def nth_append)

lemma length_judged [simp]: "length (judged vad h) = length h"
  by (simp add: judged_def)

lemma judged_pcm: "map vf_pcm (judged vad h) = h"
  by (simp add: judged_def comp_def map_nth)

definition cfg_ok :: "seg_config \<Rightarrow> bool" where
  "cfg_ok c \<longleftrightarrow> 0 < gc_frame_ms c \<and> 0 < gc_close_silence_ms c \<and> 0 < gc_min_speech_ms c \<and>
     0 < gc_overlap_ms c \<and> ceil_div (gc_overlap_ms c) (gc_frame_ms c) < gc_max_ms c div gc_frame_ms c"

lemma ceil_div_pos: "0 < a \<Longrightarrow> 0 < b \<Longrightarrow> 0 < ceil_div a b"
  by (simp add: ceil_div_def) (simp add: div_neg_pos_less0)

text \<open>
  A segment covers the frames from \<open>a\<close> up to \<open>b\<close> of the stream: its times and its audio are
  theirs, and it holds enough speech.
\<close>

definition covers :: "(bytes list \<Rightarrow> bool) \<Rightarrow> seg_config \<Rightarrow> bytes list \<Rightarrow> speech_segment \<Rightarrow> nat \<Rightarrow> nat \<Rightarrow> bool" where
  "covers vad c h x a b \<longleftrightarrow> a < b \<and> b \<le> length h \<and> b - a \<le> gc_max_ms c div gc_frame_ms c \<and>
     sp_start_ms x = a * gc_frame_ms c \<and> sp_end_ms x = b * gc_frame_ms c \<and>
     sp_pcm x = concat (take (b - a) (drop a h)) \<and>
     sp_speech_ms x = speech_count (take (b - a) (drop a (judged vad h))) * gc_frame_ms c \<and>
     gc_min_speech_ms c \<le> sp_speech_ms x"

text \<open>Segments in stream order after time \<open>e\<close>, overlapping by at most \<open>ov\<close>.\<close>

fun in_order :: "nat \<Rightarrow> nat \<Rightarrow> speech_segment list \<Rightarrow> bool" where
  "in_order ov e [] = True"
| "in_order ov e (x # xs) = (e < sp_end_ms x \<and> e \<le> sp_start_ms x + ov \<and> in_order ov (sp_end_ms x) xs)"

definition last_end :: "nat \<Rightarrow> speech_segment list \<Rightarrow> nat" where
  "last_end e xs = (if xs = [] then e else sp_end_ms (last xs))"

lemma in_order_append:
  "in_order ov e (xs @ ys) \<longleftrightarrow> in_order ov e xs \<and> in_order ov (last_end e xs) ys"
  by (induction xs arbitrary: e) (auto simp: last_end_def)

lemma last_end_append: "last_end e (xs @ ys) = last_end (last_end e xs) ys"
  by (simp add: last_end_def)

definition overlap_ms :: "segmenter \<Rightarrow> nat" where
  "overlap_ms s = overlap_frames s * gc_frame_ms (sg_cfg s)"

definition seg_inv :: "(bytes list \<Rightarrow> bool) \<Rightarrow> nat \<Rightarrow> segmenter \<Rightarrow> bool" where
  "seg_inv vad e s \<longleftrightarrow> cfg_ok (sg_cfg s) \<and> sg_seen s = length (sg_shown s) \<and>
     (sg_open s \<noteq> [] \<longrightarrow> sg_open_start s < sg_seen s \<and>
        sg_open s = drop (sg_open_start s) (judged vad (sg_shown s))) \<and>
     sg_carry s \<le> length (sg_open s) \<and> sg_carry s \<le> overlap_frames s \<and>
     length (sg_open s) < max_frames s \<and>
     (if sg_open s = [] then e \<le> position_ms s
      else e \<le> (sg_open_start s + sg_carry s) * gc_frame_ms (sg_cfg s))"

lemma covers_grow: "covers vad c h x a b \<Longrightarrow> covers vad c (h @ [p]) x a b"
  unfolding covers_def judged_snoc by auto

lemma build_covers:
  assumes "cfg_ok (sg_cfg s)" "sg_seen s = length (sg_shown s)"
    "sg_open s = drop (sg_open_start s) (judged vad (sg_shown s))"
    "n \<le> sg_seen s" "length (sg_open s) \<le> max_frames s" "build_segment s n = Some x"
  shows "covers vad (sg_cfg s) (sg_shown s) x (sg_open_start s) n"
    and "sg_open_start s + sg_carry s < n"
proof -
  let ?fs = "take (n - sg_open_start s) (sg_open s)"
  have fresh: "gc_min_speech_ms (sg_cfg s) \<le> speech_count (drop (sg_carry s) ?fs) * gc_frame_ms (sg_cfg s)"
    and x: "sp_start_ms x = sg_open_start s * gc_frame_ms (sg_cfg s)" "sp_end_ms x = n * gc_frame_ms (sg_cfg s)"
      "sp_pcm x = concat (map vf_pcm ?fs)" "sp_speech_ms x = speech_count ?fs * gc_frame_ms (sg_cfg s)"
    using assms(6) by (auto simp: build_segment_def Let_def split: if_splits)
  have "0 < gc_min_speech_ms (sg_cfg s)" using assms(1) by (simp add: cfg_ok_def)
  with fresh have "drop (sg_carry s) ?fs \<noteq> []" by (auto simp del: drop_eq_Nil)
  then show lt: "sg_open_start s + sg_carry s < n" by simp
  have "speech_count (drop (sg_carry s) ?fs) \<le> speech_count ?fs"
    by (metis append_take_drop_id filter_append le_add2 length_append)
  with fresh have "gc_min_speech_ms (sg_cfg s) \<le> sp_speech_ms x"
    unfolding x by (meson le_trans mult_le_mono1)
  moreover have "map vf_pcm ?fs = take (n - sg_open_start s) (drop (sg_open_start s) (sg_shown s))"
    unfolding assms(3) by (simp add: take_map [symmetric] drop_map [symmetric] judged_pcm)
  moreover have "n - sg_open_start s \<le> gc_max_ms (sg_cfg s) div gc_frame_ms (sg_cfg s)"
    using assms(2-5) by (simp add: max_frames_def)
  ultimately show "covers vad (sg_cfg s) (sg_shown s) x (sg_open_start s) n"
    using lt assms(2,3,4) x by (simp add: covers_def)
qed

definition opened_inv :: "(bytes list \<Rightarrow> bool) \<Rightarrow> nat \<Rightarrow> segmenter \<Rightarrow> bool" where
  "opened_inv vad e s \<longleftrightarrow> cfg_ok (sg_cfg s) \<and> sg_seen s = length (sg_shown s) \<and>
     sg_open_start s < sg_seen s \<and> sg_open s = drop (sg_open_start s) (judged vad (sg_shown s)) \<and>
     sg_carry s \<le> length (sg_open s) \<and> sg_carry s \<le> overlap_frames s \<and>
     length (sg_open s) \<le> max_frames s \<and> e \<le> (sg_open_start s + sg_carry s) * gc_frame_ms (sg_cfg s)"

definition emits :: "(bytes list \<Rightarrow> bool) \<Rightarrow> nat \<Rightarrow> segmenter \<Rightarrow> speech_segment list \<Rightarrow> segmenter \<Rightarrow> bool" where
  "emits vad e s out s' \<longleftrightarrow> seg_inv vad (last_end e out) s' \<and> in_order (overlap_ms s) e out \<and>
     (\<forall>x \<in> set out. \<exists>a b. covers vad (sg_cfg s) (sg_shown s') x a b) \<and> sg_cfg s' = sg_cfg s"

lemma ordered_segment:
  assumes "covers vad (sg_cfg s) h x (sg_open_start s) n" "sg_open_start s + sg_carry s < n"
    "sg_carry s \<le> overlap_frames s" "e \<le> (sg_open_start s + sg_carry s) * gc_frame_ms (sg_cfg s)"
    "0 < gc_frame_ms (sg_cfg s)"
  shows "e < sp_end_ms x" "e \<le> sp_start_ms x + overlap_ms s"
proof -
  have "(sg_open_start s + sg_carry s) * gc_frame_ms (sg_cfg s) < n * gc_frame_ms (sg_cfg s)"
    using assms(2,5) by (intro mult_less_mono1)
  with assms(4) have "e < n * gc_frame_ms (sg_cfg s)" by (rule le_less_trans)
  then show "e < sp_end_ms x" using assms(1) by (simp add: covers_def)
  have "(sg_open_start s + sg_carry s) * gc_frame_ms (sg_cfg s)
      \<le> (sg_open_start s + overlap_frames s) * gc_frame_ms (sg_cfg s)"
    using assms(3) by (intro mult_le_mono1) simp
  with assms(4) have "e \<le> (sg_open_start s + overlap_frames s) * gc_frame_ms (sg_cfg s)" by (rule le_trans)
  then show "e \<le> sp_start_ms x + overlap_ms s"
    using assms(1) by (simp add: covers_def overlap_ms_def add_mult_distrib)
qed

lemma close_segment_spec:
  assumes "opened_inv vad e s" "n \<le> sg_seen s" "close_segment s n = (seg, s')"
  shows "emits vad e s (case seg of None \<Rightarrow> [] | Some x \<Rightarrow> [x]) s'"
proof -
  note inv = assms(1) [unfolded opened_inv_def]
  have s': "s' = s\<lparr>sg_open := [], sg_carry := 0\<rparr>" "seg = build_segment s n"
    using assms(3) by (auto simp: close_segment_def)
  have max: "0 < max_frames s" using inv by (auto simp: cfg_ok_def max_frames_def)
  have inv': "seg_inv vad e' s'" if "e' \<le> position_ms s" for e'
    using inv that max by (simp add: s' seg_inv_def position_ms_def max_frames_def)
  show ?thesis
  proof (cases seg)
    case None
    have "length (sg_open s) = sg_seen s - sg_open_start s" using inv by simp
    then have "sg_open_start s + sg_carry s \<le> sg_seen s" using inv by linarith
    then have "e \<le> position_ms s"
      using inv unfolding position_ms_def by (meson le_trans mult_le_mono1)
    then show ?thesis using None inv' by (simp add: emits_def last_end_def s')
  next
    case (Some x)
    have c: "covers vad (sg_cfg s) (sg_shown s) x (sg_open_start s) n" "sg_open_start s + sg_carry s < n"
      using build_covers [of s vad n x] inv assms(2) Some s'(2) by auto
    moreover have "sp_end_ms x \<le> position_ms s"
      using c(1) assms(2) by (simp add: covers_def position_ms_def)
    ultimately show ?thesis
      using ordered_segment [OF c] inv inv' Some
      by (auto simp: emits_def last_end_def s' cfg_ok_def)
  qed
qed

lemma last_slice_drop:
  assumes "0 < n" "a \<le> length xs"
  shows "last_slice n (drop a xs) = drop (length xs - length (last_slice n (drop a xs))) xs"
proof -
  have "length xs - length (last_slice n (drop a xs)) = length xs - a - n + a"
    using assms by (simp add: last_slice_def)
  then show ?thesis using assms(1) by (simp add: last_slice_def)
qed

lemma max_cut_spec:
  assumes "opened_inv vad e s"
  shows "emits vad e s (case build_segment s (sg_seen s) of None \<Rightarrow> [] | Some x \<Rightarrow> [x])
     (let carry = last_slice (overlap_frames s) (sg_open s)
      in s\<lparr>sg_open := carry, sg_open_start := sg_seen s - length carry, sg_carry := length carry\<rparr>)"
    (is "emits vad e s ?out ?s'")
proof -
  note inv = assms [unfolded opened_inv_def]
  let ?ms = "gc_frame_ms (sg_cfg s)"
  have len: "length (sg_open s) = sg_seen s - sg_open_start s" using inv by simp
  have ov: "0 < overlap_frames s" "overlap_frames s < max_frames s" "0 < ?ms"
    using inv ceil_div_pos by (auto simp: cfg_ok_def overlap_frames_def max_frames_def)
  define cs where "cs = last_slice (overlap_frames s) (sg_open s)"
  have lc: "length cs \<le> overlap_frames s" "length cs \<le> length (sg_open s)" "cs \<noteq> []"
    using ov inv len by (auto simp: last_slice_def cs_def)
  have drp: "cs = drop (sg_seen s - length cs) (judged vad (sg_shown s))"
    using last_slice_drop [OF ov(1), of "sg_open_start s" "judged vad (sg_shown s)"] inv by (simp add: cs_def)
  have lt: "length (sg_shown s) - length cs < length (sg_shown s)" using lc(3) inv by (cases cs) auto
  have s': "?s' = s\<lparr>sg_open := cs, sg_open_start := sg_seen s - length cs, sg_carry := length cs\<rparr>"
    by (simp add: cs_def Let_def)
  have inv': "seg_inv vad e' ?s'" if "e' \<le> position_ms s" for e'
    unfolding s' using inv lc drp len ov that lt
    by (simp add: seg_inv_def position_ms_def overlap_frames_def max_frames_def)
  show ?thesis
  proof (cases "build_segment s (sg_seen s)")
    case None
    have "sg_open_start s + sg_carry s \<le> sg_seen s" using inv len by linarith
    then have "e \<le> position_ms s"
      using inv unfolding position_ms_def by (meson le_trans mult_le_mono1)
    then show ?thesis using None inv' by (simp add: emits_def last_end_def Let_def)
  next
    case (Some x)
    have c: "covers vad (sg_cfg s) (sg_shown s) x (sg_open_start s) (sg_seen s)" "sg_open_start s + sg_carry s < sg_seen s"
      using build_covers [of s vad "sg_seen s" x] inv Some by auto
    moreover have "sp_end_ms x \<le> position_ms s" using c(1) by (simp add: covers_def position_ms_def)
    ultimately show ?thesis
      using ordered_segment [OF c] inv inv' Some ov(3)
      by (auto simp: emits_def last_end_def Let_def)
  qed
qed

lemma push_opened_spec:
  assumes "opened_inv vad e s" "push_opened s = (out, s')"
  shows "emits vad e s out s' \<and> sg_shown s' = sg_shown s"
proof -
  let ?q = "trailing_silence (sg_open s)"
  show ?thesis
  proof (cases "?q \<ge> close_frames s")
    case True
    obtain seg t where c: "close_segment s (sg_seen s - ?q) = (seg, t)" by fastforce
    have "emits vad e s (case seg of None \<Rightarrow> [] | Some x \<Rightarrow> [x]) t"
      by (rule close_segment_spec [OF assms(1) _ c]) simp
    then show ?thesis
      using assms(2) True c by (auto simp: push_opened_def Let_def close_segment_def)
  next
    case quiet: False
    show ?thesis
    proof (cases "length (sg_open s) \<ge> max_frames s")
      case True
      with quiet assms(2) max_cut_spec [OF assms(1)] show ?thesis
        by (auto simp: push_opened_def Let_def)
    next
      case False
      with quiet assms(2) have "out = []" "s' = s" by (auto simp: push_opened_def Let_def)
      moreover have "seg_inv vad e s"
        using assms(1) False by (auto simp: opened_inv_def seg_inv_def)
      ultimately show ?thesis by (simp add: emits_def last_end_def)
    qed
  qed
qed

lemma opened_after_see:
  assumes "seg_inv vad e s" "sg_open s = [] \<longrightarrow> b" "b = vad (sg_shown s @ [p])"
  shows "opened_inv vad e (open_frame (see_frame s p) p b)"
proof (cases "sg_open s = []")
  case True
  then show ?thesis
    using assms by (auto simp: seg_inv_def opened_inv_def open_frame_def see_frame_def judged_snoc
        position_ms_def max_frames_def overlap_frames_def)
next
  case False
  then show ?thesis
    using assms by (auto simp: seg_inv_def opened_inv_def open_frame_def see_frame_def judged_snoc
        overlap_frames_def max_frames_def)
qed

lemma push_frame_spec:
  assumes "seg_inv vad e s" "push_frame vad s p = (out, s')"
  shows "emits vad e s out s' \<and> sg_shown s' = sg_shown s @ [p]"
proof (cases "sg_open s = [] \<and> \<not> vad (sg_shown s @ [p])")
  case True
  then have "out = []" "s' = see_frame s p" using assms(2) by (auto simp: push_frame_def see_frame_def Let_def)
  then show ?thesis
    using assms(1) True by (auto simp: seg_inv_def emits_def last_end_def see_frame_def max_frames_def
        overlap_frames_def position_ms_def)
next
  case False
  let ?s2 = "open_frame (see_frame s p) p (vad (sg_shown s @ [p]))"
  have po: "push_opened ?s2 = (out, s')"
    using assms(2) False by (auto simp: push_frame_def see_frame_def Let_def)
  have "opened_inv vad e ?s2" by (rule opened_after_see [OF assms(1)]) (use False in auto)
  from push_opened_spec [OF this po] show ?thesis
    by (auto simp: emits_def open_frame_def see_frame_def overlap_ms_def overlap_frames_def)
qed

lemma emits_trans:
  assumes "emits vad e s o1 s1" "emits vad (last_end e o1) s1 o2 s2" "sg_shown s2 = sg_shown s1 @ ps"
  shows "emits vad e s (o1 @ o2) s2"
proof -
  have grow: "covers vad c (h @ ps) x a b" if "covers vad c h x a b" for c h x a b
    using that
  proof (induction ps rule: rev_induct)
    case (snoc p ps)
    then show ?case using covers_grow [of vad c "h @ ps" x a b p] by simp
  qed simp
  have "overlap_ms s1 = overlap_ms s"
    using assms(1) by (simp add: emits_def overlap_ms_def overlap_frames_def)
  then show ?thesis
    using assms grow unfolding emits_def in_order_append last_end_append by (simp add: ball_Un) blast
qed

lemma seg_inv_buf: "seg_inv vad e (s\<lparr>sg_buf := z\<rparr>) = seg_inv vad e s"
  by (simp add: seg_inv_def overlap_frames_def max_frames_def position_ms_def)

lemma emits_buf:
  "emits vad e s out (s'\<lparr>sg_buf := z\<rparr>) = emits vad e s out s'"
  "emits vad e (s\<lparr>sg_buf := z\<rparr>) out s' = emits vad e s out s'"
  by (simp_all add: emits_def seg_inv_def overlap_frames_def max_frames_def position_ms_def overlap_ms_def)

lemma feed_loop_spec:
  assumes "seg_inv vad e s" "feed_loop vad n s = (out, s')"
  shows "\<exists>ps. emits vad e s out s' \<and> sg_shown s' = sg_shown s @ ps \<and> concat ps @ sg_buf s' = sg_buf s \<and>
     (\<forall>p \<in> set ps. length p = n) \<and> (0 < n \<longrightarrow> length (sg_buf s') < n)"
  using assms
proof (induction vad n s arbitrary: e out s' rule: feed_loop.induct)
  case (1 vad n s)
  show ?case
  proof (cases "0 < n \<and> n \<le> length (sg_buf s)")
    case False
    then have "out = []" "s' = s" using "1.prems"(2) by (simp_all add: feed_loop_short)
    with False "1.prems"(1) show ?thesis by (intro exI [of _ "[]"]) (auto simp: emits_def last_end_def)
  next
    case True
    obtain p1 t1 where p: "push_frame vad s (take n (sg_buf s)) = (p1, t1)" by fastforce
    obtain p2 t2 where l: "feed_loop vad n (t1\<lparr>sg_buf := drop n (sg_buf s)\<rparr>) = (p2, t2)" by fastforce
    have eq: "out = p1 @ p2" "s' = t2"
      using feed_loop_step [OF _ _ p l] True "1.prems"(2) by auto
    from push_frame_spec [OF "1.prems"(1) p]
    have e1: "emits vad e s p1 t1" "sg_shown t1 = sg_shown s @ [take n (sg_buf s)]" by auto
    have "seg_inv vad (last_end e p1) (t1\<lparr>sg_buf := drop n (sg_buf s)\<rparr>)"
      using e1(1) emits_buf(1) by (metis emits_def)
    from "1.IH" [OF True p [symmetric] refl this l] obtain ps where ps:
      "emits vad (last_end e p1) (t1\<lparr>sg_buf := drop n (sg_buf s)\<rparr>) p2 t2"
      "sg_shown t2 = sg_shown t1 @ ps" "concat ps @ sg_buf t2 = drop n (sg_buf s)"
      "\<forall>p \<in> set ps. length p = n" "0 < n \<longrightarrow> length (sg_buf t2) < n" by auto
    have "emits vad e s (p1 @ p2) t2"
      by (rule emits_trans [OF e1(1) _ ps(2)]) (use ps(1) in \<open>simp add: emits_buf\<close>)
    then show ?thesis
      using ps e1(2) eq True by (intro exI [of _ "take n (sg_buf s) # ps"]) simp
  qed
qed

lemma seg_flush_spec:
  assumes "seg_inv vad e s" "seg_flush s = (out, s')"
  shows "emits vad e s out s' \<and> sg_shown s' = sg_shown s \<and> sg_open s' = []"
proof -
  let ?n = "sg_seen s - trailing_silence (sg_open s)"
  obtain seg t where c: "close_segment s ?n = (seg, t)" by fastforce
  have out: "out = (case seg of None \<Rightarrow> [] | Some x \<Rightarrow> [x])" "s' = t\<lparr>sg_buf := []\<rparr>"
    using assms(2) c by (auto simp: seg_flush_def)
  have t: "t = s\<lparr>sg_open := [], sg_carry := 0\<rparr>" "seg = build_segment s ?n"
    using c by (auto simp: close_segment_def)
  have "emits vad e s out t"
  proof (cases "sg_open s = []")
    case True
    have "seg = None" using assms(1) True by (auto simp: t build_segment_def Let_def seg_inv_def cfg_ok_def)
    then show ?thesis
      using assms(1) True
      by (auto simp: out t emits_def last_end_def seg_inv_def overlap_frames_def max_frames_def position_ms_def)
  next
    case False
    then have "opened_inv vad e s" using assms(1) by (auto simp: seg_inv_def opened_inv_def)
    then show ?thesis unfolding out(1) by (rule close_segment_spec [OF _ _ c]) simp
  qed
  then show ?thesis by (simp add: out(2) emits_buf t)
qed

lemma concat_uniform:
  assumes "\<forall>x \<in> set h. length x = n"
  shows "concat (take k h) = take (k * n) (concat h)" "concat (drop k h) = drop (k * n) (concat h)"
proof -
  have "concat (take k h) = take (k * n) (concat h) \<and> concat (drop k h) = drop (k * n) (concat h)"
    using assms
  proof (induction h arbitrary: k)
    case (Cons x h)
    then show ?case by (cases k) auto
  qed simp
  then show "concat (take k h) = take (k * n) (concat h)" "concat (drop k h) = drop (k * n) (concat h)" by simp_all
qed

lemma new_segmenter_inv: "cfg_ok c \<Longrightarrow> seg_inv vad 0 (new_segmenter c)"
  by (auto simp: new_segmenter_def seg_inv_def cfg_ok_def max_frames_def)

lemma seg_feeds_new:
  assumes "cfg_ok c"
  shows "seg_feeds vad (new_segmenter c) ds = seg_feed vad (new_segmenter c) (concat ds)"
proof (cases "ds = []")
  case True
  have "feed_loop vad n (new_segmenter c) = ([], new_segmenter c)" for n
    by (rule feed_loop_short) (auto simp: new_segmenter_def)
  then show ?thesis using True by (simp add: seg_feed_def)
qed (rule seg_feeds_chunking)

lemma covers_stream:
  assumes "covers vad c h x a b" "\<forall>f \<in> set h. length f = gc_frame_ms c * SEG_BYTES_PER_MS"
    "concat h @ rest = stream" "0 < gc_frame_ms c"
  shows "sp_pcm x = take ((sp_end_ms x - sp_start_ms x) * SEG_BYTES_PER_MS) (drop (sp_start_ms x * SEG_BYTES_PER_MS) stream)"
    "sp_start_ms x < sp_end_ms x" "sp_end_ms x * SEG_BYTES_PER_MS \<le> length stream"
    "sp_end_ms x - sp_start_ms x \<le> gc_max_ms c" "gc_min_speech_ms c \<le> sp_speech_ms x"
proof -
  note cv = assms(1) [unfolded covers_def]
  have len: "length (concat h) = length h * (gc_frame_ms c * SEG_BYTES_PER_MS)"
    using assms(2) by (induction h) auto
  have be: "b * (gc_frame_ms c * SEG_BYTES_PER_MS) \<le> length (concat h)"
    unfolding len using cv by (intro mult_le_mono1) simp
  then show "sp_end_ms x * SEG_BYTES_PER_MS \<le> length stream"
    using cv by (simp add: assms(3) [symmetric] mult.assoc)
  show "sp_start_ms x < sp_end_ms x" "gc_min_speech_ms c \<le> sp_speech_ms x" using cv assms(4) by simp_all
  have "(b - a) * gc_frame_ms c \<le> gc_max_ms c div gc_frame_ms c * gc_frame_ms c"
    using cv by (intro mult_le_mono1) simp
  then show "sp_end_ms x - sp_start_ms x \<le> gc_max_ms c"
    using cv div_times_less_eq_dividend [of "gc_max_ms c" "gc_frame_ms c"]
    by (simp only: diff_mult_distrib [symmetric])
  have "sp_pcm x = take ((b - a) * (gc_frame_ms c * SEG_BYTES_PER_MS)) (drop (a * (gc_frame_ms c * SEG_BYTES_PER_MS)) (concat h))"
    using cv concat_uniform [OF assms(2)] concat_uniform [of "drop a h"] assms(2)
    by (metis in_set_dropD)
  moreover have "(b - a) * (gc_frame_ms c * SEG_BYTES_PER_MS) + a * (gc_frame_ms c * SEG_BYTES_PER_MS) \<le> length (concat h)"
    using be cv by (simp add: add_mult_distrib [symmetric])
  ultimately show "sp_pcm x = take ((sp_end_ms x - sp_start_ms x) * SEG_BYTES_PER_MS) (drop (sp_start_ms x * SEG_BYTES_PER_MS) stream)"
    using cv by (simp add: assms(3) [symmetric] diff_mult_distrib [symmetric] mult.assoc)
qed

text \<open>
  C13: the segments of a whole stream, however it arrived and whatever the detector answers. Each
  carries exactly the stream's bytes between its times, is at most \<open>max_ms\<close> long and holds at
  least the minimum of speech; and they come in stream order, a segment overlapping the one
  before it by no more than the configured overlap (rounded up to whole frames).
\<close>

theorem segments_cover_stream:
  assumes "cfg_ok c" "seg_feeds vad (new_segmenter c) ds = (out1, s1)" "seg_flush s1 = (out2, s2)"
  shows "in_order (ceil_div (gc_overlap_ms c) (gc_frame_ms c) * gc_frame_ms c) 0 (out1 @ out2) \<and>
     (\<forall>x \<in> set (out1 @ out2).
        sp_pcm x = take ((sp_end_ms x - sp_start_ms x) * SEG_BYTES_PER_MS)
                     (drop (sp_start_ms x * SEG_BYTES_PER_MS) (concat ds)) \<and>
        sp_start_ms x < sp_end_ms x \<and> sp_end_ms x * SEG_BYTES_PER_MS \<le> length (concat ds) \<and>
        sp_end_ms x - sp_start_ms x \<le> gc_max_ms c \<and> gc_min_speech_ms c \<le> sp_speech_ms x)"
proof -
  let ?s = "new_segmenter c"
  have cfg: "sg_cfg ?s = c" "sg_shown ?s = []" "sg_buf ?s = []" by (simp_all add: new_segmenter_def)
  have fb: "feed_loop vad (frame_bytes ?s) (?s\<lparr>sg_buf := concat ds\<rparr>) = (out1, s1)"
    using assms(2) seg_feeds_new [OF assms(1)] by (simp add: seg_feed_def cfg)
  have "seg_inv vad 0 (?s\<lparr>sg_buf := concat ds\<rparr>)"
    using new_segmenter_inv [OF assms(1), of vad] by (auto simp: seg_inv_buf)
  from feed_loop_spec [OF this fb] obtain ps where ps: "emits vad 0 ?s out1 s1" "sg_shown s1 = ps"
    "concat ps @ sg_buf s1 = concat ds" "\<forall>p \<in> set ps. length p = gc_frame_ms c * SEG_BYTES_PER_MS"
    by (auto simp: emits_buf cfg frame_bytes_def)
  have "seg_inv vad (last_end 0 out1) s1" using ps(1) by (simp add: emits_def)
  note fl = seg_flush_spec [OF this assms(3)]
  have e: "emits vad 0 ?s (out1 @ out2) s2"
    by (rule emits_trans [OF ps(1), of _ _ "[]"]) (use fl in auto)
  have "0 < gc_frame_ms c" using assms(1) by (simp add: cfg_ok_def)
  then have "\<forall>x \<in> set (out1 @ out2).
        sp_pcm x = take ((sp_end_ms x - sp_start_ms x) * SEG_BYTES_PER_MS)
                     (drop (sp_start_ms x * SEG_BYTES_PER_MS) (concat ds)) \<and>
        sp_start_ms x < sp_end_ms x \<and> sp_end_ms x * SEG_BYTES_PER_MS \<le> length (concat ds) \<and>
        sp_end_ms x - sp_start_ms x \<le> gc_max_ms c \<and> gc_min_speech_ms c \<le> sp_speech_ms x"
    using e fl ps(2) covers_stream [OF _ ps(4,3)] cfg(1) unfolding emits_def by metis
  moreover have "overlap_ms ?s = ceil_div (gc_overlap_ms c) (gc_frame_ms c) * gc_frame_ms c"
    by (simp add: overlap_ms_def overlap_frames_def cfg)
  ultimately show ?thesis using e unfolding emits_def by simp
qed

definition tiny_seg_config :: seg_config where
  "tiny_seg_config = \<lparr>gc_frame_ms = 1, gc_close_silence_ms = 2, gc_max_ms = 4, gc_overlap_ms = 1, gc_min_speech_ms = 1\<rparr>"

theorem segments_cover_stream_witness:
  "\<exists>x s1 s2. seg_feeds always_speech (new_segmenter tiny_seg_config) [replicate 64 7] = ([], s1) \<and>
     seg_flush s1 = ([x], s2) \<and> sp_pcm x = replicate 64 7 \<and> sp_end_ms x = 2"
proof -
  have ok: "cfg_ok tiny_seg_config" by (simp add: cfg_ok_def tiny_seg_config_def ceil_div_def)
  obtain out1 s1 where 1: "seg_feeds always_speech (new_segmenter tiny_seg_config) [replicate 64 7] = (out1, s1)"
    by fastforce
  obtain out2 s2 where 2: "seg_flush s1 = (out2, s2)" by fastforce
  have "fst (seg_feeds always_speech (new_segmenter tiny_seg_config) [replicate 64 7]) = [] \<and>
    map (\<lambda>x. (sp_start_ms x, sp_end_ms x))
      (fst (seg_flush (snd (seg_feeds always_speech (new_segmenter tiny_seg_config) [replicate 64 7])))) = [(0, 2)]"
    by code_simp
  then have "out1 = [] \<and> map (\<lambda>x. (sp_start_ms x, sp_end_ms x)) out2 = [(0, 2)]"
    by (simp only: 1 2 fst_conv snd_conv)
  then obtain x where x: "out1 = []" "out2 = [x]" "sp_start_ms x = 0" "sp_end_ms x = 2" by auto
  then have "sp_pcm x = replicate 64 7"
    using segments_cover_stream [OF ok 1 2] by (simp add: SEG_BYTES_PER_MS_def)
  with 1 2 x show ?thesis by blast
qed

section \<open>No overlap\<close>

text \<open>
  With an overlap of 0 the slice \<open>[-0:]\<close> keeps the whole segment instead of none of it: a
  segment that reached its maximum is emitted but stays open, at the same start, and goes on
  growing.
\<close>

lemma overlap_zero_never_cuts:
  assumes "gc_overlap_ms (sg_cfg s) = 0" "trailing_silence (sg_open s) < close_frames s"
    "max_frames s \<le> length (sg_open s)" "sg_seen s = sg_open_start s + length (sg_open s)"
  shows "snd (push_opened s) = s\<lparr>sg_carry := length (sg_open s)\<rparr>"
  using assms by (cases s) (simp add: push_opened_def Let_def last_slice_def overlap_frames_def ceil_div_def)

end
