(* ===== verification/PyText.thy ===== *)
theory PyText
  imports Prelude_JV
begin

text \<open>
  The string methods of Python the program uses, on strings whose characters are below 256
  (\<open>string\<close> is a list of 8-bit characters; the classification and the case mapping are those of
  Unicode on this range): \<open>lower\<close>, \<open>strip\<close>, \<open>split\<close>, \<open>join\<close>, \<open>startswith\<close>, \<open>in\<close> and the
  character classes of \<open>re\<close>.
\<close>

section \<open>Characters\<close>

abbreviation code :: "char \<Rightarrow> nat" where "code c \<equiv> of_char c"

definition is_space :: "char \<Rightarrow> bool" where
  "is_space c \<longleftrightarrow> (let n = code c in 9 \<le> n \<and> n \<le> 13 \<or> 28 \<le> n \<and> n \<le> 32 \<or> n = 133 \<or> n = 160)"

definition is_upper :: "char \<Rightarrow> bool" where
  "is_upper c \<longleftrightarrow> (let n = code c in 65 \<le> n \<and> n \<le> 90 \<or> 192 \<le> n \<and> n \<le> 222 \<and> n \<noteq> 215)"

definition is_digit :: "char \<Rightarrow> bool" where
  "is_digit c \<longleftrightarrow> 48 \<le> code c \<and> code c \<le> 57"

definition is_alnum :: "char \<Rightarrow> bool" where
  "is_alnum c \<longleftrightarrow> (let n = code c in
     is_digit c \<or> is_upper c \<or> 97 \<le> n \<and> n \<le> 122 \<or> 223 \<le> n \<and> n \<le> 255 \<and> n \<noteq> 247 \<or>
     n \<in> {170, 178, 179, 181, 185, 186, 188, 189, 190})"

definition lower_char :: "char \<Rightarrow> char" where
  "lower_char c = (if is_upper c then char_of (code c + 32) else c)"

text \<open>The class \<open>\w\<close> of \<open>re\<close>.\<close>

definition is_word :: "char \<Rightarrow> bool" where
  "is_word c \<longleftrightarrow> is_alnum c \<or> c = CHR ''_''"

section \<open>Strings\<close>

definition lower :: "string \<Rightarrow> string" where "lower = map lower_char"

definition lstrip :: "string \<Rightarrow> string" where "lstrip = dropWhile is_space"

definition strip :: "string \<Rightarrow> string" where
  "strip s = rev (dropWhile is_space (rev (dropWhile is_space s)))"

text \<open>\<open>split()\<close>: the maximal runs of non-space characters.\<close>

function split_ws :: "string \<Rightarrow> string list" where
  "split_ws s = (case dropWhile is_space s of [] \<Rightarrow> []
     | c # cs \<Rightarrow> (c # takeWhile (\<lambda>x. \<not> is_space x) cs) # split_ws (dropWhile (\<lambda>x. \<not> is_space x) cs))"
  by auto
termination
proof (relation "measure length")
  fix s c cs
  assume "dropWhile is_space s = c # cs"
  then have "length (c # cs) \<le> length s" by (metis length_dropWhile_le)
  then show "(dropWhile (\<lambda>x. \<not> is_space x) cs, s) \<in> measure length"
    using length_dropWhile_le [of "\<lambda>x. \<not> is_space x" cs] by simp
qed simp

declare split_ws.simps [simp del]

fun join :: "string \<Rightarrow> string list \<Rightarrow> string" where
  "join sep [] = []"
| "join sep [x] = x"
| "join sep (x # y # ys) = x @ sep @ join sep (y # ys)"

text \<open>\<open>s.split(sep)\<close> for a separator of one character.\<close>

fun split_on :: "char \<Rightarrow> string \<Rightarrow> string list" where
  "split_on d [] = [[]]"
| "split_on d (c # cs) =
     (if c = d then [] # split_on d cs
      else case split_on d cs of [] \<Rightarrow> [[c]] | w # ws \<Rightarrow> (c # w) # ws)"

fun startswith :: "string \<Rightarrow> string \<Rightarrow> bool" where
  "startswith s [] = True"
| "startswith [] (p # ps) = False"
| "startswith (c # cs) (p # ps) = (c = p \<and> startswith cs ps)"

text \<open>\<open>p in s\<close>.\<close>

fun contains :: "string \<Rightarrow> string \<Rightarrow> bool" where
  "contains [] p = (p = [])"
| "contains (c # cs) p = (startswith (c # cs) p \<or> contains cs p)"

section \<open>Lemmas\<close>

lemma lower_char_idem [simp]: "lower_char (lower_char c) = lower_char c"
proof (cases "is_upper c")
  case True
  then have b: "code c + 32 < 256" "\<not> (65 \<le> code c + 32 \<and> code c + 32 \<le> 90)"
    "\<not> (192 \<le> code c + 32 \<and> code c + 32 \<le> 222 \<and> code c + 32 \<noteq> 215)"
    by (auto simp: is_upper_def Let_def)
  then have "code (char_of (code c + 32)) = code c + 32" by (simp add: of_char_of)
  with b have "\<not> is_upper (char_of (code c + 32))" by (simp add: is_upper_def Let_def)
  with True show ?thesis by (simp add: lower_char_def)
qed (simp add: lower_char_def)

lemma lower_idem [simp]: "lower (lower s) = lower s"
  by (simp add: lower_def)

text \<open>Words: non-empty, without spaces.\<close>

definition is_token :: "string \<Rightarrow> bool" where
  "is_token w \<longleftrightarrow> w \<noteq> [] \<and> (\<forall>c \<in> set w. \<not> is_space c)"

lemma split_ws_Nil [simp]: "split_ws [] = []"
  by (simp add: split_ws.simps)

lemma split_ws_token: "w \<in> set (split_ws s) \<Longrightarrow> is_token w"
proof (induction s rule: split_ws.induct)
  case (1 s)
  show ?case
  proof (cases "dropWhile is_space s")
    case Nil
    with 1 show ?thesis by (simp add: split_ws.simps [of s])
  next
    case (Cons c cs)
    then have "\<not> is_space c" by (metis hd_dropWhile list.distinct(1) list.sel(1))
    have "split_ws s = (c # takeWhile (\<lambda>x. \<not> is_space x) cs) # split_ws (dropWhile (\<lambda>x. \<not> is_space x) cs)"
      by (subst split_ws.simps) (simp add: Cons)
    with "1.prems" have "w = c # takeWhile (\<lambda>x. \<not> is_space x) cs \<or> w \<in> set (split_ws (dropWhile (\<lambda>x. \<not> is_space x) cs))"
      by simp
    moreover have "is_token (c # takeWhile (\<lambda>x. \<not> is_space x) cs)"
      using \<open>\<not> is_space c\<close> by (simp add: is_token_def) (blast dest: set_takeWhileD)
    ultimately show ?thesis using "1.IH" [OF Cons] by blast
  qed
qed

lemma split_ws_word:
  assumes "is_token w" "is_space d"
  shows "split_ws (w @ d # s) = w # split_ws (d # s)" "split_ws w = [w]"
proof -
  obtain c cs where w: "w = c # cs" "\<not> is_space c" "\<forall>x \<in> set cs. \<not> is_space x"
    using assms(1) by (cases w) (auto simp: is_token_def)
  then have "takeWhile (\<lambda>x. \<not> is_space x) (cs @ d # s) = cs"
    "dropWhile (\<lambda>x. \<not> is_space x) (cs @ d # s) = d # s"
    using assms(2) by (simp_all add: takeWhile_append dropWhile_append3)
  then show "split_ws (w @ d # s) = w # split_ws (d # s)"
    using w by (subst split_ws.simps) simp
  have t: "takeWhile (\<lambda>x. \<not> is_space x) cs = cs" "dropWhile (\<lambda>x. \<not> is_space x) cs = []"
    using w(3) by (simp_all add: takeWhile_eq_all_conv)
  show "split_ws w = [w]"
    by (subst split_ws.simps) (simp add: w(1,2) t)
qed

lemma split_ws_space: "is_space d \<Longrightarrow> split_ws (d # s) = split_ws s"
  by (subst (1 2) split_ws.simps) simp

lemma space_is_space [simp]: "is_space CHR '' ''"
  by (simp add: is_space_def Let_def)

lemma split_join: "\<forall>w \<in> set ws. is_token w \<Longrightarrow> split_ws (join '' '' ws) = ws"
proof (induction "'' ''" ws rule: join.induct)
  case (3 x y ys)
  then show ?case using split_ws_word(1) [of x "CHR '' ''" "join '' '' (y # ys)"]
    by (simp add: split_ws_space)
qed (simp_all add: split_ws_word(2) [OF _ space_is_space])

lemma lower_char_space: "is_space (lower_char c) = is_space c"
proof (cases "is_upper c")
  case True
  then have "code c + 32 < 256" "97 \<le> code c + 32 \<and> code c + 32 \<le> 122 \<or> 224 \<le> code c + 32"
    by (auto simp: is_upper_def Let_def)
  then have "\<not> is_space (char_of (code c + 32))" by (auto simp: is_space_def Let_def of_char_of)
  moreover have "\<not> is_space c" using True by (auto simp: is_space_def is_upper_def Let_def)
  ultimately show ?thesis using True by (simp add: lower_char_def)
qed (simp add: lower_char_def)

lemma split_ws_chars: "w \<in> set (split_ws s) \<Longrightarrow> set w \<subseteq> set s"
proof (induction s rule: split_ws.induct)
  case (1 s)
  show ?case
  proof (cases "dropWhile is_space s")
    case Nil
    with "1.prems" show ?thesis by (simp add: split_ws.simps [of s])
  next
    case (Cons c cs)
    have sub: "set (c # cs) \<subseteq> set s" using Cons set_dropWhileD by (metis subsetI)
    have "split_ws s = (c # takeWhile (\<lambda>x. \<not> is_space x) cs) # split_ws (dropWhile (\<lambda>x. \<not> is_space x) cs)"
      by (subst split_ws.simps) (simp add: Cons)
    with "1.prems" have "w = c # takeWhile (\<lambda>x. \<not> is_space x) cs \<or> w \<in> set (split_ws (dropWhile (\<lambda>x. \<not> is_space x) cs))"
      by simp
    moreover have "set (takeWhile (\<lambda>x. \<not> is_space x) cs) \<subseteq> set cs" by (blast dest: set_takeWhileD)
    moreover have "set (dropWhile (\<lambda>x. \<not> is_space x) cs) \<subseteq> set cs" by (blast dest: set_dropWhileD)
    ultimately show ?thesis using "1.IH" [OF Cons] sub by fastforce
  qed
qed

lemma set_join: "set (join sep ws) \<subseteq> set sep \<union> \<Union> (set ` set ws)"
  by (induction sep ws rule: join.induct) auto

section \<open>Numbers in text\<close>

definition digit_char :: "nat \<Rightarrow> char" where
  "digit_char n = char_of (48 + n)"

text \<open>\<open>str(n)\<close> for a natural number and for an integer, and \<open>int(s)\<close> of a run of digits.\<close>

fun dec_str :: "nat \<Rightarrow> string" where
  "dec_str n = (if n < 10 then [digit_char n] else dec_str (n div 10) @ [digit_char (n mod 10)])"

declare dec_str.simps [simp del]

definition int_str :: "int \<Rightarrow> string" where
  "int_str i = (if i < 0 then ''-'' @ dec_str (nat (- i)) else dec_str (nat i))"

definition dec_val :: "string \<Rightarrow> nat" where
  "dec_val s = foldl (\<lambda>n c. 10 * n + (code c - 48)) 0 s"

text \<open>\<open>f"{n:02d}"\<close> for a natural number.\<close>

definition pad2 :: "nat \<Rightarrow> string" where
  "pad2 n = (let d = dec_str n in replicate (2 - length d) (CHR ''0'') @ d)"

definition rstrip :: "string \<Rightarrow> string" where
  "rstrip s = rev (dropWhile is_space (rev s))"

text \<open>\<open>s.strip(chars)\<close>, \<open>s.lstrip(chars)\<close> and \<open>s.rstrip(chars)\<close>.\<close>

definition lstrip_of :: "string \<Rightarrow> string \<Rightarrow> string" where
  "lstrip_of chars = dropWhile (\<lambda>c. c \<in> set chars)"

definition rstrip_of :: "string \<Rightarrow> string \<Rightarrow> string" where
  "rstrip_of chars s = rev (lstrip_of chars (rev s))"

text \<open>\<open>" ".join(s.split())\<close>.\<close>

definition squeeze :: "string \<Rightarrow> string" where
  "squeeze s = join '' '' (split_ws s)"

lemma digit_char_code: "n < 10 \<Longrightarrow> code (digit_char n) = 48 + n"
  by (simp add: digit_char_def of_char_of)

lemma is_digit_digit_char [simp]: "n < 10 \<Longrightarrow> is_digit (digit_char n)"
  by (simp add: is_digit_def digit_char_code)

lemma dec_str_digits: "c \<in> set (dec_str n) \<Longrightarrow> is_digit c"
  by (induction n rule: dec_str.induct) (subst (asm) (2) dec_str.simps, auto split: if_splits)

lemma dec_str_ne [simp]: "dec_str n \<noteq> []"
  by (subst dec_str.simps) simp

lemma dec_val_dec_str [simp]: "dec_val (dec_str n) = n"
proof (induction n rule: dec_str.induct)
  case (1 n)
  then show ?case
    by (subst dec_str.simps) (auto simp: dec_val_def digit_char_code)
qed

lemma dec_str_inj [simp]: "dec_str m = dec_str n \<longleftrightarrow> m = n"
  by (metis dec_val_dec_str)

lemma squeeze_idem [simp]: "squeeze (squeeze s) = squeeze s"
  by (metis (no_types) split_join split_ws_token squeeze_def)

lemma join_Nil_iff: "\<forall>w \<in> set ws. w \<noteq> [] \<Longrightarrow> join '' '' ws = [] \<longleftrightarrow> ws = []"
  by (cases "('' '', ws)" rule: join.cases) auto

lemma digit_not_space: "is_digit c \<Longrightarrow> \<not> is_space c"
  by (auto simp: is_digit_def is_space_def Let_def)

end
