(* ===== verification/Guards.thy ===== *)
theory Guards
  imports PyText Complex_Main
begin

text \<open>
  The guards behind speech recognition (\<open>server/src/jarvis_live/stt/guards.py\<close>): stock phrases
  on near-silence, and a mic segment that repeats the system channel. \<open>SequenceMatcher\<close> of the
  standard library is modelled as far as \<open>ratio\<close> needs it. Floats are real numbers.
\<close>

section \<open>Normalisation\<close>

text \<open>\<open>re.sub(r"[^\w\s]", " ", text)\<close>\<close>

definition non_word_to_space :: "string \<Rightarrow> string" where
  "non_word_to_space = map (\<lambda>c. if is_word c \<or> is_space c then c else CHR '' '')"

definition normalize_text :: "string \<Rightarrow> string" where
  "normalize_text text = join '' '' (split_ws (non_word_to_space (lower text)))"

section \<open>Loudness\<close>

text \<open>16-bit little-endian samples, scaled to full scale.\<close>

fun samples :: "bytes \<Rightarrow> int list" where
  "samples (lo # hi # rest) =
     (let n = uint lo + 256 * uint hi in (if n < 32768 then n else n - 65536) # samples rest)"
| "samples _ = []"

definition rms_level :: "bytes \<Rightarrow> real" where
  "rms_level pcm =
     (if pcm = [] then 0
      else let x = map (\<lambda>n. real_of_int n / 32768) (samples pcm)
           in sqrt (sum_list (map (\<lambda>v. v * v) x) / real (length x)))"

definition is_hallucination :: "string \<Rightarrow> real \<Rightarrow> string list \<Rightarrow> real \<Rightarrow> bool" where
  "is_hallucination text rms phrases rms_threshold =
     (if rms \<ge> rms_threshold then False
      else let norm = normalize_text text in \<exists>p \<in> set phrases. p \<noteq> [] \<and> contains norm (normalize_text p))"

section \<open>Similarity\<close>

text \<open>
  \<open>SequenceMatcher(None, a, b).ratio()\<close>: the longest common block, then the same on both sides
  of it. In strings of 200 characters and more, characters making up more than 1\% of \<open>b\<close> do
  not start a block (\<open>popular\<close>), but extend one.
\<close>

definition popular :: "string \<Rightarrow> char \<Rightarrow> bool" where
  "popular b c \<longleftrightarrow> 200 \<le> length b \<and> length b div 100 + 1 < count_list b c"

text \<open>For each position of \<open>b\<close>, how long the match ending there and at the current character of
  \<open>a\<close> is; from the row of the character before.\<close>

fun match_row :: "(char \<Rightarrow> bool) \<Rightarrow> char \<Rightarrow> nat \<Rightarrow> nat list \<Rightarrow> string \<Rightarrow> nat list" where
  "match_row pop x p rs [] = []"
| "match_row pop x p [] (y # ys) = []"
| "match_row pop x p (r # rs) (y # ys) = (if x = y \<and> \<not> pop y then Suc p else 0) # match_row pop x r rs ys"

fun best_in_row :: "nat \<Rightarrow> nat \<Rightarrow> nat list \<Rightarrow> nat \<times> nat \<times> nat \<Rightarrow> nat \<times> nat \<times> nat" where
  "best_in_row i j [] best = best"
| "best_in_row i j (k # ks) best =
     best_in_row i (Suc j) ks (if k > snd (snd best) then (i + 1 - k, j + 1 - k, k) else best)"

fun longest_loop ::
  "(char \<Rightarrow> bool) \<Rightarrow> string \<Rightarrow> nat \<Rightarrow> nat list \<Rightarrow> string \<Rightarrow> nat \<times> nat \<times> nat \<Rightarrow> nat \<times> nat \<times> nat" where
  "longest_loop pop b i row [] best = best"
| "longest_loop pop b i row (x # xs) best =
     (let row' = match_row pop x 0 row b in longest_loop pop b (Suc i) row' xs (best_in_row i 0 row' best))"

fun extend_left :: "string \<Rightarrow> string \<Rightarrow> nat \<Rightarrow> nat \<Rightarrow> nat \<Rightarrow> nat \<times> nat \<times> nat" where
  "extend_left a b (Suc i) (Suc j) k =
     (if a ! i = b ! j then extend_left a b i j (Suc k) else (Suc i, Suc j, k))"
| "extend_left a b i j k = (i, j, k)"

fun common_prefix :: "string \<Rightarrow> string \<Rightarrow> nat" where
  "common_prefix (x # xs) (y # ys) = (if x = y then Suc (common_prefix xs ys) else 0)"
| "common_prefix _ _ = 0"

definition find_longest_match :: "(char \<Rightarrow> bool) \<Rightarrow> string \<Rightarrow> string \<Rightarrow> nat \<times> nat \<times> nat" where
  "find_longest_match pop a b =
     (case longest_loop pop b 0 (replicate (length b) 0) a (0, 0, 0) of (i, j, k) \<Rightarrow>
        case extend_left a b i j k of (i', j', k') \<Rightarrow>
          (i', j', k' + common_prefix (drop (i' + k') a) (drop (j' + k') b)))"

text \<open>
  The total size of the matching blocks. Each call has a shorter \<open>a\<close>, so \<open>length a\<close> as fuel is
  enough.
\<close>

fun matched :: "nat \<Rightarrow> (char \<Rightarrow> bool) \<Rightarrow> string \<Rightarrow> string \<Rightarrow> nat" where
  "matched 0 pop a b = 0"
| "matched (Suc n) pop a b =
     (case find_longest_match pop a b of (i, j, k) \<Rightarrow>
        if k = 0 then 0
        else matched n pop (take i a) (take j b) + k + matched n pop (drop (i + k) a) (drop (j + k) b))"

definition ratio :: "string \<Rightarrow> string \<Rightarrow> real" where
  "ratio a b =
     (let len = length a + length b in
      if len = 0 then 1 else 2 * real (matched (length a) (popular b) a b) / real len)"

section \<open>Echo of the system channel\<close>

record span =
  sn_start_ms :: int
  sn_end_ms :: int
  sn_text :: string

definition overlap_ratio :: "int \<Rightarrow> int \<Rightarrow> int \<Rightarrow> int \<Rightarrow> real" where
  "overlap_ratio a_start a_end b_start b_end =
     (let dur = a_end - a_start in
      if dur \<le> 0 then 0
      else real_of_int (max 0 (min a_end b_end - max a_start b_start)) / real_of_int dur)"

fun is_duplicate_of :: "span \<Rightarrow> span list \<Rightarrow> real \<Rightarrow> real \<Rightarrow> bool" where
  "is_duplicate_of mic [] min_overlap min_similarity = False"
| "is_duplicate_of mic (s # ss) min_overlap min_similarity =
     (if overlap_ratio (sn_start_ms mic) (sn_end_ms mic) (sn_start_ms s) (sn_end_ms s) \<le> min_overlap
      then is_duplicate_of mic ss min_overlap min_similarity
      else if ratio (normalize_text (sn_text mic)) (normalize_text (sn_text s)) > min_similarity then True
      else is_duplicate_of mic ss min_overlap min_similarity)"

section \<open>Facts\<close>

lemma matched_samples:
  "matched 4 (popular ''bcde'') ''abcd'' ''bcde'' = 3" "matched 5 (popular ''abcd'') ''abxcd'' ''abcd'' = 4"
  by code_simp+

lemma normalize_chars:
  assumes "w \<in> set (split_ws (non_word_to_space (lower x)))"
  shows "is_token w \<and> (\<forall>c \<in> set w. is_word c \<and> lower_char c = c)"
proof -
  note t = split_ws_token [OF assms]
  have "is_word c \<and> lower_char c = c" if "c \<in> set w" for c
  proof -
    have ns: "\<not> is_space c" using t that by (auto simp: is_token_def)
    from that split_ws_chars [OF assms] obtain d where d: "d \<in> set (lower x)"
      "c = (if is_word d \<or> is_space d then d else CHR '' '')"
      by (auto simp: non_word_to_space_def)
    with ns have "c = d" "is_word d" by (auto split: if_splits)
    moreover obtain d' where "d = lower_char d'" using d(1) by (auto simp: lower_def)
    ultimately show ?thesis by simp
  qed
  with t show ?thesis by blast
qed

text \<open>
  Normalising gives a canonical form: words of lower-case word characters with one space
  between them, and normalising it again changes nothing. So the duplicate guard and the
  stock-phrase filter compare texts up to case, punctuation and spacing.
\<close>

theorem normalize_canonical:
  "normalize_text (normalize_text x) = normalize_text x \<and>
   split_ws (normalize_text x) = split_ws (non_word_to_space (lower x)) \<and>
   (\<forall>w \<in> set (split_ws (normalize_text x)). w \<noteq> [] \<and> (\<forall>c \<in> set w. is_word c \<and> lower_char c = c))"
proof -
  define ws where "ws = split_ws (non_word_to_space (lower x))"
  have n: "normalize_text x = join '' '' ws" by (simp add: normalize_text_def ws_def)
  have ws: "\<forall>w \<in> set ws. is_token w \<and> (\<forall>c \<in> set w. is_word c \<and> lower_char c = c)"
    using normalize_chars by (simp add: ws_def)
  then have sp: "split_ws (normalize_text x) = ws" unfolding n by (intro split_join) blast
  have sl: "lower_char CHR '' '' = CHR '' ''" by (simp add: lower_char_def is_upper_def Let_def)
  have ch: "(is_word c \<or> is_space c) \<and> lower_char c = c" if "c \<in> set (normalize_text x)" for c
    using that set_join [of "'' ''" ws] ws sl unfolding n by fastforce
  have "lower (normalize_text x) = normalize_text x"
    unfolding lower_def using ch by (intro map_idI) blast
  moreover have "non_word_to_space (normalize_text x) = normalize_text x"
    unfolding non_word_to_space_def using ch by (intro map_idI) simp
  ultimately have "normalize_text (normalize_text x) = normalize_text x"
    unfolding normalize_text_def [of "normalize_text x"] using sp n by simp
  then show ?thesis using sp ws ws_def by (simp add: is_token_def)
qed

theorem normalize_canonical_witness:
  "normalize_text ''  Hello,  WORLD! '' = ''hello world'' \<and> normalize_text ''hello world'' = ''hello world'' \<and>
   split_ws ''hello world'' = split_ws (non_word_to_space (lower ''  Hello,  WORLD! ''))"
proof -
  have e: "normalize_text ''  Hello,  WORLD! '' = ''hello world''" by code_simp
  from normalize_canonical [of "''  Hello,  WORLD! ''"] show ?thesis unfolding e by blast
qed

lemma is_duplicate_of_iff:
  "is_duplicate_of mic ss min_overlap min_similarity \<longleftrightarrow>
     (\<exists>s \<in> set ss. min_overlap < overlap_ratio (sn_start_ms mic) (sn_end_ms mic) (sn_start_ms s) (sn_end_ms s) \<and>
        min_similarity < ratio (normalize_text (sn_text mic)) (normalize_text (sn_text s)))"
  by (induction ss) auto

end
