(* ===== verification/ServerStore.thy ===== *)
theory ServerStore
  imports Protocol
begin

text \<open>
  The server's durable audio store (\<open>server/src/jarvis_live/ingest/store.py\<close>): per channel
  one append-only PCM file and an index of chunks in the database. The file contents and the
  chunk rows are part of the state, so that \<open>load\<close> after a crash is a function of what was
  left. Whether the database commits is a parameter of \<open>append\<close>; time is a real number of
  seconds.
\<close>

section \<open>State\<close>

fun channel_of :: "int \<Rightarrow> channel_name option" where
  "channel_of i = (if i = CHANNEL_MIC then Some Mic
                   else if i = CHANNEL_SYSTEM then Some System else None)"

datatype speaker = Me | Them

fun speaker_of :: "channel_name \<Rightarrow> speaker" where
  "speaker_of Mic = Me"
| "speaker_of System = Them"

datatype store_error =
    SeqGap channel_name int int
  | StoreClosed
  | CommitFailed
  | UnknownStoreChannel int
  | IndexBeyondFile channel_name nat nat

datatype append_outcome = Stored | Duplicate

record chunk =
  ck_seq :: int
  ck_t_ms :: int
  ck_offset :: nat
  ck_len :: nat

record store =
  st_files :: "channel_name \<Rightarrow> bytes"
  st_rows :: "channel_name \<Rightarrow> chunk list"
  st_offset :: "channel_name \<Rightarrow> nat"
  st_last :: "channel_name \<Rightarrow> int option"
  st_dirty_fsync :: bool
  st_last_fsync :: real
  st_fsync_interval :: real
  st_closed :: bool

section \<open>Loading\<close>

text \<open>
  \<open>ORDER BY seq DESC LIMIT 1\<close> over the channel's rows: the row with the greatest sequence
  number.
\<close>

fun last_row :: "chunk list \<Rightarrow> chunk option" where
  "last_row [] = None"
| "last_row (r # rs) =
     (case last_row rs of None \<Rightarrow> Some r
      | Some x \<Rightarrow> Some (if ck_seq x < ck_seq r then r else x))"

definition load_channel :: "store \<Rightarrow> channel_name \<Rightarrow> store_error + store" where
  "load_channel s c =
     (let tail = last_row (st_rows s c);
          seq = map_option ck_seq tail;
          end1 = (case tail of None \<Rightarrow> 0 | Some r \<Rightarrow> ck_offset r + ck_len r);
          size1 = length (st_files s c)
      in if size1 < end1 then Inl (IndexBeyondFile c size1 end1)
         else Inr (s\<lparr>st_files := (st_files s)(c := take end1 (st_files s c)),
                     st_last := (st_last s)(c := seq), st_offset := (st_offset s)(c := end1)\<rparr>))"

text \<open>\<open>load\<close> over both channels in the order of \<open>CHANNELS\<close>; an error leaves what was done.\<close>

definition load_store :: "store \<Rightarrow> store_error option \<times> store" where
  "load_store s =
     (case load_channel s Mic of
        Inl e \<Rightarrow> (Some e, s)
      | Inr s1 \<Rightarrow> (case load_channel s1 System of Inl e \<Rightarrow> (Some e, s1) | Inr s2 \<Rightarrow> (None, s2)))"

text \<open>A new \<open>AudioStore\<close> over the files and rows a previous process left.\<close>

definition new_store :: "real \<Rightarrow> real \<Rightarrow> (channel_name \<Rightarrow> bytes) \<Rightarrow> (channel_name \<Rightarrow> chunk list) \<Rightarrow> store" where
  "new_store now interval files rows =
     \<lparr>st_files = files, st_rows = rows, st_offset = (\<lambda>_. 0), st_last = (\<lambda>_. None),
      st_dirty_fsync = False, st_last_fsync = now, st_fsync_interval = interval, st_closed = False\<rparr>"

section \<open>Appending\<close>

definition store_cursor :: "store \<Rightarrow> cursor" where
  "store_cursor s = \<lparr>cur_mic = st_last s Mic, cur_system = st_last s System\<rparr>"

text \<open>
  \<open>maybe_fsync\<close>: whether the files are synced now, and the state after. At most once per
  interval unless forced.
\<close>

definition maybe_fsync :: "real \<Rightarrow> bool \<Rightarrow> store \<Rightarrow> bool \<times> store" where
  "maybe_fsync now force s =
     (if \<not> st_dirty_fsync s \<or> (\<not> force \<and> now - st_last_fsync s < st_fsync_interval s) then (False, s)
      else (True, s\<lparr>st_dirty_fsync := False, st_last_fsync := now\<rparr>))"

text \<open>
  The file is written before the row is committed. \<open>written\<close> is the state between the two;
  when the commit raises, the file is truncated back to the offset the append started from. The
  database is not under \<open>src/\<close>: it may commit, fail without committing, or commit and lose
  the reply (a dropped connection, a cancelled task), in which case the code sees an exception.
\<close>

definition written :: "store \<Rightarrow> channel_name \<Rightarrow> bytes \<Rightarrow> store" where
  "written s c pcm = s\<lparr>st_files := (st_files s)(c := st_files s c @ pcm)\<rparr>"

datatype commit_result = CommitOk | CommitFails | CommitReplyLost

definition chunk_row :: "store \<Rightarrow> channel_name \<Rightarrow> frame \<Rightarrow> chunk" where
  "chunk_row s c f = \<lparr>ck_seq = fr_seq f, ck_t_ms = fr_t_ms f, ck_offset = st_offset s c,
                      ck_len = length (fr_pcm f)\<rparr>"

definition add_row :: "store \<Rightarrow> channel_name \<Rightarrow> chunk \<Rightarrow> store" where
  "add_row s c r = s\<lparr>st_rows := (st_rows s)(c := st_rows s c @ [r])\<rparr>"

definition rolled_back :: "store \<Rightarrow> channel_name \<Rightarrow> nat \<Rightarrow> store" where
  "rolled_back s c offset = s\<lparr>st_files := (st_files s)(c := take offset (st_files s c))\<rparr>"

definition store_append ::
  "commit_result \<Rightarrow> real \<Rightarrow> store \<Rightarrow> frame \<Rightarrow> (store_error + append_outcome) \<times> store" where
  "store_append commits now s f =
     (case channel_of (fr_channel f) of
        None \<Rightarrow> (Inl (UnknownStoreChannel (fr_channel f)), s)
      | Some c \<Rightarrow>
        if st_closed s then (Inl StoreClosed, s)
        else let last1 = st_last s c;
                 expected = (case last1 of None \<Rightarrow> 0 | Some l \<Rightarrow> l + 1)
          in if last1 \<noteq> None \<and> fr_seq f \<le> the last1 then (Inr Duplicate, s)
             else if fr_seq f \<noteq> expected then (Inl (SeqGap c expected (fr_seq f)), s)
             else let offset = st_offset s c; w = written s c (fr_pcm f); r = chunk_row s c f in
               case commits of
                 CommitFails \<Rightarrow> (Inl CommitFailed, rolled_back w c offset)
               | CommitReplyLost \<Rightarrow> (Inl CommitFailed, rolled_back (add_row w c r) c offset)
               | CommitOk \<Rightarrow> (Inr Stored, snd (maybe_fsync now False
                      ((add_row w c r)\<lparr>st_offset := (st_offset w)(c := offset + length (fr_pcm f)),
                         st_last := (st_last w)(c := Some (fr_seq f)),
                         st_dirty_fsync := True\<rparr>))))"

definition close_store :: "real \<Rightarrow> store \<Rightarrow> store" where
  "close_store now s = snd (maybe_fsync now True (s\<lparr>st_closed := True\<rparr>))"

section \<open>Other rows of a session\<close>

text \<open>
  \<open>save_marker\<close> inserts unless the (session, time, label) row is already there, so that a
  client may send a marker again; \<open>save_draft\<close> always inserts; a local-only session is never
  marked as waiting for transcription.
\<close>

definition save_marker :: "marker list \<Rightarrow> marker \<Rightarrow> marker list" where
  "save_marker rows m = (if m \<in> set rows then rows else rows @ [m])"

datatype segment_source = FromDraft | FromFinal

record segment_row =
  sr_channel :: channel_name
  sr_speaker :: speaker
  sr_start_ms :: int
  sr_end_ms :: int
  sr_text :: string
  sr_source :: segment_source
  sr_tier :: "string option"

definition save_draft :: "segment_row list \<Rightarrow> draft_segment \<Rightarrow> segment_row list" where
  "save_draft rows d = rows @
     [\<lparr>sr_channel = ds_channel d, sr_speaker = speaker_of (ds_channel d), sr_start_ms = ds_start_ms d,
       sr_end_ms = ds_end_ms d, sr_text = ds_text d, sr_source = FromDraft, sr_tier = None\<rparr>]"

record session_flags =
  sf_local_only :: bool
  sf_pending :: bool

definition mark_transcription_pending :: "session_flags \<Rightarrow> session_flags" where
  "mark_transcription_pending row = (if \<not> sf_local_only row then row\<lparr>sf_pending := True\<rparr> else row)"

section \<open>The invariant\<close>

fun chunks_tiled :: "int \<Rightarrow> nat \<Rightarrow> chunk list \<Rightarrow> bool" where
  "chunks_tiled n off [] = True"
| "chunks_tiled n off (r # rs) =
     (ck_seq r = n \<and> ck_offset r = off \<and> chunks_tiled (n + 1) (off + ck_len r) rs)"

abbreviation chunk_bytes :: "chunk list \<Rightarrow> nat" where
  "chunk_bytes rs \<equiv> sum_list (map ck_len rs)"

text \<open>
  On disk: the rows of a channel number the chunks from 0 without gaps and tile the file from
  its start; the file may hold more bytes than the rows cover.
\<close>

definition disk_ok :: "store \<Rightarrow> bool" where
  "disk_ok s \<longleftrightarrow> (\<forall>c. chunks_tiled 0 0 (st_rows s c) \<and> chunk_bytes (st_rows s c) \<le> length (st_files s c))"

definition store_wf :: "store \<Rightarrow> bool" where
  "store_wf s \<longleftrightarrow> (\<forall>c. chunks_tiled 0 0 (st_rows s c) \<and>
     length (st_files s c) = chunk_bytes (st_rows s c) \<and> st_offset s c = chunk_bytes (st_rows s c) \<and>
     st_last s c = (if st_rows s c = [] then None else Some (int (length (st_rows s c)) - 1)))"

text \<open>The frames a channel holds, read through the index.\<close>

definition chunk_frame :: "bytes \<Rightarrow> chunk \<Rightarrow> int \<times> int \<times> bytes" where
  "chunk_frame file r = (ck_seq r, ck_t_ms r, take (ck_len r) (drop (ck_offset r) file))"

definition stored_frames :: "store \<Rightarrow> channel_name \<Rightarrow> (int \<times> int \<times> bytes) list" where
  "stored_frames s c = map (chunk_frame (st_files s c)) (st_rows s c)"

lemma chunks_tiled_snoc:
  "chunks_tiled n off (rs @ [r]) \<longleftrightarrow>
     chunks_tiled n off rs \<and> ck_seq r = n + int (length rs) \<and> ck_offset r = off + chunk_bytes rs"
  by (induction rs arbitrary: n off) (auto simp: add.assoc)

lemma chunks_tiled_bounds:
  "chunks_tiled n off rs \<Longrightarrow> r \<in> set rs \<Longrightarrow> ck_offset r + ck_len r \<le> off + chunk_bytes rs"
  by (induction rs arbitrary: n off) fastforce+

lemma chunks_tiled_seqs:
  "chunks_tiled n off rs \<Longrightarrow> r \<in> set rs \<Longrightarrow> n \<le> ck_seq r \<and> ck_seq r < n + int (length rs)"
  by (induction rs arbitrary: n off) fastforce+

lemma last_row_tiled:
  "chunks_tiled n off rs \<Longrightarrow> rs \<noteq> [] \<Longrightarrow>
     \<exists>r. last_row rs = Some r \<and> ck_seq r = n + int (length rs) - 1 \<and>
         ck_offset r + ck_len r = off + chunk_bytes rs"
proof (induction rs arbitrary: n off)
  case (Cons r rs)
  show ?case
  proof (cases "rs = []")
    case False
    have "chunks_tiled (n + 1) (off + ck_len r) rs" using Cons.prems by simp
    from Cons.IH [OF this False] obtain x where x: "last_row rs = Some x"
      "ck_seq x = n + 1 + int (length rs) - 1" "ck_offset x + ck_len x = off + ck_len r + chunk_bytes rs"
      by blast
    moreover have "ck_seq r = n" using Cons.prems by simp
    ultimately show ?thesis by auto
  qed (use Cons.prems in simp)
qed simp

lemma chunk_frame_grow:
  "ck_offset r + ck_len r \<le> length file \<Longrightarrow> chunk_frame (file @ x) r = chunk_frame file r"
  by (simp add: chunk_frame_def)

lemma chunk_frame_take:
  "ck_offset r + ck_len r \<le> n \<Longrightarrow> chunk_frame (take n file) r = chunk_frame file r"
  by (simp add: chunk_frame_def drop_take min_def)

lemma maybe_fsync_frame [simp]:
  "st_files (snd (maybe_fsync now force s)) = st_files s"
  "st_rows (snd (maybe_fsync now force s)) = st_rows s"
  "st_offset (snd (maybe_fsync now force s)) = st_offset s"
  "st_last (snd (maybe_fsync now force s)) = st_last s"
  "st_closed (snd (maybe_fsync now force s)) = st_closed s"
  "st_fsync_interval (snd (maybe_fsync now force s)) = st_fsync_interval s"
  by (simp_all add: maybe_fsync_def)

lemma update_frame [simp]:
  "st_rows (add_row s c r) = (st_rows s)(c := st_rows s c @ [r])"
  "st_files (add_row s c r) = st_files s" "st_offset (add_row s c r) = st_offset s"
  "st_last (add_row s c r) = st_last s" "st_closed (add_row s c r) = st_closed s"
  "st_rows (written s c pcm) = st_rows s"
  "st_files (written s c pcm) = (st_files s)(c := st_files s c @ pcm)"
  "st_offset (written s c pcm) = st_offset s" "st_last (written s c pcm) = st_last s"
  "st_closed (written s c pcm) = st_closed s"
  by (simp_all add: add_row_def written_def)

section \<open>Appending\<close>

definition next_index :: "store \<Rightarrow> channel_name \<Rightarrow> int" where
  "next_index s c = int (length (st_rows s c))"

lemma store_wf_last:
  "store_wf s \<Longrightarrow> (case st_last s c of None \<Rightarrow> 0 | Some l \<Rightarrow> l + 1) = next_index s c"
  by (auto simp: store_wf_def next_index_def)

lemma store_append_new:
  assumes "store_wf s" "channel_of (fr_channel f) = Some c" "\<not> st_closed s"
    "fr_seq f = next_index s c"
  shows "fst (store_append CommitOk now s f) = Inr Stored"
    and "store_wf (snd (store_append CommitOk now s f))"
    and "stored_frames (snd (store_append CommitOk now s f)) c =
           stored_frames s c @ [(fr_seq f, fr_t_ms f, fr_pcm f)]"
    and "d \<noteq> c \<Longrightarrow> stored_frames (snd (store_append CommitOk now s f)) d = stored_frames s d"
    and "st_closed (snd (store_append CommitOk now s f)) = st_closed s"
    and "next_index (snd (store_append CommitOk now s f)) c = next_index s c + 1"
proof -
  let ?t = "(add_row (written s c (fr_pcm f)) c (chunk_row s c f))
              \<lparr>st_offset := (st_offset s)(c := st_offset s c + length (fr_pcm f)),
               st_last := (st_last s)(c := Some (fr_seq f)), st_dirty_fsync := True\<rparr>"
  have nd: "\<not> (st_last s c \<noteq> None \<and> fr_seq f \<le> the (st_last s c))"
    using assms(1,4) by (auto simp: store_wf_def next_index_def split: if_splits)
  have eq: "store_append CommitOk now s f = (Inr Stored, snd (maybe_fsync now False ?t))"
    using assms(2,3,4) nd store_wf_last [OF assms(1), of c]
    by (simp add: store_append_def Let_def written_def del: channel_of.simps)
  show "fst (store_append CommitOk now s f) = Inr Stored" by (simp add: eq)
  show "store_wf (snd (store_append CommitOk now s f))"
    using assms(1,4) by (simp add: eq store_wf_def chunks_tiled_snoc chunk_row_def next_index_def)
  have "map (chunk_frame (st_files s c @ fr_pcm f)) (st_rows s c) = map (chunk_frame (st_files s c)) (st_rows s c)"
    using assms(1) chunks_tiled_bounds [of 0 0 "st_rows s c"]
    by (auto simp: store_wf_def intro!: chunk_frame_grow)
  then show "stored_frames (snd (store_append CommitOk now s f)) c =
           stored_frames s c @ [(fr_seq f, fr_t_ms f, fr_pcm f)]"
    using assms(1)
    by (simp add: stored_frames_def eq) (simp add: chunk_frame_def chunk_row_def store_wf_def)
  show "d \<noteq> c \<Longrightarrow> stored_frames (snd (store_append CommitOk now s f)) d = stored_frames s d"
    by (simp add: stored_frames_def eq)
  show "st_closed (snd (store_append CommitOk now s f)) = st_closed s"
    by (simp add: eq)
  show "next_index (snd (store_append CommitOk now s f)) c = next_index s c + 1"
    by (simp add: next_index_def eq)
qed

lemma store_append_duplicate:
  assumes "store_wf s" "channel_of (fr_channel f) = Some c" "\<not> st_closed s" "fr_seq f < next_index s c"
    "0 \<le> fr_seq f"
  shows "store_append commits now s f = (Inr Duplicate, s)"
  using assms by (auto simp: store_append_def Let_def store_wf_def next_index_def simp del: channel_of.simps)

lemma store_append_gap:
  assumes "store_wf s" "channel_of (fr_channel f) = Some c" "\<not> st_closed s" "next_index s c < fr_seq f"
  shows "store_append commits now s f = (Inl (SeqGap c (next_index s c) (fr_seq f)), s)"
  using assms store_wf_last [OF assms(1), of c]
  by (auto simp: store_append_def Let_def store_wf_def next_index_def simp del: channel_of.simps)

lemma store_append_failed:
  assumes "store_wf s" "channel_of (fr_channel f) = Some c" "\<not> st_closed s" "fr_seq f = next_index s c"
  shows "store_append CommitFails now s f = (Inl CommitFailed, s)"
proof -
  have nd: "\<not> (st_last s c \<noteq> None \<and> fr_seq f \<le> the (st_last s c))"
    using assms(1,4) by (auto simp: store_wf_def next_index_def split: if_splits)
  have "rolled_back (written s c (fr_pcm f)) c (st_offset s c) = s"
    using assms(1) by (cases s) (simp add: rolled_back_def written_def store_wf_def fun_eq_iff)
  with assms(2,3,4) nd store_wf_last [OF assms(1), of c] show ?thesis
    by (simp add: store_append_def Let_def del: channel_of.simps)
qed

section \<open>Loading\<close>

lemma load_channel_ok:
  assumes "disk_ok s"
  shows "load_channel s c = Inr (s\<lparr>
      st_files := (st_files s)(c := take (chunk_bytes (st_rows s c)) (st_files s c)),
      st_last := (st_last s)(c := if st_rows s c = [] then None else Some (int (length (st_rows s c)) - 1)),
      st_offset := (st_offset s)(c := chunk_bytes (st_rows s c))\<rparr>)"
proof (cases "st_rows s c = []")
  case True
  then show ?thesis by (simp add: load_channel_def)
next
  case False
  have t: "chunks_tiled 0 0 (st_rows s c)" and len: "chunk_bytes (st_rows s c) \<le> length (st_files s c)"
    using assms by (auto simp: disk_ok_def)
  obtain r where "last_row (st_rows s c) = Some r" "ck_seq r = int (length (st_rows s c)) - 1"
    "ck_offset r + ck_len r = chunk_bytes (st_rows s c)"
    using last_row_tiled [OF t False] by auto
  with False len show ?thesis by (simp add: load_channel_def Let_def)
qed

lemma load_store_ok:
  assumes "disk_ok s"
  shows "\<exists>s'. load_store s = (None, s') \<and> store_wf s' \<and> st_rows s' = st_rows s \<and>
     st_closed s' = st_closed s \<and>
     (\<forall>c. stored_frames s' c = stored_frames s c \<and>
          st_files s' c = take (chunk_bytes (st_rows s c)) (st_files s c))"
proof -
  define s1 where "s1 = s\<lparr>
      st_files := (st_files s)(Mic := take (chunk_bytes (st_rows s Mic)) (st_files s Mic)),
      st_last := (st_last s)(Mic := if st_rows s Mic = [] then None else Some (int (length (st_rows s Mic)) - 1)),
      st_offset := (st_offset s)(Mic := chunk_bytes (st_rows s Mic))\<rparr>"
  have 1: "load_channel s Mic = Inr s1" by (simp add: load_channel_ok [OF assms] s1_def)
  have "disk_ok s1"
    using assms by (auto simp: disk_ok_def s1_def)
  define s2 where "s2 = s1\<lparr>
      st_files := (st_files s1)(System := take (chunk_bytes (st_rows s1 System)) (st_files s1 System)),
      st_last := (st_last s1)(System := if st_rows s1 System = [] then None else Some (int (length (st_rows s1 System)) - 1)),
      st_offset := (st_offset s1)(System := chunk_bytes (st_rows s1 System))\<rparr>"
  have 2: "load_channel s1 System = Inr s2"
    by (simp add: load_channel_ok [OF \<open>disk_ok s1\<close>] s2_def)
  have sel: "st_rows s2 = st_rows s" "st_closed s2 = st_closed s"
    "st_files s2 c = take (chunk_bytes (st_rows s c)) (st_files s c)"
    "st_offset s2 c = chunk_bytes (st_rows s c)"
    "st_last s2 c = (if st_rows s c = [] then None else Some (int (length (st_rows s c)) - 1))" for c
    by (cases c; simp add: s2_def s1_def)+
  have "store_wf s2"
    using assms by (simp add: store_wf_def sel disk_ok_def)
  moreover have "stored_frames s2 c = stored_frames s c" for c
    using assms chunks_tiled_bounds [of 0 0 "st_rows s c"]
    by (auto simp: stored_frames_def sel disk_ok_def intro!: chunk_frame_take)
  ultimately show ?thesis using 1 2 sel(1-3) by (simp add: load_store_def)
qed

lemma store_wf_disk_ok: "store_wf s \<Longrightarrow> disk_ok s"
  by (simp add: store_wf_def disk_ok_def)

section \<open>Properties\<close>

text \<open>
  The four outcomes of \<open>append\<close> on an open, well-formed store. The expected sequence
  number is stored and only then; a number already stored is a duplicate and changes nothing;
  a number ahead is a gap and changes nothing; a failed commit leaves the store as it was.
\<close>

theorem store_append_outcomes:
  assumes "store_wf s" "channel_of (fr_channel f) = Some c" "\<not> st_closed s" "0 \<le> fr_seq f"
  shows "store_append CommitOk now s f =
       (if fr_seq f < next_index s c then (Inr Duplicate, s)
        else if next_index s c < fr_seq f then (Inl (SeqGap c (next_index s c) (fr_seq f)), s)
        else (Inr Stored, snd (store_append CommitOk now s f))) \<and>
     store_wf (snd (store_append CommitOk now s f)) \<and>
     stored_frames (snd (store_append CommitOk now s f)) c =
       stored_frames s c @ (if fr_seq f = next_index s c then [(fr_seq f, fr_t_ms f, fr_pcm f)] else []) \<and>
     snd (store_append CommitFails now s f) = s"
proof -
  consider "fr_seq f < next_index s c" | "next_index s c < fr_seq f" | "fr_seq f = next_index s c"
    by linarith
  then show ?thesis
  proof cases
    case 1
    with assms store_append_duplicate [OF assms(1-3) 1 assms(4)] show ?thesis by simp
  next
    case 2
    with assms store_append_gap [OF assms(1-3) 2] show ?thesis by simp
  next
    case 3
    from store_append_new [OF assms(1-3) 3, where now = now] store_append_failed [OF assms(1-3) 3, of now] 3
    show ?thesis by (auto simp: prod_eq_iff)
  qed
qed

definition fresh_store :: store where
  "fresh_store = new_store 0 1 (\<lambda>_. []) (\<lambda>_. [])"

lemma fresh_store_wf: "store_wf fresh_store" "\<not> st_closed fresh_store"
  "next_index fresh_store c = 0" "stored_frames fresh_store c = []"
  by (simp_all add: store_wf_def fresh_store_def new_store_def next_index_def stored_frames_def)

definition sample_frame :: "int \<Rightarrow> frame" where
  "sample_frame n = \<lparr>fr_channel = 0, fr_seq = n, fr_t_ms = 20 * n, fr_pcm = sample_pcm,
     fr_version = 1, fr_flags = 0\<rparr>"

lemma sample_frame_sel [simp]: "fr_seq (sample_frame n) = n" "channel_of (fr_channel (sample_frame n)) = Some Mic"
  "fr_pcm (sample_frame n) = sample_pcm" "fr_t_ms (sample_frame n) = 20 * n"
  by (simp_all add: sample_frame_def CHANNEL_MIC_def)

theorem store_append_outcomes_witness:
  "fst (store_append CommitOk 0 fresh_store (sample_frame 1)) = Inl (SeqGap Mic 0 1) \<and>
   stored_frames (snd (store_append CommitOk 0 fresh_store (sample_frame 0))) Mic = [(0, 0, sample_pcm)]"
  using store_append_outcomes [OF fresh_store_wf(1) sample_frame_sel(2) fresh_store_wf(2), of 0 0]
    store_append_outcomes [OF fresh_store_wf(1) sample_frame_sel(2) fresh_store_wf(2), of 1 0]
  by (simp add: fresh_store_wf del: channel_of.simps)

text \<open>
  C23: loading repairs what a crash between the file write and the commit leaves. Whatever bytes
  follow the last indexed chunk, \<open>load\<close> succeeds, drops them, and gives a well-formed store
  with exactly the frames the index has.
\<close>

theorem load_after_crash:
  assumes "store_wf s"
  shows "\<exists>s'. load_store (new_store now interval (\<lambda>c. st_files s c @ torn c) (st_rows s)) = (None, s') \<and>
     store_wf s' \<and> \<not> st_closed s' \<and> st_files s' = st_files s \<and>
     (\<forall>c. stored_frames s' c = stored_frames s c \<and> cursor_at (store_cursor s') c = cursor_at (store_cursor s) c)"
proof -
  let ?d = "new_store now interval (\<lambda>c. st_files s c @ torn c) (st_rows s)"
  have ok: "disk_ok ?d" using assms by (simp add: disk_ok_def store_wf_def new_store_def)
  obtain s' where s': "load_store ?d = (None, s')" "store_wf s'" "st_rows s' = st_rows ?d"
    "st_closed s' = st_closed ?d" "\<forall>c. stored_frames s' c = stored_frames ?d c \<and>
       st_files s' c = take (chunk_bytes (st_rows ?d c)) (st_files ?d c)"
    using load_store_ok [OF ok] by blast
  have rows: "st_rows s' = st_rows s" and open': "\<not> st_closed s'"
    using s'(3,4) by (simp_all add: new_store_def)
  have "stored_frames ?d c = stored_frames s c" for c
    using assms chunks_tiled_bounds [of 0 0 "st_rows s c"]
    by (auto simp: stored_frames_def new_store_def store_wf_def intro!: chunk_frame_grow)
  then have fr: "stored_frames s' c = stored_frames s c" for c using s'(5) by simp
  have fs: "st_files s' = st_files s"
    using s'(5) assms by (auto simp: new_store_def store_wf_def)
  have "cursor_at (store_cursor s') c = cursor_at (store_cursor s) c" for c
    using s'(2) assms rows by (cases c) (simp_all add: store_cursor_def store_wf_def)
  with s'(1,2) open' fs fr show ?thesis by blast
qed

theorem load_after_crash_witness:
  "\<exists>s'. load_store (new_store 5 1 (\<lambda>c. st_files fresh_store c @ [1, 2, 3]) (st_rows fresh_store)) = (None, s') \<and>
     st_files s' Mic = []"
proof -
  have e: "st_files fresh_store Mic = []" by (simp add: fresh_store_def new_store_def)
  obtain s' where s': "load_store (new_store 5 1 (\<lambda>c. st_files fresh_store c @ [1, 2, 3]) (st_rows fresh_store)) = (None, s')"
    "st_files s' = st_files fresh_store"
    using load_after_crash [OF fresh_store_wf(1), of 5 1 "\<lambda>_. [1, 2, 3]"] by blast
  show ?thesis by (rule exI [of _ s']) (simp only: s' e simp_thms)
qed

text \<open>
  A commit that reaches the database but whose reply is lost breaks the store for good. The
  code truncates the file as if nothing had been written, the row stays, and every later
  \<open>load\<close> of the session fails because the index expects more bytes than the file has.
\<close>

theorem lost_commit_reply_breaks_load:
  assumes "store_wf s" "channel_of (fr_channel f) = Some Mic" "\<not> st_closed s"
    "fr_seq f = next_index s Mic" "fr_pcm f \<noteq> []"
  shows "\<exists>s'. store_append CommitReplyLost now s f = (Inl CommitFailed, s') \<and>
     st_files s' = st_files s \<and> st_rows s' Mic = st_rows s Mic @ [chunk_row s Mic f] \<and>
     (\<exists>n m. load_store (new_store now' interval (st_files s') (st_rows s')) =
        (Some (IndexBeyondFile Mic n m), new_store now' interval (st_files s') (st_rows s')))"
proof -
  have nd: "\<not> (st_last s Mic \<noteq> None \<and> fr_seq f \<le> the (st_last s Mic))"
    using assms(1,4) by (auto simp: store_wf_def next_index_def split: if_splits)
  let ?s' = "rolled_back (add_row (written s Mic (fr_pcm f)) Mic (chunk_row s Mic f)) Mic (st_offset s Mic)"
  have eq: "store_append CommitReplyLost now s f = (Inl CommitFailed, ?s')"
    using assms(2-4) nd store_wf_last [OF assms(1), of Mic]
    by (simp add: store_append_def Let_def del: channel_of.simps)
  have files: "st_files ?s' = st_files s" and rows: "st_rows ?s' = (st_rows s)(Mic := st_rows s Mic @ [chunk_row s Mic f])"
    using assms(1) by (auto simp: rolled_back_def store_wf_def fun_eq_iff)
  let ?d = "new_store now' interval (st_files ?s') (st_rows ?s')"
  have t: "chunks_tiled 0 0 (st_rows s Mic @ [chunk_row s Mic f])"
    using assms(1,4) by (simp add: chunks_tiled_snoc chunk_row_def next_index_def store_wf_def)
  then obtain r where "last_row (st_rows s Mic @ [chunk_row s Mic f]) = Some r"
    "ck_offset r + ck_len r = chunk_bytes (st_rows s Mic) + length (fr_pcm f)"
    using last_row_tiled [OF t] by (auto simp: chunk_row_def)
  moreover have "length (st_files s Mic) = chunk_bytes (st_rows s Mic)" "0 < length (fr_pcm f)"
    using assms(1,5) by (simp_all add: store_wf_def)
  ultimately have "load_channel ?d Mic = Inl (IndexBeyondFile Mic (length (st_files s Mic))
      (chunk_bytes (st_rows s Mic) + length (fr_pcm f)))"
    by (simp add: load_channel_def files rows new_store_def Let_def)
  then have "load_store ?d = (Some (IndexBeyondFile Mic (length (st_files s Mic))
      (chunk_bytes (st_rows s Mic) + length (fr_pcm f))), ?d)"
    by (simp add: load_store_def)
  with eq files rows show ?thesis by auto
qed

theorem lost_commit_reply_breaks_load_witness:
  "\<exists>s' n m. store_append CommitReplyLost 0 fresh_store (sample_frame 0) = (Inl CommitFailed, s') \<and>
     load_store (new_store 5 1 (st_files s') (st_rows s')) =
       (Some (IndexBeyondFile Mic n m), new_store 5 1 (st_files s') (st_rows s'))"
proof -
  have ne: "fr_pcm (sample_frame 0) \<noteq> []" by (simp add: sample_pcm_def)
  have "fr_seq (sample_frame 0) = next_index fresh_store Mic" by (simp add: fresh_store_wf)
  from lost_commit_reply_breaks_load [OF fresh_store_wf(1) sample_frame_sel(2) fresh_store_wf(2) this ne, of 0 5 1]
  show ?thesis by blast
qed

text \<open>Sending a marker again changes nothing.\<close>

lemma save_marker_idem: "save_marker (save_marker rows m) m = save_marker rows m"
  by (simp add: save_marker_def)

lemma save_marker_distinct: "distinct rows \<Longrightarrow> distinct (save_marker rows m)"
  by (simp add: save_marker_def)

end
