(* ===== verification/Pipeline.thy ===== *)
theory Pipeline
  imports Segmenter Guards ServerStore
begin

text \<open>
  The per-session pipeline (\<open>server/src/jarvis_live/ingest/pipeline.py\<close>): PCM is segmented, the
  segments of each channel are transcribed one after the other, filtered, and emitted; what the
  mic heard waits until the system channel has settled past it, so that an echo of the system
  audio can be recognised. The detector, the speech recogniser, the echo filter of spoken
  replies and whether a database commit succeeds are parameters. Each operation below is the
  code between two awaits that other tasks can run in; timing metrics are left out.
\<close>

section \<open>State\<close>

record pipe_config =
  pc_prompt_chars :: nat
  pc_phrases :: "string list"
  pc_rms_threshold :: real
  pc_overlap_ratio :: real
  pc_similarity :: real
  pc_hold_ms :: nat

record final =
  fn_channel :: channel_name
  fn_start_ms :: nat
  fn_end_ms :: nat
  fn_text :: string
  fn_tier :: string

text \<open>A channel's worker: waiting, inside \<open>_process\<close>, or past it and before the discard.\<close>

datatype worker = Idle | Busy speech_segment | Finished speech_segment

record pipeline =
  pl_cfg :: pipe_config
  pl_channels :: "channel_name list"
  pl_segmenter :: "channel_name \<Rightarrow> segmenter"
  pl_queue :: "channel_name \<Rightarrow> speech_segment list"
  pl_worker :: "channel_name \<Rightarrow> worker"
  pl_inflight :: "channel_name \<Rightarrow> nat list"
  pl_prev_text :: "channel_name \<Rightarrow> string"
  pl_system_finals :: "final list"
  pl_held_mic :: "final list"
  pl_finishing :: bool
  pl_last_final_end_ms :: nat
  pl_stt_away :: bool
  pl_rerun :: bool
  pl_rows :: "final list"          \<comment> \<open>segment rows in the database\<close>
  pl_kept_for_later :: nat         \<comment> \<open>calls of \<open>mark_transcription_pending\<close>\<close>

definition new_pipeline :: "pipe_config \<Rightarrow> seg_config \<Rightarrow> bool \<Rightarrow> channel_name list \<Rightarrow> pipeline" where
  "new_pipeline cfg sc rerun chs =
     \<lparr>pl_cfg = cfg, pl_channels = chs, pl_segmenter = (\<lambda>_. new_segmenter sc), pl_queue = (\<lambda>_. []),
      pl_worker = (\<lambda>_. Idle), pl_inflight = (\<lambda>_. []), pl_prev_text = (\<lambda>_. []), pl_system_finals = [],
      pl_held_mic = [], pl_finishing = False, pl_last_final_end_ms = 0, pl_stt_away = False,
      pl_rerun = rerun, pl_rows = [], pl_kept_for_later = 0\<rparr>"

section \<open>Input\<close>

definition enqueue :: "channel_name \<Rightarrow> speech_segment \<Rightarrow> pipeline \<Rightarrow> pipeline" where
  "enqueue c seg p =
     p\<lparr>pl_inflight := (pl_inflight p)(c := List.insert (sp_start_ms seg) (pl_inflight p c)),
       pl_queue := (pl_queue p)(c := pl_queue p c @ [seg])\<rparr>"

definition pl_feed :: "(bytes list \<Rightarrow> bool) \<Rightarrow> channel_name \<Rightarrow> bytes \<Rightarrow> pipeline \<Rightarrow> pipeline" where
  "pl_feed vad c pcm p =
     (if pl_finishing p then p
      else case seg_feed vad (pl_segmenter p c) pcm of
        (segs, s') \<Rightarrow> fold (enqueue c) segs (p\<lparr>pl_segmenter := (pl_segmenter p)(c := s')\<rparr>))"

text \<open>The first part of \<open>finish\<close>: every open segment is closed.\<close>

definition flush_channel :: "channel_name \<Rightarrow> pipeline \<Rightarrow> pipeline" where
  "flush_channel c p =
     (case seg_flush (pl_segmenter p c) of
        (segs, s') \<Rightarrow> fold (enqueue c) segs (p\<lparr>pl_segmenter := (pl_segmenter p)(c := s')\<rparr>))"

definition begin_finish :: "pipeline \<Rightarrow> pipeline" where
  "begin_finish p = fold flush_channel (pl_channels p) (p\<lparr>pl_finishing := True\<rparr>)"

section \<open>Progress\<close>

definition pending_segments :: "pipeline \<Rightarrow> nat" where
  "pending_segments p = sum_list (map (\<lambda>c. length (pl_inflight p c)) (pl_channels p))"

definition horizon :: "segmenter \<Rightarrow> nat" where
  "horizon s = (case open_start_ms s of None \<Rightarrow> position_ms s | Some t \<Rightarrow> t)"

definition transcribed_ms :: "pipeline \<Rightarrow> channel_name \<Rightarrow> nat" where
  "transcribed_ms p c = fold min (pl_inflight p c) (horizon (pl_segmenter p c))"

definition transcribed_total :: "pipeline \<Rightarrow> nat" where
  "transcribed_total p = sum_list (map (transcribed_ms p) (pl_channels p))"

definition fed_ms :: "pipeline \<Rightarrow> nat" where
  "fed_ms p = sum_list (map (\<lambda>c. position_ms (pl_segmenter p c)) (pl_channels p))"

definition ms_of :: "nat \<Rightarrow> nat \<Rightarrow> nat" where
  "ms_of frame_ms nbytes = nbytes div (frame_ms * SEG_BYTES_PER_MS) * frame_ms"

definition lag_ms :: "pipeline \<Rightarrow> nat" where
  "lag_ms p = (if pl_last_final_end_ms p = 0 then 0
     else Max (set (map (\<lambda>c. position_ms (pl_segmenter p c)) (pl_channels p))) - pl_last_final_end_ms p)"

section \<open>Emitting\<close>

text \<open>\<open>_emit\<close>: the row is committed first; if that raises, nothing else happens.\<close>

definition emit :: "(final \<Rightarrow> bool) \<Rightarrow> final \<Rightarrow> pipeline \<Rightarrow> bool \<times> pipeline" where
  "emit db f p =
     (if \<not> db f then (False, p)
      else (True, p\<lparr>pl_rows := pl_rows p @ [f],
        pl_system_finals := (if fn_channel f = System then pl_system_finals p @ [f] else pl_system_finals p),
        pl_last_final_end_ms := max (pl_last_final_end_ms p) (fn_end_ms f)\<rparr>))"

text \<open>\<open>_system_settled_ms\<close>: \<open>None\<close> is infinity.\<close>

definition system_settled_ms :: "pipeline \<Rightarrow> nat option" where
  "system_settled_ms p = (if System \<notin> set (pl_channels p) then None else Some (transcribed_ms p System))"

definition ready :: "pipeline \<Rightarrow> nat option \<Rightarrow> nat \<Rightarrow> final \<Rightarrow> bool" where
  "ready p settled mic_pos m \<longleftrightarrow>
     pl_finishing p \<or> (case settled of None \<Rightarrow> True | Some t \<Rightarrow> fn_end_ms m \<le> t) \<or>
     int (pc_hold_ms (pl_cfg p)) \<le> int mic_pos - int (fn_end_ms m)"

definition span_of :: "final \<Rightarrow> span" where
  "span_of f = \<lparr>sn_start_ms = int (fn_start_ms f), sn_end_ms = int (fn_end_ms f), sn_text = fn_text f\<rparr>"

definition echoes_system :: "pipeline \<Rightarrow> final \<Rightarrow> bool" where
  "echoes_system p m = is_duplicate_of (span_of m) (map span_of (pl_system_finals p))
     (pc_overlap_ratio (pl_cfg p)) (pc_similarity (pl_cfg p))"

text \<open>The loop of \<open>_release_held\<close>: what is kept, and whether every emit went through.\<close>

fun release_loop ::
  "(final \<Rightarrow> bool) \<Rightarrow> nat option \<Rightarrow> nat \<Rightarrow> final list \<Rightarrow> final list \<Rightarrow> pipeline \<Rightarrow> bool \<times> final list \<times> pipeline" where
  "release_loop db settled mic_pos keep [] p = (True, keep, p)"
| "release_loop db settled mic_pos keep (m # ms) p =
     (if \<not> ready p settled mic_pos m then release_loop db settled mic_pos (keep @ [m]) ms p
      else if echoes_system p m then release_loop db settled mic_pos keep ms p
      else case emit db m p of
        (False, p') \<Rightarrow> (False, keep, p')
      | (True, p') \<Rightarrow> release_loop db settled mic_pos keep ms p')"

text \<open>\<open>_segmenters["mic"]\<close> raises where the pipeline has no mic channel.\<close>

definition release_held :: "(final \<Rightarrow> bool) \<Rightarrow> pipeline \<Rightarrow> bool \<times> pipeline" where
  "release_held db p =
     (if Mic \<notin> set (pl_channels p) then (False, p)
      else case release_loop db (system_settled_ms p) (position_ms (pl_segmenter p Mic)) [] (pl_held_mic p) p of
        (False, keep, p') \<Rightarrow> (False, p')
      | (True, keep, p') \<Rightarrow> (True, p'\<lparr>pl_held_mic := keep\<rparr>))"

section \<open>Transcribing\<close>

text \<open>\<open>_worker\<close>: the next segment of the channel.\<close>

definition take_segment :: "channel_name \<Rightarrow> pipeline \<Rightarrow> pipeline" where
  "take_segment c p =
     (case (pl_worker p c, pl_queue p c) of
        (Idle, seg # rest) \<Rightarrow> p\<lparr>pl_queue := (pl_queue p)(c := rest), pl_worker := (pl_worker p)(c := Busy seg)\<rparr>
      | _ \<Rightarrow> p)"

definition prompt_of :: "pipeline \<Rightarrow> channel_name \<Rightarrow> string" where
  "prompt_of p c = last_slice (pc_prompt_chars (pl_cfg p)) (pl_prev_text p c)"

definition keep_for_later :: "pipeline \<Rightarrow> pipeline" where
  "keep_for_later p =
     (if pl_rerun p \<or> pl_stt_away p then p
      else p\<lparr>pl_kept_for_later := Suc (pl_kept_for_later p), pl_stt_away := True\<rparr>)"

text \<open>
  \<open>_process\<close> once the recogniser has answered: \<open>None\<close> when no tier was available, else the
  text and the tier. \<open>echo\<close> is the filter for Jarvis's own replies.
\<close>

datatype verdict = Empty | Hallucinated | HeardBack | Kept final

definition judge :: "(nat \<Rightarrow> nat \<Rightarrow> string \<Rightarrow> bool) \<Rightarrow> pipe_config \<Rightarrow> channel_name \<Rightarrow> speech_segment \<Rightarrow> string \<Rightarrow> string \<Rightarrow> verdict" where
  "judge echo cfg c seg raw tier =
     (let text = strip raw in
      if text = [] then Empty
      else if is_hallucination text (rms_level (sp_pcm seg)) (pc_phrases cfg) (pc_rms_threshold cfg) then Hallucinated
      else if echo (sp_start_ms seg) (sp_end_ms seg) text then HeardBack
      else Kept \<lparr>fn_channel = c, fn_start_ms = sp_start_ms seg, fn_end_ms = sp_end_ms seg, fn_text = text, fn_tier = tier\<rparr>)"

definition hold_or_emit :: "(final \<Rightarrow> bool) \<Rightarrow> final \<Rightarrow> pipeline \<Rightarrow> pipeline" where
  "hold_or_emit db f p =
     (if fn_channel f = System \<or> System \<notin> set (pl_channels p)
      then (case emit db f p of (False, p') \<Rightarrow> p' | (True, p') \<Rightarrow> snd (release_held db p'))
      else snd (release_held db (p\<lparr>pl_held_mic := pl_held_mic p @ [f]\<rparr>)))"

definition process_segment ::
  "(bytes \<Rightarrow> string \<Rightarrow> (string \<times> string) option) \<Rightarrow> (nat \<Rightarrow> nat \<Rightarrow> string \<Rightarrow> bool) \<Rightarrow> (final \<Rightarrow> bool)
     \<Rightarrow> channel_name \<Rightarrow> pipeline \<Rightarrow> pipeline" where
  "process_segment stt echo db c p =
     (case pl_worker p c of
        Busy seg \<Rightarrow>
          let p1 = p\<lparr>pl_worker := (pl_worker p)(c := Finished seg)\<rparr> in
          (case stt (sp_pcm seg) (prompt_of p c) of
             None \<Rightarrow> keep_for_later p1
           | Some (raw, tier) \<Rightarrow>
               let p2 = p1\<lparr>pl_stt_away := False\<rparr> in
               (case judge echo (pl_cfg p) c seg raw tier of
                  Kept f \<Rightarrow> hold_or_emit db f (p2\<lparr>pl_prev_text := (pl_prev_text p2)(c := fn_text f)\<rparr>)
                | _ \<Rightarrow> p2))
      | _ \<Rightarrow> p)"

text \<open>The \<open>finally\<close> of the worker.\<close>

definition segment_done :: "channel_name \<Rightarrow> pipeline \<Rightarrow> pipeline" where
  "segment_done c p =
     (case pl_worker p c of
        Finished seg \<Rightarrow> p\<lparr>pl_inflight := (pl_inflight p)(c := removeAll (sp_start_ms seg) (pl_inflight p c)),
                          pl_worker := (pl_worker p)(c := Idle)\<rparr>
      | _ \<Rightarrow> p)"

section \<open>Steps\<close>

text \<open>
  Any interleaving of the producer, the workers, the releaser and the end of the stream. The
  outside world answers differently at every step.
\<close>

inductive pl_step :: "(bytes list \<Rightarrow> bool) \<Rightarrow> pipeline \<Rightarrow> pipeline \<Rightarrow> bool" for vad where
  step_feed: "c \<in> set (pl_channels p) \<Longrightarrow> pl_step vad p (pl_feed vad c pcm p)"
| step_finish: "pl_step vad p (begin_finish p)"
| step_take: "c \<in> set (pl_channels p) \<Longrightarrow> pl_step vad p (take_segment c p)"
| step_process: "c \<in> set (pl_channels p) \<Longrightarrow> pl_step vad p (process_segment stt echo db c p)"
| step_done: "c \<in> set (pl_channels p) \<Longrightarrow> pl_step vad p (segment_done c p)"
| step_release: "pl_step vad p (snd (release_held db p))"

inductive pl_steps :: "(bytes list \<Rightarrow> bool) \<Rightarrow> pipeline \<Rightarrow> pipeline \<Rightarrow> bool" for vad where
  steps_refl: "pl_steps vad p p"
| steps_step: "pl_steps vad p q \<Longrightarrow> pl_step vad q r \<Longrightarrow> pl_steps vad p r"

section \<open>Where segments start\<close>

text \<open>
  Segments cut between two moments start at or after the first horizon and before the second,
  in increasing order.
\<close>

definition starts_between :: "nat \<Rightarrow> speech_segment list \<Rightarrow> nat \<Rightarrow> bool" where
  "starts_between lo xs hi \<longleftrightarrow> lo \<le> hi \<and> sorted_wrt (\<lambda>x y. sp_start_ms x < sp_start_ms y) xs \<and>
     (\<forall>x \<in> set xs. lo \<le> sp_start_ms x \<and> sp_start_ms x < hi)"

lemma starts_between_trans:
  "starts_between a xs b \<Longrightarrow> starts_between b ys c \<Longrightarrow> starts_between a (xs @ ys) c"
  unfolding starts_between_def by (fastforce simp: sorted_wrt_append)

lemma push_opened_starts:
  assumes "opened_inv vad e s" "push_opened s = (out, s')"
  shows "starts_between (sg_open_start s * gc_frame_ms (sg_cfg s)) out (horizon s')"
proof -
  note inv = assms(1) [unfolded opened_inv_def]
  let ?ms = "gc_frame_ms (sg_cfg s)"
  have ms: "0 < ?ms" "overlap_frames s < max_frames s" "0 < overlap_frames s"
    using inv ceil_div_pos by (auto simp: cfg_ok_def overlap_frames_def max_frames_def)
  have build: "sp_start_ms x = sg_open_start s * ?ms" if "build_segment s n = Some x" for x n
    using that by (auto simp: build_segment_def Let_def split: if_splits)
  have seen: "sg_open_start s * ?ms < sg_seen s * ?ms" using inv ms(1) by simp
  show ?thesis
  proof (cases "trailing_silence (sg_open s) \<ge> close_frames s")
    case True
    then have "horizon s' = sg_seen s * ?ms"
      using assms(2) by (auto simp: push_opened_def Let_def close_segment_def horizon_def open_start_ms_def position_ms_def)
    then show ?thesis
      using assms(2) True seen build
      by (auto simp: starts_between_def push_opened_def Let_def close_segment_def split: option.splits)
  next
    case quiet: False
    show ?thesis
    proof (cases "length (sg_open s) \<ge> max_frames s")
      case True
      define cs where "cs = last_slice (overlap_frames s) (sg_open s)"
      have ne: "sg_open s \<noteq> []" using inv by auto
      have "length cs \<le> overlap_frames s" "cs \<noteq> []"
        using ms(3) ne by (auto simp: cs_def last_slice_def not_le intro!: diff_less)
      then have "sg_open_start s < sg_seen s - length cs"
        using True ms(2) inv by auto
      then have "sg_open_start s * ?ms < (sg_seen s - length cs) * ?ms" using ms(1) by simp
      moreover have "horizon s' = (sg_seen s - length cs) * ?ms"
        using assms(2) quiet True \<open>cs \<noteq> []\<close>
        by (auto simp: push_opened_def Let_def horizon_def open_start_ms_def cs_def)
      ultimately show ?thesis
        using assms(2) quiet True build
        by (auto simp: starts_between_def push_opened_def Let_def split: option.splits)
    next
      case False
      have "sg_open s \<noteq> []" using inv by auto
      with assms(2) quiet False show ?thesis
        by (auto simp: starts_between_def push_opened_def Let_def horizon_def open_start_ms_def)
    qed
  qed
qed

lemma push_frame_starts:
  assumes "seg_inv vad e s" "push_frame vad s p = (out, s')"
  shows "starts_between (horizon s) out (horizon s')"
proof -
  define s1 where "s1 = see_frame s p"
  let ?sp = "vad (sg_shown s @ [p])"
  show ?thesis
  proof (cases "sg_open s = [] \<and> \<not> ?sp")
    case True
    then have "out = []" "s' = s1" using assms(2) by (auto simp: push_frame_def s1_def see_frame_def Let_def)
    then show ?thesis
      using True by (auto simp: starts_between_def horizon_def open_start_ms_def s1_def see_frame_def position_ms_def)
  next
    case False
    define s2 where "s2 = open_frame s1 p ?sp"
    have po: "push_opened s2 = (out, s')"
      using assms(2) False by (auto simp: push_frame_def s1_def s2_def see_frame_def Let_def)
    have "opened_inv vad e s2"
      unfolding s2_def s1_def by (rule opened_after_see [OF assms(1)]) (use False in auto)
    from push_opened_starts [OF this po]
    show ?thesis
      by (auto simp: s2_def s1_def open_frame_def see_frame_def horizon_def open_start_ms_def position_ms_def)
  qed
qed

lemma horizon_buf: "horizon (s\<lparr>sg_buf := z\<rparr>) = horizon s"
  by (simp add: horizon_def open_start_ms_def position_ms_def)

lemma feed_loop_starts:
  assumes "seg_inv vad e s" "feed_loop vad n s = (out, s')"
  shows "starts_between (horizon s) out (horizon s')"
  using assms
proof (induction vad n s arbitrary: e out s' rule: feed_loop.induct)
  case (1 vad n s)
  show ?case
  proof (cases "0 < n \<and> n \<le> length (sg_buf s)")
    case False
    then have "out = []" "s' = s" using "1.prems"(2) by (simp_all add: feed_loop_short)
    then show ?thesis by (simp add: starts_between_def)
  next
    case True
    obtain p1 t1 where p: "push_frame vad s (take n (sg_buf s)) = (p1, t1)" by fastforce
    obtain p2 t2 where l: "feed_loop vad n (t1\<lparr>sg_buf := drop n (sg_buf s)\<rparr>) = (p2, t2)" by fastforce
    have eq: "out = p1 @ p2" "s' = t2"
      using feed_loop_step [OF _ _ p l] True "1.prems"(2) by auto
    have "seg_inv vad (last_end e p1) (t1\<lparr>sg_buf := drop n (sg_buf s)\<rparr>)"
      using push_frame_spec [OF "1.prems"(1) p] by (simp add: emits_def seg_inv_buf)
    from "1.IH" [OF True p [symmetric] refl this l]
    have "starts_between (horizon t1) p2 (horizon t2)"
      by (simp add: horizon_buf)
    then show ?thesis
      using starts_between_trans [OF push_frame_starts [OF "1.prems"(1) p]] eq by simp
  qed
qed

lemma seg_flush_starts:
  assumes "seg_inv vad e s" "seg_flush s = (out, s')"
  shows "starts_between (horizon s) out (horizon s')"
proof -
  have h: "horizon s' = position_ms s"
    using assms(2) by (auto simp: seg_flush_def close_segment_def horizon_def open_start_ms_def position_ms_def)
  have le: "horizon s \<le> position_ms s" "sg_open s \<noteq> [] \<Longrightarrow> horizon s < position_ms s"
    using assms(1) by (auto simp: seg_inv_def horizon_def open_start_ms_def position_ms_def cfg_ok_def)
  have "sg_open s = [] \<Longrightarrow> out = []"
    using assms by (auto simp: seg_flush_def close_segment_def build_segment_def Let_def seg_inv_def cfg_ok_def)
  moreover have "out = [] \<or> (\<exists>x. out = [x] \<and> sp_start_ms x = sg_open_start s * gc_frame_ms (sg_cfg s))"
    using assms(2) by (auto simp: seg_flush_def close_segment_def build_segment_def Let_def split: if_splits)
  moreover have "sg_open s \<noteq> [] \<Longrightarrow> horizon s = sg_open_start s * gc_frame_ms (sg_cfg s)"
    by (simp add: horizon_def open_start_ms_def)
  ultimately show ?thesis using le h by (cases "sg_open s = []") (auto simp: starts_between_def)
qed

section \<open>The invariant\<close>

definition outstanding :: "pipeline \<Rightarrow> channel_name \<Rightarrow> speech_segment list" where
  "outstanding p c =
     (case pl_worker p c of Idle \<Rightarrow> [] | Busy s \<Rightarrow> [s] | Finished s \<Rightarrow> [s]) @ pl_queue p c"

text \<open>
  The segments of a channel that are not through yet, oldest first, start before the channel's
  horizon, and the in-flight set is the set of their starts.
\<close>

definition chan_ok :: "(bytes list \<Rightarrow> bool) \<Rightarrow> pipeline \<Rightarrow> channel_name \<Rightarrow> bool" where
  "chan_ok vad p c \<longleftrightarrow> (\<exists>e. seg_inv vad e (pl_segmenter p c)) \<and>
     starts_between 0 (outstanding p c) (horizon (pl_segmenter p c)) \<and>
     set (pl_inflight p c) = sp_start_ms ` set (outstanding p c)"

definition pl_wf :: "(bytes list \<Rightarrow> bool) \<Rightarrow> pipeline \<Rightarrow> bool" where
  "pl_wf vad p \<longleftrightarrow> (\<forall>c. chan_ok vad p c) \<and>
     pl_system_finals p = filter (\<lambda>f. fn_channel f = System) (pl_rows p) \<and>
     (\<forall>m \<in> set (pl_held_mic p). fn_channel m = Mic)"

lemma pl_wf_seg: "pl_wf vad p \<Longrightarrow> \<exists>e. seg_inv vad e (pl_segmenter p c)"
  unfolding pl_wf_def chan_ok_def by blast

lemma le_fold_min: "x \<le> fold min xs a \<longleftrightarrow> x \<le> a \<and> (\<forall>y \<in> set xs. x \<le> (y::nat))"
  by (induction xs arbitrary: a) auto

lemma fold_min_le: "fold min xs a \<le> (a::nat)" "y \<in> set xs \<Longrightarrow> fold min xs a \<le> y"
  using le_fold_min [of "fold min xs a" xs a] by auto

lemma enqueue_fold:
  "pl_queue (fold (enqueue c) segs p) = (pl_queue p)(c := pl_queue p c @ segs)"
  "set (pl_inflight (fold (enqueue c) segs p) d) =
     (if d = c then set (pl_inflight p c) \<union> sp_start_ms ` set segs else set (pl_inflight p d))"
  "pl_segmenter (fold (enqueue c) segs p) = pl_segmenter p"
  "pl_worker (fold (enqueue c) segs p) = pl_worker p"
  "pl_channels (fold (enqueue c) segs p) = pl_channels p"
  "pl_rows (fold (enqueue c) segs p) = pl_rows p"
  "pl_held_mic (fold (enqueue c) segs p) = pl_held_mic p"
  "pl_system_finals (fold (enqueue c) segs p) = pl_system_finals p"
  "pl_finishing (fold (enqueue c) segs p) = pl_finishing p"
  by (induction segs arbitrary: p) (auto simp: enqueue_def)

text \<open>Once the stream has ended no segment is open.\<close>

definition flushed :: "pipeline \<Rightarrow> bool" where
  "flushed p \<longleftrightarrow> (pl_finishing p \<longrightarrow> (\<forall>c \<in> set (pl_channels p). sg_open (pl_segmenter p c) = []))"

text \<open>What every operation does to the audio side of a channel.\<close>

definition advances :: "(bytes list \<Rightarrow> bool) \<Rightarrow> pipeline \<Rightarrow> pipeline \<Rightarrow> bool" where
  "advances vad p q \<longleftrightarrow> pl_wf vad q \<and> pl_channels q = pl_channels p \<and> (flushed p \<longrightarrow> flushed q) \<and>
     (\<forall>c. transcribed_ms p c \<le> transcribed_ms q c \<and>
          position_ms (pl_segmenter p c) \<le> position_ms (pl_segmenter q c)) \<and>
     (\<exists>new. pl_rows q = pl_rows p @ new \<and>
        (\<forall>f \<in> set new. fn_channel f = System \<longrightarrow> transcribed_ms p System \<le> fn_start_ms f))"

lemma advances_refl: "pl_wf vad p \<Longrightarrow> advances vad p p"
  by (simp add: advances_def)

lemma advances_trans:
  assumes "advances vad p q" "advances vad q r"
  shows "advances vad p r"
proof -
  obtain n1 n2 where "pl_rows q = pl_rows p @ n1" "pl_rows r = pl_rows q @ n2"
    "\<forall>f \<in> set n1. fn_channel f = System \<longrightarrow> transcribed_ms p System \<le> fn_start_ms f"
    "\<forall>f \<in> set n2. fn_channel f = System \<longrightarrow> transcribed_ms q System \<le> fn_start_ms f"
    using assms by (auto simp: advances_def)
  then show ?thesis
    using assms unfolding advances_def by (auto intro: le_trans intro!: exI [of _ "n1 @ n2"])
qed

lemma cut_advances:
  assumes "pl_wf vad p" "starts_between (horizon (pl_segmenter p c)) segs (horizon s')"
    "\<exists>e. seg_inv vad e s'" "position_ms (pl_segmenter p c) \<le> position_ms s'"
    "q = fold (enqueue c) segs (p\<lparr>pl_segmenter := (pl_segmenter p)(c := s')\<rparr>)"
    "pl_finishing p \<Longrightarrow> sg_open s' = []"
  shows "advances vad p q"
proof -
  have out: "outstanding q d = outstanding p d @ (if d = c then segs else [])" for d
    by (simp add: assms(5) outstanding_def enqueue_fold)
  have sg: "pl_segmenter q = (pl_segmenter p)(c := s')" by (simp add: assms(5) enqueue_fold)
  have infl: "set (pl_inflight q d) = set (pl_inflight p d) \<union> (if d = c then sp_start_ms ` set segs else {})" for d
    by (simp add: assms(5) enqueue_fold)
  have ok: "chan_ok vad q d" for d
  proof (cases "d = c")
    case True
    have "starts_between 0 (outstanding p c @ segs) (horizon s')"
      by (rule starts_between_trans [OF _ assms(2)]) (use assms(1) in \<open>simp add: pl_wf_def chan_ok_def\<close>)
    then show ?thesis
      using True assms(1,3) infl [of c] unfolding chan_ok_def out sg pl_wf_def by auto
  next
    case False
    then show ?thesis
      using assms(1) infl [of d] unfolding chan_ok_def out sg pl_wf_def by auto
  qed
  have rest: "pl_rows q = pl_rows p" "pl_held_mic q = pl_held_mic p" "pl_system_finals q = pl_system_finals p"
    "pl_channels q = pl_channels p" by (simp_all add: assms(5) enqueue_fold)
  have wf: "pl_wf vad q" using ok assms(1) rest by (simp add: pl_wf_def)
  have "transcribed_ms p d \<le> transcribed_ms q d" for d
  proof (cases "d = c")
    case True
    have "transcribed_ms p c \<le> horizon (pl_segmenter p c)"
      by (simp add: transcribed_ms_def fold_min_le)
    then show ?thesis
      using assms(2) infl [of c] fold_min_le(2) [of _ "pl_inflight p c"] True
      by (auto simp: transcribed_ms_def le_fold_min starts_between_def sg intro: le_trans)
  next
    case False
    then show ?thesis
      using infl [of d] fold_min_le by (auto simp: transcribed_ms_def le_fold_min sg)
  qed
  moreover have "flushed p \<longrightarrow> flushed q"
    using assms(6) rest by (simp add: flushed_def sg) (simp add: assms(5) enqueue_fold)
  ultimately show ?thesis using wf rest assms(4) by (auto simp: advances_def sg)
qed

lemma seg_position: "seg_inv vad e s \<Longrightarrow> position_ms s = length (sg_shown s) * gc_frame_ms (sg_cfg s)"
  by (simp add: seg_inv_def position_ms_def)

lemma seg_feed_facts:
  assumes "seg_inv vad e s" "seg_feed vad s pcm = (out, s')"
  shows "\<exists>e. seg_inv vad e s'" "starts_between (horizon s) out (horizon s')" "position_ms s \<le> position_ms s'"
proof -
  let ?s = "s\<lparr>sg_buf := sg_buf s @ pcm\<rparr>"
  have inv: "seg_inv vad e ?s" using assms(1) by (simp add: seg_inv_buf)
  have l: "feed_loop vad (frame_bytes s) ?s = (out, s')" using assms(2) by (simp add: seg_feed_def)
  from feed_loop_spec [OF inv l] obtain ps where ps: "emits vad e ?s out s'" "sg_shown s' = sg_shown ?s @ ps" by blast
  then show ex: "\<exists>e. seg_inv vad e s'" by (auto simp: emits_def)
  show "starts_between (horizon s) out (horizon s')"
    using feed_loop_starts [OF inv l] by (simp add: horizon_buf)
  have "sg_cfg s' = sg_cfg s" using ps(1) by (simp add: emits_def)
  then show "position_ms s \<le> position_ms s'"
    using ex seg_position [OF assms(1)] ps(2) by (auto simp: seg_position add_mult_distrib)
qed

lemma feed_advances:
  assumes "pl_wf vad p"
  shows "advances vad p (pl_feed vad c pcm p)"
proof (cases "pl_finishing p")
  case True
  then show ?thesis using advances_refl [OF assms] by (simp add: pl_feed_def)
next
  case False
  obtain e where e: "seg_inv vad e (pl_segmenter p c)" using pl_wf_seg [OF assms] by blast
  obtain segs s' where f: "seg_feed vad (pl_segmenter p c) pcm = (segs, s')" by fastforce
  note facts = seg_feed_facts [OF e f]
  show ?thesis
    by (rule cut_advances [OF assms facts(2,1,3)]) (simp_all add: pl_feed_def f False)
qed

lemma flush_advances:
  assumes "pl_wf vad p"
  shows "advances vad p (flush_channel c p)"
proof -
  obtain e where e: "seg_inv vad e (pl_segmenter p c)" using pl_wf_seg [OF assms] by blast
  obtain segs s' where f: "seg_flush (pl_segmenter p c) = (segs, s')" by fastforce
  from seg_flush_spec [OF e f] have "\<exists>e. seg_inv vad e s'" "sg_open s' = []" by (auto simp: emits_def)
  moreover have "position_ms (pl_segmenter p c) \<le> position_ms s'"
    using f by (auto simp: seg_flush_def close_segment_def position_ms_def)
  ultimately show ?thesis
    by (intro cut_advances [OF assms seg_flush_starts [OF e f]]) (simp_all add: flush_channel_def f)
qed

text \<open>Operations that leave the audio side alone, and may emit.\<close>

definition same_audio :: "pipeline \<Rightarrow> pipeline \<Rightarrow> bool" where
  "same_audio p q \<longleftrightarrow> pl_segmenter q = pl_segmenter p \<and> pl_queue q = pl_queue p \<and>
     pl_worker q = pl_worker p \<and> pl_inflight q = pl_inflight p \<and> pl_channels q = pl_channels p \<and>
     pl_finishing q = pl_finishing p \<and> pl_cfg q = pl_cfg p"

lemma same_audio_ok:
  "same_audio p q \<Longrightarrow> chan_ok vad q c = chan_ok vad p c \<and> transcribed_ms q c = transcribed_ms p c \<and>
     outstanding q c = outstanding p c"
  by (simp add: same_audio_def chan_ok_def outstanding_def transcribed_ms_def)

lemma emit_spec:
  assumes "emit db f p = (ok, q)"
  shows "same_audio p q" "pl_rows q = pl_rows p @ (if ok then [f] else [])" "pl_held_mic q = pl_held_mic p"
    "pl_system_finals p = filter (\<lambda>f. fn_channel f = System) (pl_rows p) \<Longrightarrow>
     pl_system_finals q = filter (\<lambda>f. fn_channel f = System) (pl_rows q)"
  using assms by (auto simp: emit_def same_audio_def split: if_splits)

lemma release_loop_spec:
  assumes "release_loop db settled mic_pos keep ms p = (ok, keep', q)"
    "\<forall>m \<in> set ms. fn_channel m = Mic" "\<forall>m \<in> set keep. fn_channel m = Mic"
    "pl_system_finals p = filter (\<lambda>f. fn_channel f = System) (pl_rows p)"
  shows "same_audio p q \<and> pl_held_mic q = pl_held_mic p \<and> (\<forall>m \<in> set keep'. fn_channel m = Mic) \<and>
     pl_system_finals q = filter (\<lambda>f. fn_channel f = System) (pl_rows q) \<and>
     (\<exists>new. pl_rows q = pl_rows p @ new \<and> set new \<subseteq> set ms)"
  using assms
proof (induction db settled mic_pos keep ms p rule: release_loop.induct)
  case (1 db settled mic_pos keep p)
  then show ?case by (simp add: same_audio_def)
next
  case (2 db settled mic_pos keep m ms p)
  have grow: "\<exists>new. pl_rows q = pl_rows p @ new \<and> set new \<subseteq> set (m # ms)"
    if "\<exists>new. pl_rows q = pl_rows p @ new \<and> set new \<subseteq> set ms" using that by auto
  show ?case
  proof (cases "\<not> ready p settled mic_pos m \<or> echoes_system p m")
    case True
    then show ?thesis using 2 grow by (auto split: if_splits)
  next
    case False
    obtain r p1 where e: "emit db m p = (r, p1)" by fastforce
    note es = emit_spec [OF e]
    show ?thesis
    proof (cases r)
      case True
      have "release_loop db settled mic_pos keep ms p1 = (ok, keep', q)"
        using "2.prems"(1) False e True by simp
      with "2.IH"(3) [of r p1] False e True "2.prems" es have "same_audio p1 q \<and> pl_held_mic q = pl_held_mic p1 \<and>
        (\<forall>m \<in> set keep'. fn_channel m = Mic) \<and> pl_system_finals q = filter (\<lambda>f. fn_channel f = System) (pl_rows q) \<and>
        (\<exists>new. pl_rows q = pl_rows p1 @ new \<and> set new \<subseteq> set ms)" by simp
      then obtain new where n: "pl_rows q = pl_rows p1 @ new" "set new \<subseteq> set ms"
        and rest: "same_audio p1 q" "pl_held_mic q = pl_held_mic p1" "\<forall>m \<in> set keep'. fn_channel m = Mic"
          "pl_system_finals q = filter (\<lambda>f. fn_channel f = System) (pl_rows q)" by blast
      have "pl_rows q = pl_rows p @ m # new" using n(1) es(2) True by simp
      moreover have "same_audio p q" using rest(1) es(1) by (simp add: same_audio_def)
      moreover have "set (m # new) \<subseteq> set (m # ms)" using n(2) by auto
      ultimately show ?thesis using rest es(3) by (intro conjI exI [of _ "m # new"]) simp_all
    next
      case r: False
      then have "q = p1" "keep' = keep" using "2.prems"(1) False e by simp_all
      then show ?thesis using es r "2.prems" by (intro conjI exI [of _ "[]"]) simp_all
    qed
  qed
qed

lemma same_audio_advances:
  assumes "pl_wf vad p" "same_audio p q" "\<forall>m \<in> set (pl_held_mic q). fn_channel m = Mic"
    "pl_system_finals q = filter (\<lambda>f. fn_channel f = System) (pl_rows q)" "pl_rows q = pl_rows p @ new"
    "\<forall>f \<in> set new. fn_channel f = System \<longrightarrow> transcribed_ms p System \<le> fn_start_ms f"
  shows "advances vad p q"
proof -
  have "pl_wf vad q" using assms(1-4) same_audio_ok [OF assms(2)] by (simp add: pl_wf_def)
  moreover have "pl_segmenter q = pl_segmenter p" "pl_channels q = pl_channels p" "flushed q = flushed p"
    using assms(2) by (simp_all add: same_audio_def flushed_def)
  ultimately show ?thesis
    using assms(5,6) same_audio_ok [OF assms(2)] by (auto simp: advances_def)
qed

lemma release_advances:
  assumes "pl_wf vad p"
  shows "advances vad p (snd (release_held db p))"
proof (cases "Mic \<in> set (pl_channels p)")
  case False
  then show ?thesis using advances_refl [OF assms] by (simp add: release_held_def)
next
  case True
  obtain ok keep q where l: "release_loop db (system_settled_ms p) (position_ms (pl_segmenter p Mic)) [] (pl_held_mic p) p
    = (ok, keep, q)" using prod_cases3 by blast
  have held: "\<forall>m \<in> set (pl_held_mic p). fn_channel m = Mic"
    and sys: "pl_system_finals p = filter (\<lambda>f. fn_channel f = System) (pl_rows p)"
    using assms by (simp_all add: pl_wf_def)
  from release_loop_spec [OF l held _ sys] obtain new where
    n: "pl_rows q = pl_rows p @ new" "set new \<subseteq> set (pl_held_mic p)" and
    r: "same_audio p q" "pl_held_mic q = pl_held_mic p" "\<forall>m \<in> set keep. fn_channel m = Mic"
      "pl_system_finals q = filter (\<lambda>f. fn_channel f = System) (pl_rows q)" by auto
  have new: "\<forall>f \<in> set new. fn_channel f = System \<longrightarrow> transcribed_ms p System \<le> fn_start_ms f"
    using n(2) held by fastforce
  show ?thesis
  proof (cases ok)
    case ok: True
    have "advances vad p (q\<lparr>pl_held_mic := keep\<rparr>)"
      by (rule same_audio_advances [OF assms, of _ new]) (use r n new in \<open>auto simp: same_audio_def\<close>)
    then show ?thesis using l True ok by (simp add: release_held_def)
  next
    case False
    have "advances vad p q"
      by (rule same_audio_advances [OF assms, of _ new]) (use r n new held in auto)
    then show ?thesis using l True False by (simp add: release_held_def)
  qed
qed

lemma take_advances:
  assumes "pl_wf vad p"
  shows "advances vad p (take_segment c p)"
proof (cases "\<exists>seg rest. pl_worker p c = Idle \<and> pl_queue p c = seg # rest")
  case True
  then obtain seg rest where q: "take_segment c p =
      p\<lparr>pl_queue := (pl_queue p)(c := rest), pl_worker := (pl_worker p)(c := Busy seg)\<rparr>"
    "pl_worker p c = Idle" "pl_queue p c = seg # rest" by (auto simp: take_segment_def)
  then have "outstanding (take_segment c p) d = outstanding p d" for d by (auto simp: outstanding_def)
  then have "pl_wf vad (take_segment c p)" using assms by (simp add: pl_wf_def chan_ok_def) (simp add: q)
  then show ?thesis using q(1) by (simp add: advances_def transcribed_ms_def flushed_def)
next
  case False
  then have "take_segment c p = p" by (auto simp: take_segment_def split: worker.splits list.splits)
  then show ?thesis using advances_refl [OF assms] by simp
qed

lemma done_advances:
  assumes "pl_wf vad p"
  shows "advances vad p (segment_done c p)"
proof (cases "pl_worker p c")
  case (Finished seg)
  let ?q = "segment_done c p"
  have q: "?q = p\<lparr>pl_inflight := (pl_inflight p)(c := removeAll (sp_start_ms seg) (pl_inflight p c)),
      pl_worker := (pl_worker p)(c := Idle)\<rparr>"
    using Finished by (simp add: segment_done_def)
  have ok: "chan_ok vad p d" for d using assms by (simp add: pl_wf_def)
  have out: "outstanding p c = seg # pl_queue p c" using Finished by (simp add: outstanding_def)
  have ok': "chan_ok vad ?q d" for d
  proof (cases "d = c")
    case True
    have "starts_between 0 (pl_queue p c) (horizon (pl_segmenter p c))"
      using ok [of c] by (auto simp: chan_ok_def out starts_between_def)
    moreover have "set (removeAll (sp_start_ms seg) (pl_inflight p c)) = sp_start_ms ` set (pl_queue p c)"
      using ok [of c] by (auto simp: chan_ok_def out starts_between_def)
    ultimately show ?thesis
      using ok [of c] True by (simp add: chan_ok_def outstanding_def q)
  next
    case False
    then show ?thesis using ok [of d] by (simp add: chan_ok_def outstanding_def q)
  qed
  then have "pl_wf vad ?q" using assms by (simp add: pl_wf_def q)
  then show ?thesis
    by (auto simp: advances_def q transcribed_ms_def le_fold_min fold_min_le flushed_def)
qed (use advances_refl [OF assms] in \<open>simp_all add: segment_done_def\<close>)

lemma hold_or_emit_advances:
  assumes "pl_wf vad p" "fn_channel f = System \<Longrightarrow> transcribed_ms p System \<le> fn_start_ms f"
  shows "advances vad p (hold_or_emit db f p)"
proof (cases "fn_channel f = System \<or> System \<notin> set (pl_channels p)")
  case True
  obtain ok q where e: "emit db f p = (ok, q)" by fastforce
  note es = emit_spec [OF e]
  have "advances vad p q"
    by (rule same_audio_advances [OF assms(1) es(1), of "if ok then [f] else []"])
      (use es assms in \<open>auto simp: pl_wf_def\<close>)
  moreover from this have "advances vad p (snd (release_held db q))"
    by (rule advances_trans [OF _ release_advances]) (use \<open>advances vad p q\<close> in \<open>simp add: advances_def\<close>)
  moreover have "hold_or_emit db f p = (if ok then snd (release_held db q) else q)"
    using True e by (simp add: hold_or_emit_def)
  ultimately show ?thesis by simp
next
  case False
  let ?q = "p\<lparr>pl_held_mic := pl_held_mic p @ [f]\<rparr>"
  have "fn_channel f = Mic" using False by (cases "fn_channel f") auto
  then have q: "advances vad p ?q"
    by (intro same_audio_advances [OF assms(1), of _ "[]"]) (use assms(1) in \<open>auto simp: same_audio_def pl_wf_def\<close>)
  then have "advances vad p (snd (release_held db ?q))"
    using release_advances advances_trans by (metis advances_def)
  then show ?thesis using False by (simp add: hold_or_emit_def)
qed

lemma process_advances:
  assumes "pl_wf vad p"
  shows "advances vad p (process_segment stt echo db c p)"
proof (cases "pl_worker p c")
  case (Busy seg)
  let ?p1 = "p\<lparr>pl_worker := (pl_worker p)(c := Finished seg)\<rparr>"
  have "outstanding ?p1 d = outstanding p d" for d using Busy by (simp add: outstanding_def)
  then have wf1: "pl_wf vad ?p1" using assms by (simp add: pl_wf_def chan_ok_def)
  then have a1: "advances vad p ?p1" by (simp add: advances_def transcribed_ms_def flushed_def)
  have same: "advances vad p q" if "same_audio ?p1 q" "pl_held_mic q = pl_held_mic p"
      "pl_system_finals q = pl_system_finals p" "pl_rows q = pl_rows p" for q
    by (rule advances_trans [OF a1 same_audio_advances [OF wf1 that(1), of "[]"]])
      (use that assms in \<open>simp_all add: pl_wf_def\<close>)
  have "sp_start_ms seg \<in> set (pl_inflight p c)"
    using assms Busy by (simp add: pl_wf_def chan_ok_def outstanding_def)
  then have st: "transcribed_ms p c \<le> sp_start_ms seg" by (simp add: transcribed_ms_def fold_min_le)
  show ?thesis
  proof (cases "stt (sp_pcm seg) (prompt_of p c)")
    case None
    then show ?thesis using Busy by (simp add: process_segment_def keep_for_later_def Let_def same same_audio_def)
  next
    case (Some r)
    obtain raw tier where r: "r = (raw, tier)" by fastforce
    let ?p2 = "?p1\<lparr>pl_stt_away := False\<rparr>"
    show ?thesis
    proof (cases "judge echo (pl_cfg p) c seg raw tier")
      case (Kept f)
      let ?p3 = "?p2\<lparr>pl_prev_text := (pl_prev_text p)(c := fn_text f)\<rparr>"
      have f: "fn_channel f = c" "fn_start_ms f = sp_start_ms seg"
        using Kept by (auto simp: judge_def Let_def split: if_splits)
      have a3: "advances vad p ?p3" by (rule same) (simp_all add: same_audio_def)
      then have "advances vad ?p3 (hold_or_emit db f ?p3)"
        by (intro hold_or_emit_advances) (use f st in \<open>auto simp: advances_def transcribed_ms_def\<close>)
      with a3 have "advances vad p (hold_or_emit db f ?p3)" by (rule advances_trans)
      then show ?thesis using Busy Some r Kept by (simp add: process_segment_def Let_def)
    qed (use Busy Some r same in \<open>auto simp: process_segment_def Let_def same_audio_def\<close>)
  qed
qed (use advances_refl [OF assms] in \<open>simp_all add: process_segment_def\<close>)

lemma flush_open:
  "sg_open (pl_segmenter (flush_channel c p) d) = (if d = c then [] else sg_open (pl_segmenter p d))"
  by (auto simp: flush_channel_def seg_flush_def close_segment_def enqueue_fold split: prod.splits)

lemma fold_flush_open:
  "sg_open (pl_segmenter (fold flush_channel cs p) d) = (if d \<in> set cs then [] else sg_open (pl_segmenter p d))"
  by (induction cs arbitrary: p) (auto simp: flush_open)

lemma begin_finish_advances:
  assumes "pl_wf vad p"
  shows "advances vad p (begin_finish p)"
proof -
  have fl: "advances vad q (fold flush_channel cs q)" if "pl_wf vad q" for cs q
    using that
  proof (induction cs arbitrary: q)
    case (Cons c cs)
    note f = flush_advances [OF Cons.prems, of c]
    then have "advances vad (flush_channel c q) (fold flush_channel cs (flush_channel c q))"
      using Cons.IH by (simp add: advances_def)
    with f show ?case using advances_trans by simp
  qed (simp add: advances_refl)
  let ?q = "p\<lparr>pl_finishing := True\<rparr>"
  have "pl_wf vad ?q" using assms by (simp add: pl_wf_def chan_ok_def outstanding_def)
  from fl [OF this, of "pl_channels p"] fold_flush_open [of "pl_channels p" ?q] show ?thesis
    by (simp add: begin_finish_def advances_def transcribed_ms_def flushed_def)
qed

lemma step_advances: "pl_step vad p q \<Longrightarrow> pl_wf vad p \<Longrightarrow> advances vad p q"
  by (induction rule: pl_step.induct)
    (simp_all add: feed_advances begin_finish_advances take_advances process_advances done_advances release_advances)

lemma steps_advance: "pl_steps vad p q \<Longrightarrow> pl_wf vad p \<Longrightarrow> advances vad p q"
proof (induction rule: pl_steps.induct)
  case (steps_step p q r)
  then show ?case using step_advances advances_trans by (metis advances_def)
qed (rule advances_refl)

lemma new_pipeline_wf:
  assumes "cfg_ok sc"
  shows "pl_wf vad (new_pipeline cfg sc rerun chs)"
proof -
  have "chan_ok vad (new_pipeline cfg sc rerun chs) c" for c
    using new_segmenter_inv [OF assms, of vad]
    by (auto simp: chan_ok_def new_pipeline_def outstanding_def starts_between_def)
  then show ?thesis by (simp add: pl_wf_def) (simp add: new_pipeline_def)
qed

definition demo_config :: pipe_config where
  "demo_config = \<lparr>pc_prompt_chars = 10, pc_phrases = [], pc_rms_threshold = 0, pc_overlap_ratio = 1 / 2,
     pc_similarity = 1 / 2, pc_hold_ms = 1000\<rparr>"

text \<open>A session whose system channel hears two milliseconds of speech, then ends.\<close>

definition demo_start :: pipeline where
  "demo_start = new_pipeline demo_config tiny_seg_config False [Mic, System]"

definition demo_busy :: pipeline where
  "demo_busy = take_segment System (begin_finish (pl_feed always_speech System (replicate 64 7) demo_start))"

lemma demo_busy_facts:
  "pl_worker demo_busy System = Busy \<lparr>sp_start_ms = 0, sp_end_ms = 2, sp_pcm = replicate 64 7, sp_speech_ms = 2\<rparr>"
  "pl_rows demo_busy = []" "pl_channels demo_busy = [Mic, System]" "pl_held_mic demo_busy = []"
  "pl_worker demo_busy Mic = Idle" "pl_queue demo_busy Mic = []" "pl_queue demo_busy System = []"
  "pl_finishing demo_busy"
  by code_simp+

lemma demo_cfg: "pl_cfg demo_busy = demo_config"
proof -
  have "pl_cfg (fold (enqueue c) segs p) = pl_cfg p" for c segs p
    by (induction segs arbitrary: p) (simp_all add: enqueue_def)
  then have "pl_cfg (flush_channel c p) = pl_cfg p" for c p
    by (simp add: flush_channel_def split: prod.splits)
  then have "pl_cfg (fold flush_channel cs p) = pl_cfg p" for cs p
    by (induction cs arbitrary: p) simp_all
  then show ?thesis
    using \<open>\<And>segs p c. pl_cfg (fold (enqueue c) segs p) = pl_cfg p\<close>
    by (simp add: demo_busy_def take_segment_def begin_finish_def pl_feed_def demo_start_def new_pipeline_def
        split: prod.splits worker.splits list.splits)
qed

definition demo_done :: pipeline where
  "demo_done = segment_done System
     (process_segment (\<lambda>_ _. Some (''hi'', ''t'')) (\<lambda>_ _ _. False) (\<lambda>_. True) System demo_busy)"

lemma demo_done_facts:
  "pl_rows demo_done = [\<lparr>fn_channel = System, fn_start_ms = 0, fn_end_ms = 2, fn_text = ''hi'', fn_tier = ''t''\<rparr>]"
  "outstanding demo_done Mic = []" "outstanding demo_done System = []" "pl_finishing demo_done"
proof -
  have st: "strip ''hi'' = ''hi''" by code_simp
  have "process_segment (\<lambda>_ _. Some (''hi'', ''t'')) (\<lambda>_ _ _. False) (\<lambda>_. True) System demo_busy =
    hold_or_emit (\<lambda>_. True) \<lparr>fn_channel = System, fn_start_ms = 0, fn_end_ms = 2, fn_text = ''hi'', fn_tier = ''t''\<rparr>
      (demo_busy\<lparr>pl_worker := (pl_worker demo_busy)(System := Finished \<lparr>sp_start_ms = 0, sp_end_ms = 2,
           sp_pcm = replicate 64 7, sp_speech_ms = 2\<rparr>), pl_stt_away := False,
        pl_prev_text := (pl_prev_text demo_busy)(System := ''hi'')\<rparr>)"
    unfolding process_segment_def demo_busy_facts(1) demo_cfg
    by (simp add: judge_def st is_hallucination_def demo_config_def Let_def)
  then show "pl_rows demo_done = [\<lparr>fn_channel = System, fn_start_ms = 0, fn_end_ms = 2, fn_text = ''hi'', fn_tier = ''t''\<rparr>]"
    "outstanding demo_done Mic = []" "outstanding demo_done System = []" "pl_finishing demo_done"
    by (simp_all add: demo_done_def hold_or_emit_def emit_def release_held_def demo_busy_facts segment_done_def outstanding_def)
qed

lemma demo_steps: "pl_steps always_speech demo_start demo_done"
proof -
  have c: "System \<in> set (pl_channels demo_start)" by (simp add: demo_start_def new_pipeline_def)
  note s1 = steps_step [OF steps_refl step_feed [OF c, of always_speech "replicate 64 7"]]
  note s2 = steps_step [OF s1 step_finish]
  have ch: "pl_channels q = [Mic, System]" if "pl_steps always_speech demo_start q" for q
    using steps_advance [OF that] new_pipeline_wf [of tiny_seg_config]
    by (simp add: advances_def demo_start_def new_pipeline_def cfg_ok_def tiny_seg_config_def ceil_div_def)
  have sys: "System \<in> set [Mic, System]" by simp
  note s3 = steps_step [OF s2 step_take [OF sys [folded ch [OF s2]]]]
  note s4 = steps_step [OF s3 [folded demo_busy_def] step_process [OF sys [folded ch [OF s3 [folded demo_busy_def]]],
      of always_speech "\<lambda>_ _. Some (''hi'', ''t'')" "\<lambda>_ _ _. False" "\<lambda>_. True"]]
  show ?thesis
    using steps_step [OF s4 step_done [OF sys [folded ch [OF s4]]]] by (simp add: demo_done_def)
qed

lemma tiny_ok: "cfg_ok tiny_seg_config"
  by (simp add: cfg_ok_def tiny_seg_config_def ceil_div_def)



text \<open>
  C38: the progress of the transcription. Under any interleaving the transcribed time of a
  channel never goes back and never passes what was fed; when the stream has ended and every
  segment is through, it has reached it.
\<close>

theorem transcribed_progress:
  assumes "cfg_ok sc" "pl_steps vad (new_pipeline cfg sc rerun chs) p" "pl_steps vad p q"
  shows "transcribed_total p \<le> transcribed_total q \<and> transcribed_total q \<le> fed_ms q \<and>
     (pl_finishing q \<and> (\<forall>c \<in> set chs. outstanding q c = []) \<longrightarrow> transcribed_total q = fed_ms q)"
proof -
  note a1 = steps_advance [OF assms(2) new_pipeline_wf [OF assms(1)]]
  then have wf: "pl_wf vad p" by (simp add: advances_def)
  note a2 = steps_advance [OF assms(3) wf]
  have ch: "pl_channels p = chs" "pl_channels q = chs"
    using a1 a2 by (simp_all add: advances_def new_pipeline_def)
  have fl: "flushed q" using a1 a2 by (simp add: advances_def flushed_def new_pipeline_def)
  have wfq: "pl_wf vad q" using a2 by (simp add: advances_def)
  have hz: "horizon (pl_segmenter q c) \<le> position_ms (pl_segmenter q c)" for c
    using pl_wf_seg [OF wfq, of c] by (auto simp: horizon_def open_start_ms_def position_ms_def seg_inv_def)
  have le: "transcribed_ms q c \<le> position_ms (pl_segmenter q c)" for c
    using hz [of c] fold_min_le(1) [of "pl_inflight q c"] unfolding transcribed_ms_def by (rule le_trans [rotated])
  have mono: "transcribed_ms p c \<le> transcribed_ms q c" for c using a2 by (simp add: advances_def)
  have "transcribed_ms q c = position_ms (pl_segmenter q c)"
    if "pl_finishing q" "outstanding q c = []" "c \<in> set chs" for c
  proof -
    have "chan_ok vad q c" using wfq by (simp add: pl_wf_def)
    then have "pl_inflight q c = []" using that(2) by (simp add: chan_ok_def)
    moreover have "sg_open (pl_segmenter q c) = []" using fl that ch by (simp add: flushed_def)
    ultimately show ?thesis by (simp add: transcribed_ms_def horizon_def open_start_ms_def)
  qed
  then show ?thesis
    unfolding transcribed_total_def fed_ms_def ch
    using mono le by (auto intro!: sum_list_mono arg_cong [of _ _ sum_list])
qed

theorem transcribed_progress_witness:
  "pl_finishing demo_done \<and> transcribed_total demo_done = fed_ms demo_done"
  using transcribed_progress [OF tiny_ok _ demo_steps, of demo_config False "[Mic, System]"]
    demo_done_facts steps_refl [of always_speech demo_start]
  by (simp add: demo_start_def)

section \<open>Releasing held segments\<close>

lemma release_loop_all:
  assumes "\<forall>f. db f" "\<forall>m \<in> set ms. fn_channel m = Mic"
  shows "\<exists>q. release_loop db settled mic_pos keep ms p =
       (True, keep @ filter (\<lambda>m. \<not> ready p settled mic_pos m) ms, q) \<and>
     pl_rows q = pl_rows p @ filter (\<lambda>m. ready p settled mic_pos m \<and> \<not> echoes_system p m) ms"
  using assms(2)
proof (induction ms arbitrary: keep p)
  case (Cons m ms)
  show ?case
  proof (cases "\<not> ready p settled mic_pos m \<or> echoes_system p m")
    case True
    then show ?thesis
      using Cons.IH [of "keep @ [m]" p] Cons.IH [of keep p] Cons.prems by auto
  next
    case False
    obtain p1 where e: "emit db m p = (True, p1)" using assms(1) by (simp add: emit_def)
    have p1: "pl_system_finals p1 = pl_system_finals p" "pl_cfg p1 = pl_cfg p" "pl_finishing p1 = pl_finishing p"
      "pl_rows p1 = pl_rows p @ [m]"
      using e Cons.prems by (auto simp: emit_def split: if_splits)
    then have "ready p1 = ready p" "echoes_system p1 = echoes_system p"
      by (simp_all add: fun_eq_iff ready_def echoes_system_def)
    then show ?thesis
      using Cons.IH [of keep p1] Cons.prems False e p1(4) by auto
  qed
qed simp

text \<open>
  Releasing decides each held mic segment once: those not ready stay held, in order, and of
  the ready ones exactly those that do not repeat the system channel are written. When the
  stream is finishing all are ready, so nothing stays behind.
\<close>

theorem release_held_correct:
  assumes "Mic \<in> set (pl_channels p)" "\<forall>f. db f" "\<forall>m \<in> set (pl_held_mic p). fn_channel m = Mic"
    "release_held db p = (ok, q)" "mic_pos = position_ms (pl_segmenter p Mic)"
  shows "ok \<and> pl_held_mic q = filter (\<lambda>m. \<not> ready p (system_settled_ms p) mic_pos m) (pl_held_mic p) \<and>
     pl_rows q = pl_rows p @
       filter (\<lambda>m. ready p (system_settled_ms p) mic_pos m \<and> \<not> echoes_system p m) (pl_held_mic p) \<and>
     (pl_finishing p \<longrightarrow> pl_held_mic q = [])"
  using release_loop_all [OF assms(2,3), of "system_settled_ms p" mic_pos "[]" p] assms(1,4,5)
  by (auto simp: release_held_def ready_def)

definition held_demo :: pipeline where
  "held_demo = demo_start\<lparr>pl_finishing := True, pl_held_mic :=
     [\<lparr>fn_channel = Mic, fn_start_ms = 0, fn_end_ms = 2, fn_text = ''a'', fn_tier = ''t''\<rparr>,
      \<lparr>fn_channel = Mic, fn_start_ms = 5, fn_end_ms = 7, fn_text = ''b'', fn_tier = ''t''\<rparr>]\<rparr>"

theorem release_held_correct_witness:
  "\<exists>ok q. release_held (\<lambda>_. True) held_demo = (ok, q) \<and> ok \<and> pl_held_mic q = []"
proof -
  obtain ok q where r: "release_held (\<lambda>_. True) held_demo = (ok, q)" by fastforce
  have "Mic \<in> set (pl_channels held_demo)" "\<forall>m \<in> set (pl_held_mic held_demo). fn_channel m = Mic"
    "pl_finishing held_demo" by (simp_all add: held_demo_def demo_start_def new_pipeline_def)
  then have "ok \<and> pl_held_mic q = []" using release_held_correct [OF _ _ _ r refl] by blast
  with r show ?thesis by blast
qed

text \<open>
  A database error while held segments are released makes the ones already written come
  again: the first ready segment is in the database but still held, and the next release writes
  it a second time.
\<close>

theorem failed_release_repeats:
  assumes "Mic \<in> set (pl_channels p)" "pl_held_mic p = [m1, m2]" "pl_finishing p"
    "fn_channel m1 = Mic" "fn_channel m2 = Mic" "\<not> echoes_system p m1" "\<not> echoes_system p m2" "m1 \<noteq> m2"
  shows "\<exists>q r. release_held (\<lambda>f. f = m1) p = (False, q) \<and> release_held (\<lambda>f. True) q = (True, r) \<and>
     pl_rows r = pl_rows p @ [m1, m1, m2]"
proof -
  define q where "q = p\<lparr>pl_rows := pl_rows p @ [m1], pl_last_final_end_ms := max (pl_last_final_end_ms p) (fn_end_ms m1)\<rparr>"
  have 1: "release_held (\<lambda>f. f = m1) p = (False, q)"
    using assms by (auto simp: release_held_def ready_def emit_def q_def echoes_system_def)
  obtain ok r where 2: "release_held (\<lambda>f. True) q = (ok, r)" by fastforce
  have "ok \<and> pl_rows r = pl_rows q @ [m1, m2]"
    using release_loop_all [of "\<lambda>f. True" "[m1, m2]" "system_settled_ms q" "position_ms (pl_segmenter q Mic)" "[]" q]
      2 assms by (auto simp: q_def ready_def echoes_system_def release_held_def)
  with 1 2 show ?thesis by (auto simp: q_def)
qed

theorem failed_release_repeats_witness:
  "\<exists>db q r. release_held db held_demo = (False, q) \<and> release_held (\<lambda>f. True) q = (True, r) \<and>
     length (pl_rows r) = 3"
proof -
  have "\<exists>q r. release_held (\<lambda>f. f = hd (pl_held_mic held_demo)) held_demo = (False, q) \<and>
     release_held (\<lambda>f. True) q = (True, r) \<and> pl_rows r = pl_rows held_demo @
       [hd (pl_held_mic held_demo), hd (pl_held_mic held_demo), hd (tl (pl_held_mic held_demo))]"
    by (rule failed_release_repeats)
      (simp_all add: held_demo_def demo_start_def new_pipeline_def echoes_system_def)
  moreover have "pl_rows held_demo = []" by (simp add: held_demo_def demo_start_def new_pipeline_def)
  ultimately show ?thesis by (metis append_Nil length_Cons list.size(3) numeral_3_eq_3)
qed

text \<open>
  A pipeline without a mic channel cannot finish: the release raises on the missing segmenter
  whatever is held.
\<close>

lemma system_only_release_fails: "Mic \<notin> set (pl_channels p) \<Longrightarrow> release_held db p = (False, p)"
  by (simp add: release_held_def)

end
