(* ===== verification/Hub.thy ===== *)
theory Hub
  imports Pipeline
begin

text \<open>
  The registry of live sessions (\<open>server/src/jarvis_live/ingest/hub.py\<close>) and what a session is
  doing (\<open>server/src/jarvis_live/processing.py\<close>). The database row of a session is its status;
  the store's files and rows outlive the ingest state and are kept per session. Each definition
  is the code between two awaits that other tasks can run in, so \<open>end\<close> is a sequence of parts.
\<close>

section \<open>State\<close>

datatype status = Live | Finalizing | Done | Failed

type_synonym sid = nat
type_synonym socket = nat

record ingest =
  in_channels :: "channel_name list"
  in_store :: store
  in_pipeline :: pipeline
  in_producer :: "socket option"
  in_gone_at :: "real option"
  in_uploading :: bool
  in_last_audio_at :: real
  in_ended :: bool

record hub =
  hb_status :: "sid \<Rightarrow> status option"                      \<comment> \<open>the sessions table\<close>
  hb_files :: "sid \<Rightarrow> channel_name \<Rightarrow> bytes"            \<comment> \<open>PCM files of sessions without ingest state\<close>
  hb_rows :: "sid \<Rightarrow> channel_name \<Rightarrow> chunk list"
  hb_states :: "sid \<Rightarrow> ingest option"
  hb_draining :: "sid \<Rightarrow> real option"
  hb_drained :: "sid \<Rightarrow> pipeline option"
  hb_started :: "sid list"                                  \<comment> \<open>calls of \<open>on_start\<close>\<close>
  hb_finalized :: "sid list"                                \<comment> \<open>calls of \<open>on_end\<close>\<close>

record hub_config =
  hc_fsync_interval :: real
  hc_pipe :: pipe_config
  hc_seg :: seg_config
  hc_stale_s :: real

definition new_hub :: "(sid \<Rightarrow> status option) \<Rightarrow> hub" where
  "new_hub rows = \<lparr>hb_status = rows, hb_files = (\<lambda>_ _. []), hb_rows = (\<lambda>_ _. []), hb_states = (\<lambda>_. None),
     hb_draining = (\<lambda>_. None), hb_drained = (\<lambda>_. None), hb_started = [], hb_finalized = []\<rparr>"

section \<open>Operations\<close>

text \<open>\<open>get\<close>: the existing state, or a new one over what is on disk; \<open>load\<close> may raise.\<close>

definition hub_get :: "hub_config \<Rightarrow> real \<Rightarrow> sid \<Rightarrow> channel_name list \<Rightarrow> hub \<Rightarrow> (store_error + ingest) \<times> hub" where
  "hub_get cfg now sid chs h =
     (case hb_states h sid of
        Some st \<Rightarrow> (Inr st, h)
      | None \<Rightarrow>
          (case load_store (new_store now (hc_fsync_interval cfg) (hb_files h sid) (hb_rows h sid)) of
             (Some e, s) \<Rightarrow> (Inl e, h\<lparr>hb_files := (hb_files h)(sid := st_files s)\<rparr>)
           | (None, s) \<Rightarrow>
               let st = \<lparr>in_channels = chs, in_store = s,
                     in_pipeline = new_pipeline (hc_pipe cfg) (hc_seg cfg) False chs, in_producer = None,
                     in_gone_at = None, in_uploading = False, in_last_audio_at = now, in_ended = False\<rparr>
               in (Inr st, h\<lparr>hb_states := (hb_states h)(sid := Some st), hb_started := hb_started h @ [sid]\<rparr>)))"

text \<open>\<open>is_streaming\<close>: an upload, or a connected producer that sent audio lately.\<close>

definition is_streaming :: "hub_config \<Rightarrow> real \<Rightarrow> sid \<Rightarrow> hub \<Rightarrow> bool" where
  "is_streaming cfg now sid h =
     (case hb_states h sid of
        None \<Rightarrow> False
      | Some st \<Rightarrow> in_uploading st \<or> (in_producer st \<noteq> None \<and> now - in_last_audio_at st < hc_stale_s cfg))"

text \<open>\<open>end\<close>, part by part. First the database: whether this call made the transition.\<close>

definition end_transition :: "real \<Rightarrow> sid \<Rightarrow> hub \<Rightarrow> bool \<times> hub" where
  "end_transition now sid h =
     (let h1 = h\<lparr>hb_draining := (hb_draining h)(sid := (case hb_draining h sid of None \<Rightarrow> Some now | Some t \<Rightarrow> Some t))\<rparr>
      in if hb_status h sid = Some Live then (True, h1\<lparr>hb_status := (hb_status h1)(sid := Some Finalizing)\<rparr>)
         else (False, h1))"

text \<open>
  Under the lock: the ingest state is taken out; then its store is closed. Closing runs before
  anything else can be appended.
\<close>

definition end_pop :: "real \<Rightarrow> sid \<Rightarrow> hub \<Rightarrow> ingest option \<times> hub" where
  "end_pop now sid h =
     (case hb_states h sid of
        None \<Rightarrow> (None, h)
      | Some st \<Rightarrow>
          let st' = st\<lparr>in_ended := True, in_store := close_store now (in_store st)\<rparr>
          in (Some st', h\<lparr>hb_states := (hb_states h)(sid := None),
                 hb_files := (hb_files h)(sid := st_files (in_store st')),
                 hb_rows := (hb_rows h)(sid := st_rows (in_store st')),
                 hb_drained := (hb_drained h)(sid := Some (in_pipeline st'))\<rparr>))"

text \<open>
  The drained pipeline is gone, \<open>on_end\<close> is called for the call that made the transition, and
  another producer than the caller is closed.
\<close>

definition end_close :: "socket option \<Rightarrow> ingest option \<Rightarrow> socket option" where
  "end_close caller st =
     (case st of None \<Rightarrow> None
      | Some s \<Rightarrow> if in_producer s \<noteq> None \<and> in_producer s \<noteq> caller then in_producer s else None)"

definition end_finish :: "bool \<Rightarrow> sid \<Rightarrow> hub \<Rightarrow> hub" where
  "end_finish transitioned sid h =
     h\<lparr>hb_finalized := (if transitioned then hb_finalized h @ [sid] else hb_finalized h),
       hb_draining := (hb_draining h)(sid := None), hb_drained := (hb_drained h)(sid := None)\<rparr>"

definition hub_end :: "real \<Rightarrow> sid \<Rightarrow> socket option \<Rightarrow> hub \<Rightarrow> bool \<times> socket option \<times> hub" where
  "hub_end now sid caller h =
     (let (t, h1) = end_transition now sid h; (st, h2) = end_pop now sid h1
      in (t, end_close caller st, end_finish t sid h2))"

definition draining_progress :: "sid \<Rightarrow> hub \<Rightarrow> (nat \<times> nat) option" where
  "draining_progress sid h = map_option (\<lambda>p. (transcribed_total p, fed_ms p)) (hb_drained h sid)"

text \<open>\<open>shutdown\<close>: every store is closed, the sessions stay live in the database.\<close>

definition hub_shutdown :: "real \<Rightarrow> hub \<Rightarrow> hub" where
  "hub_shutdown now h =
     h\<lparr>hb_states := (\<lambda>_. None),
       hb_files := (\<lambda>sid. case hb_states h sid of None \<Rightarrow> hb_files h sid | Some st \<Rightarrow> st_files (close_store now (in_store st))),
       hb_rows := (\<lambda>sid. case hb_states h sid of None \<Rightarrow> hb_rows h sid | Some st \<Rightarrow> st_rows (close_store now (in_store st)))\<rparr>"

section \<open>What a session is doing\<close>

datatype phase = PIdle | PQueued | PRunning | PFailed
datatype job_source = JLive | JUpload | JFinalize | JRegenerate | JReprocess
datatype stage = STranscription | SSummary

record job =
  jb_source :: job_source
  jb_stage :: stage
  jb_started_at :: real

record processing_state =
  ps_transcription :: phase
  ps_summary :: phase
  ps_started_at :: "real option"
  ps_job_source :: "job_source option"
  ps_progress :: "real option"

definition busy :: "processing_state \<Rightarrow> bool" where
  "busy s \<longleftrightarrow> ps_transcription s \<in> {PQueued, PRunning} \<or> ps_summary s \<in> {PQueued, PRunning}"

definition processing :: "phase \<Rightarrow> phase \<Rightarrow> real option \<Rightarrow> job_source option \<Rightarrow> processing_state" where
  "processing t s since src = \<lparr>ps_transcription = t, ps_summary = s, ps_started_at = since,
     ps_job_source = src, ps_progress = None\<rparr>"

record in_flight =
  fl_status :: status
  fl_started_at :: real
  fl_local_only :: bool
  fl_streaming :: bool
  fl_uploading_since :: "real option"
  fl_draining_since :: "real option"
  fl_job :: "job option"
  fl_transcription_failed :: bool
  fl_transcription_pending :: bool

definition derive_phases :: "in_flight \<Rightarrow> processing_state" where
  "derive_phases f =
     (let then1 = (if fl_local_only f then PIdle else PQueued) in
      case fl_job f of
        Some j \<Rightarrow>
          (case jb_stage j of
             STranscription \<Rightarrow> processing PRunning then1 (Some (jb_started_at j)) (Some (jb_source j))
           | SSummary \<Rightarrow> processing PIdle PRunning (Some (jb_started_at j)) (Some (jb_source j)))
      | None \<Rightarrow>
          if fl_status f = Finalizing \<and> fl_draining_since f \<noteq> None
          then processing PRunning then1 (fl_draining_since f) (Some JFinalize)
          else if fl_uploading_since f \<noteq> None
          then processing PRunning then1 (fl_uploading_since f) (Some JUpload)
          else if fl_status f = Live \<and> fl_streaming f
          then processing PRunning PIdle (Some (fl_started_at f)) (Some JLive)
          else if fl_transcription_pending f \<and> fl_status f \<in> {Done, Failed}
          then processing PQueued then1 None None
          else processing (if fl_transcription_failed f then PFailed else PIdle)
                 (if fl_status f = Failed then PFailed else PIdle) None None)"

definition derive :: "in_flight \<Rightarrow> real option \<Rightarrow> processing_state" where
  "derive f progress =
     (let s = derive_phases f in
      if ps_transcription s = PRunning \<and> ps_job_source s \<noteq> Some JLive then s\<lparr>ps_progress := progress\<rparr> else s)"

definition fraction :: "nat \<Rightarrow> nat \<Rightarrow> real option" where
  "fraction done_ms total_ms = (if total_ms > 0 then Some (min 1 (real done_ms / real total_ms)) else None)"

section \<open>Properties\<close>

definition hub_wf :: "hub \<Rightarrow> bool" where
  "hub_wf h \<longleftrightarrow> (\<forall>sid st. hb_states h sid = Some st \<longrightarrow> store_wf (in_store st)) \<and>
     (\<forall>sid c. chunks_tiled 0 0 (hb_rows h sid c) \<and> chunk_bytes (hb_rows h sid c) \<le> length (hb_files h sid c))"

lemma close_store_frame [simp]:
  "st_files (close_store now s) = st_files s" "st_rows (close_store now s) = st_rows s"
  "st_offset (close_store now s) = st_offset s" "st_last (close_store now s) = st_last s"
  "st_closed (close_store now s)"
  by (simp_all add: close_store_def)

lemma hub_end_simps:
  assumes "hub_end now sid caller h = (t, shut, h')"
  shows "t \<longleftrightarrow> hb_status h sid = Some Live" "hb_states h' = (hb_states h)(sid := None)"
    "hb_status h' = (if t then (hb_status h)(sid := Some Finalizing) else hb_status h)"
    "hb_finalized h' = (if t then hb_finalized h @ [sid] else hb_finalized h)"
    "hb_draining h' sid = None" "hb_started h' = hb_started h"
    "hb_files h' sid = (case hb_states h sid of None \<Rightarrow> hb_files h sid | Some st \<Rightarrow> st_files (in_store st))"
    "hb_rows h' sid = (case hb_states h sid of None \<Rightarrow> hb_rows h sid | Some st \<Rightarrow> st_rows (in_store st))"
    "d \<noteq> sid \<Longrightarrow> hb_files h' d = hb_files h d \<and> hb_rows h' d = hb_rows h d"
  using assms
  by (auto simp: hub_end_def end_transition_def end_pop_def end_finish_def Let_def split: option.splits prod.splits if_splits)

text \<open>
  Ending a session is idempotent and fires the finalizer exactly once. The call that finds
  the row live makes the transition and calls \<open>on_end\<close>; every later call returns False and
  changes neither the status nor the list of finalized sessions; other sessions are untouched.
\<close>

theorem hub_end_once:
  assumes "hub_end now sid caller h = (t, shut, h')" "hub_end now' sid caller' h' = (t', shut', h'')"
  shows "(t \<longleftrightarrow> hb_status h sid = Some Live) \<and>
     hb_finalized h' = (if t then hb_finalized h @ [sid] else hb_finalized h) \<and>
     (t \<longrightarrow> hb_status h' sid = Some Finalizing) \<and> hb_states h' sid = None \<and>
     \<not> t' \<and> shut' = None \<and> hb_status h'' = hb_status h' \<and> hb_finalized h'' = hb_finalized h' \<and>
     (\<forall>d. d \<noteq> sid \<longrightarrow> hb_status h' d = hb_status h d \<and> hb_states h' d = hb_states h d)"
proof -
  note e1 = hub_end_simps [OF assms(1)]
  have 2: "hb_states h' sid = None" "hb_status h' sid \<noteq> Some Live" using e1(1-3) by auto
  have "shut' = None"
    using assms(2) 2 by (auto simp: hub_end_def end_transition_def end_pop_def end_close_def Let_def)
  with e1 2 hub_end_simps(1-4) [OF assms(2)] show ?thesis by (simp add: fun_upd_idem)
qed

theorem hub_end_once_witness:
  "\<exists>h' h''. hub_end 1 7 None (new_hub (\<lambda>_. Some Live)) = (True, None, h') \<and>
     hub_end 2 7 None h' = (False, None, h'') \<and> hb_finalized h'' = [7]"
proof -
  obtain t c h' where 1: "hub_end 1 7 None (new_hub (\<lambda>_. Some Live)) = (t, c, h')" using prod_cases3 by blast
  obtain t' c' h'' where 2: "hub_end 2 7 None h' = (t', c', h'')" using prod_cases3 by blast
  have "c = None"
    using 1 by (auto simp: hub_end_def end_transition_def end_pop_def end_close_def new_hub_def Let_def)
  with 1 2 hub_end_once [OF 1 2] show ?thesis by (simp add: new_hub_def)
qed

lemma hub_get_fresh:
  assumes "hub_wf h" "hb_states h sid = None"
  shows "\<exists>st h'. hub_get cfg now sid chs h = (Inr st, h') \<and> hb_states h' = (hb_states h)(sid := Some st) \<and>
     hb_status h' = hb_status h \<and> hb_started h' = hb_started h @ [sid] \<and>
     hb_files h' = hb_files h \<and> hb_rows h' = hb_rows h \<and>
     store_wf (in_store st) \<and> \<not> st_closed (in_store st) \<and> st_rows (in_store st) = hb_rows h sid \<and>
     (\<forall>c. st_files (in_store st) c = take (chunk_bytes (hb_rows h sid c)) (hb_files h sid c)) \<and>
     in_channels st = chs \<and> in_pipeline st = new_pipeline (hc_pipe cfg) (hc_seg cfg) False chs"
proof -
  let ?n = "new_store now (hc_fsync_interval cfg) (hb_files h sid) (hb_rows h sid)"
  have "disk_ok ?n" using assms(1) by (simp add: disk_ok_def new_store_def hub_wf_def)
  from load_store_ok [OF this] obtain s where s: "load_store ?n = (None, s)" "store_wf s"
    "st_rows s = st_rows ?n" "st_closed s = st_closed ?n"
    "\<forall>c. st_files s c = take (chunk_bytes (st_rows ?n c)) (st_files ?n c)" by blast
  then show ?thesis
    using assms(2) by (simp add: hub_get_def Let_def) (simp add: new_store_def)
qed

lemma hub_end_wf:
  assumes "hub_wf h" "hub_end now sid caller h = (t, shut, h')"
  shows "hub_wf h'"
proof -
  note e = hub_end_simps [OF assms(2)]
  have "chunks_tiled 0 0 (hb_rows h' d c) \<and> chunk_bytes (hb_rows h' d c) \<le> length (hb_files h' d c)" for d c
  proof (cases "d = sid")
    case True
    then show ?thesis
      using assms(1) by (auto simp: e(7,8) hub_wf_def store_wf_def split: option.splits)
  next
    case False
    then show ?thesis using assms(1) e(9) [OF False] by (simp add: hub_wf_def)
  qed
  then show ?thesis using assms(1) e(2) by (auto simp: hub_wf_def split: if_splits)
qed

text \<open>
  Ending a session loses no audio: the frames its store held are the frames a later ingest
  state of the same session loads.
\<close>

theorem end_keeps_frames:
  assumes "hub_wf h" "hb_states h sid = Some st" "hub_end now sid caller h = (t, shut, h')"
  shows "\<exists>st' h''. hub_get cfg now' sid chs h' = (Inr st', h'') \<and> store_wf (in_store st') \<and>
     (\<forall>c. stored_frames (in_store st') c = stored_frames (in_store st) c)"
proof -
  note e = hub_end_simps [OF assms(3)]
  have wf: "store_wf (in_store st)" using assms(1,2) by (simp add: hub_wf_def)
  obtain st' h'' where g: "hub_get cfg now' sid chs h' = (Inr st', h'')" "store_wf (in_store st')"
    "st_rows (in_store st') = hb_rows h' sid"
    "\<forall>c. st_files (in_store st') c = take (chunk_bytes (hb_rows h' sid c)) (hb_files h' sid c)"
    using hub_get_fresh [OF hub_end_wf [OF assms(1,3)], of sid cfg now' chs] e(2) by auto
  have "st_rows (in_store st') = st_rows (in_store st)" "st_files (in_store st') = st_files (in_store st)"
    using g(3,4) wf by (auto simp: e(7,8) assms(2) store_wf_def)
  then have "stored_frames (in_store st') c = stored_frames (in_store st) c" for c
    by (simp add: stored_frames_def)
  with g show ?thesis by blast
qed

definition demo_hub :: hub where
  "demo_hub = (new_hub (\<lambda>_. Some Live))\<lparr>hb_states := (\<lambda>_. None)(3 := Some
     \<lparr>in_channels = [Mic], in_store = snd (store_append CommitOk 0 fresh_store (sample_frame 0)),
       in_pipeline = demo_start, in_producer = Some 1, in_gone_at = None, in_uploading = False,
       in_last_audio_at = 0, in_ended = False\<rparr>)\<rparr>"

definition demo_hub_config :: hub_config where
  "demo_hub_config = \<lparr>hc_fsync_interval = 1, hc_pipe = demo_config, hc_seg = default_seg_config, hc_stale_s = 10\<rparr>"

lemma demo_store:
  "store_wf (snd (store_append CommitOk 0 fresh_store (sample_frame 0)))"
  "stored_frames (snd (store_append CommitOk 0 fresh_store (sample_frame 0))) Mic = [(0, 0, sample_pcm)]"
  using store_append_new(2,3) [OF fresh_store_wf(1) sample_frame_sel(2) fresh_store_wf(2), of 0 0]
  by (simp_all add: fresh_store_wf del: channel_of.simps)

lemma demo_hub_wf: "hub_wf demo_hub"
  using demo_store(1) by (simp add: hub_wf_def demo_hub_def new_hub_def)

theorem end_keeps_frames_witness:
  "\<exists>t shut h' st' h''. hub_end 1 3 None demo_hub = (t, shut, h') \<and>
     hub_get demo_hub_config 2 3 [Mic] h' = (Inr st', h'') \<and> stored_frames (in_store st') Mic = [(0, 0, sample_pcm)]"
proof -
  obtain t c h' where 1: "hub_end 1 3 None demo_hub = (t, c, h')" using prod_cases3 by blast
  obtain st where st: "hb_states demo_hub 3 = Some st"
    "in_store st = snd (store_append CommitOk 0 fresh_store (sample_frame 0))" by (simp add: demo_hub_def)
  from end_keeps_frames [OF demo_hub_wf st(1) 1, of demo_hub_config 2 "[Mic]"] 1 st(2) demo_store(2)
  show ?thesis by metis
qed

text \<open>
  What is shown of a session follows from what is in flight. Transcription is running
  exactly for a transcription job, a draining or uploading session or a streaming live one; a
  summary is running only under a summary job; nothing is ever queued for the model for a
  local-only session; and progress is shown only for a recording of known length.
\<close>

theorem derive_sound:
  "(ps_transcription (derive f p) = PRunning \<longleftrightarrow>
      (case fl_job f of Some j \<Rightarrow> jb_stage j = STranscription
       | None \<Rightarrow> fl_status f = Finalizing \<and> fl_draining_since f \<noteq> None \<or> fl_uploading_since f \<noteq> None \<or>
                 fl_status f = Live \<and> fl_streaming f)) \<and>
   (ps_summary (derive f p) = PRunning \<longleftrightarrow> (\<exists>j. fl_job f = Some j \<and> jb_stage j = SSummary)) \<and>
   (fl_local_only f \<longrightarrow> ps_summary (derive f p) \<noteq> PQueued) \<and>
   (ps_progress (derive f p) \<noteq> None \<longrightarrow>
      ps_transcription (derive f p) = PRunning \<and> ps_job_source (derive f p) \<noteq> Some JLive) \<and>
   (busy (derive f p) \<and> ps_started_at (derive f p) = None \<longrightarrow>
      fl_transcription_pending f \<and> fl_status f \<in> {Done, Failed})"
  by (cases "fl_job f")
    (auto simp: derive_def derive_phases_def processing_def busy_def Let_def split: stage.splits)

theorem derive_sound_witness:
  "ps_summary (derive \<lparr>fl_status = Finalizing, fl_started_at = 0, fl_local_only = True, fl_streaming = False,
     fl_uploading_since = None, fl_draining_since = Some 5, fl_job = None, fl_transcription_failed = False,
     fl_transcription_pending = True\<rparr> (Some (1 / 2))) \<noteq> PQueued"
  using derive_sound [of "\<lparr>fl_status = Finalizing, fl_started_at = 0, fl_local_only = True, fl_streaming = False,
     fl_uploading_since = None, fl_draining_since = Some 5, fl_job = None, fl_transcription_failed = False,
     fl_transcription_pending = True\<rparr>" "Some (1 / 2)"] by simp

lemma fraction_bounds: "fraction d t = Some x \<Longrightarrow> 0 \<le> x \<and> x \<le> 1"
  by (auto simp: fraction_def split: if_splits)

end
