(* ===== verification/Stream.thy ===== *)
theory Stream
  imports Hub
begin

text \<open>
  The producer's side of the WebSocket endpoint (\<open>server/src/jarvis_live/api/stream.py\<close>): the
  hello, the loop over messages, and the acks. What the socket delivers is an argument; the
  database commit of each append is one too. \<open>sub\<close>, the one queue everything sent to the client
  goes through, is the list \<open>lk_out\<close>; error messages are reduced to their codes.
\<close>

section \<open>State\<close>

datatype ws_msg = Bin bytes | Txt client_message | BadText

datatype srv_event = SHelloAck cursor | SAck channel_name int | SError string

text \<open>The ask desk of a session is the list of calls it received, where it has one.\<close>

datatype desk_call = DeskFeed int bytes | DeskBegin string int | DeskEnd string int | DeskPlayed ask_played

record session =
  ss_ingest :: ingest
  ss_asks :: "desk_call list option"
  ss_drafts :: "segment_row list"
  ss_markers :: "marker list"
  ss_published :: "client_message list"

record link =
  lk_dirty :: "channel_name list"
  lk_out :: "srv_event list"
  lk_closed :: bool

datatype loop_next = Continue | Left bool | EndRequested | Raised

definition new_link :: link where
  "new_link = \<lparr>lk_dirty = [], lk_out = [], lk_closed = False\<rparr>"

text \<open>\<open>sub.put\<close>: nothing gets through once the subscription is closed.\<close>

definition put_event :: "srv_event \<Rightarrow> link \<Rightarrow> link" where
  "put_event e l = (if lk_closed l then l else l\<lparr>lk_out := lk_out l @ [e]\<rparr>)"

definition reject :: "string \<Rightarrow> link \<Rightarrow> link" where
  "reject code1 l = (put_event (SError code1) l)\<lparr>lk_closed := True\<rparr>"

section \<open>The hello\<close>

text \<open>
  \<open>_producer\<close> up to the loop. \<open>row_status\<close> is the row's status as read when the socket was
  opened; the first message may come much later. The result says which socket is closed.
\<close>

definition hello_error :: "ws_msg option \<Rightarrow> status \<Rightarrow> string option" where
  "hello_error first row_status =
     (case first of
        Some (Txt (Hello device resume)) \<Rightarrow> if row_status \<noteq> Live then Some ''session_not_live'' else None
      | _ \<Rightarrow> Some ''hello_required'')"

definition take_over :: "socket \<Rightarrow> ingest \<Rightarrow> socket option \<times> ingest" where
  "take_over ws st =
     ((if in_producer st \<noteq> None \<and> in_producer st \<noteq> Some ws then in_producer st else None),
      st\<lparr>in_producer := Some ws, in_gone_at := None\<rparr>)"

definition producer_begin ::
  "hub_config \<Rightarrow> real \<Rightarrow> sid \<Rightarrow> channel_name list \<Rightarrow> status \<Rightarrow> socket \<Rightarrow> ws_msg option \<Rightarrow> hub \<Rightarrow> link
     \<Rightarrow> socket option \<times> hub \<times> link" where
  "producer_begin cfg now sid chs row_status ws first h l =
     (case hello_error first row_status of
        Some e \<Rightarrow> (None, h, if first = None then l else reject e l)
      | None \<Rightarrow>
          (case hub_get cfg now sid chs h of
             (Inl err, h') \<Rightarrow> (None, h', l)
           | (Inr st, h') \<Rightarrow>
               let (old, st') = take_over ws st in
               (old, h'\<lparr>hb_states := (hb_states h')(sid := Some st')\<rparr>,
                put_event (SHelloAck (store_cursor (in_store st'))) l)))"

section \<open>The loop\<close>

definition add_dirty :: "channel_name \<Rightarrow> link \<Rightarrow> link" where
  "add_dirty c l = l\<lparr>lk_dirty := List.insert c (lk_dirty l)\<rparr>"

definition feed_asks :: "channel_name \<Rightarrow> frame \<Rightarrow> session \<Rightarrow> session" where
  "feed_asks c f s =
     (case ss_asks s of
        Some calls \<Rightarrow> if c = Mic then s\<lparr>ss_asks := Some (calls @ [DeskFeed (fr_t_ms f) (fr_pcm f)])\<rparr> else s
      | None \<Rightarrow> s)"

text \<open>A binary message: a frame.\<close>

definition on_binary ::
  "(bytes list \<Rightarrow> bool) \<Rightarrow> commit_result \<Rightarrow> real \<Rightarrow> bytes \<Rightarrow> session \<times> link \<Rightarrow> loop_next \<times> session \<times> link" where
  "on_binary vad commits now d = (\<lambda>(s, l).
     case decode_frame d of
       Inl e \<Rightarrow> (Left False, s, reject ''bad_frame'' l)
     | Inr f \<Rightarrow>
       (case channel_of (fr_channel f) of
          None \<Rightarrow> (Raised, s, l)
        | Some c \<Rightarrow>
          if c \<notin> set (in_channels (ss_ingest s)) then (Left False, s, reject ''bad_channel'' l)
          else
            let (r, store') = store_append commits now (in_store (ss_ingest s)) f;
                s1 = s\<lparr>ss_ingest := (ss_ingest s)\<lparr>in_store := store'\<rparr>\<rparr>
            in case r of
              Inl (SeqGap _ _ _) \<Rightarrow> (Left False, s1, reject ''seq_gap'' l)
            | Inl StoreClosed \<Rightarrow> (Left False, s1, reject ''session_not_live'' l)
            | Inl _ \<Rightarrow> (Raised, s1, l)
            | Inr Duplicate \<Rightarrow> (Continue, s1, add_dirty c l)
            | Inr Stored \<Rightarrow>
                let s2 = s1\<lparr>ss_ingest := (ss_ingest s1)\<lparr>
                      in_pipeline := pl_feed vad c (fr_pcm f) (in_pipeline (ss_ingest s1)),
                      in_last_audio_at := now\<rparr>\<rparr>
                in (Continue, feed_asks c f s2, add_dirty c l)))"

definition ask_call :: "client_message \<Rightarrow> desk_call option" where
  "ask_call m = (case m of AskBegin i t \<Rightarrow> Some (DeskBegin i t) | AskEnd i t \<Rightarrow> Some (DeskEnd i t)
                  | AskPlayed a \<Rightarrow> Some (DeskPlayed a) | _ \<Rightarrow> None)"

definition on_text :: "client_message \<Rightarrow> session \<times> link \<Rightarrow> loop_next \<times> session \<times> link" where
  "on_text m = (\<lambda>(s, l).
     case m of
       Draft d \<Rightarrow> (Continue, s\<lparr>ss_drafts := (if ds_final d then save_draft (ss_drafts s) d else ss_drafts s),
                              ss_published := ss_published s @ [Draft d]\<rparr>, l)
     | MarkerMsg k \<Rightarrow> (Continue, s\<lparr>ss_markers := save_marker (ss_markers s) k,
                                   ss_published := ss_published s @ [MarkerMsg k]\<rparr>, l)
     | End \<Rightarrow> (EndRequested, s, l)
     | Hello _ _ \<Rightarrow> (Left False, s, reject ''unexpected_hello'' l)
     | _ \<Rightarrow> (Continue, case (ss_asks s, ask_call m) of (Some calls, Some call) \<Rightarrow> s\<lparr>ss_asks := Some (calls @ [call])\<rparr>
                        | _ \<Rightarrow> s, l))"

definition on_message ::
  "(bytes list \<Rightarrow> bool) \<Rightarrow> commit_result \<Rightarrow> real \<Rightarrow> ws_msg option \<Rightarrow> session \<times> link \<Rightarrow> loop_next \<times> session \<times> link" where
  "on_message vad commits now msg sl =
     (case msg of
        None \<Rightarrow> (Left False, sl)
      | Some (Bin d) \<Rightarrow> on_binary vad commits now d sl
      | Some BadText \<Rightarrow> (Left False, fst sl, reject ''bad_message'' (snd sl))
      | Some (Txt m) \<Rightarrow> on_text m sl)"


section \<open>Acks\<close>

definition ack_of :: "store \<Rightarrow> channel_name \<Rightarrow> srv_event list" where
  "ack_of st c = (case cursor_at (store_cursor st) c of None \<Rightarrow> [] | Some seq \<Rightarrow> [SAck c seq])"

text \<open>\<open>_flush_acks\<close>: the dirty channels in sorted order, each at its cursor.\<close>

definition flush_acks :: "session \<times> link \<Rightarrow> link" where
  "flush_acks = (\<lambda>(s, l).
     (fold put_event (concat (map (ack_of (in_store (ss_ingest s))) (filter (\<lambda>c. c \<in> set (lk_dirty l)) [Mic, System]))) l)
       \<lparr>lk_dirty := []\<rparr>)"

text \<open>After the loop: the producer is gone, files are synced, and a session that was ended gets
  its last acks.\<close>

definition producer_leave :: "real \<Rightarrow> socket \<Rightarrow> bool \<Rightarrow> session \<times> link \<Rightarrow> session \<times> link" where
  "producer_leave now ws ended = (\<lambda>(s, l).
     let st = ss_ingest s;
         st1 = (if in_producer st = Some ws then st\<lparr>in_producer := None, in_gone_at := Some now\<rparr> else st);
         s1 = s\<lparr>ss_ingest := st1\<lparr>in_store := snd (maybe_fsync now True (in_store st1))\<rparr>\<rparr>
     in (s1, if ended then flush_acks (s1, l) else l))"

section \<open>What is stored is heard\<close>

definition heard_bytes :: "segmenter \<Rightarrow> bytes" where
  "heard_bytes s = concat (sg_shown s) @ sg_buf s"

lemma seg_feed_heard:
  assumes "seg_inv vad e s" "seg_feed vad s pcm = (out, s')"
  shows "heard_bytes s' = heard_bytes s @ pcm"
proof -
  let ?s = "s\<lparr>sg_buf := sg_buf s @ pcm\<rparr>"
  have "seg_inv vad e ?s" "feed_loop vad (frame_bytes s) ?s = (out, s')"
    using assms by (simp_all add: seg_inv_buf seg_feed_def)
  from feed_loop_spec [OF this] obtain ps where "sg_shown s' = sg_shown s @ ps"
    "concat ps @ sg_buf s' = sg_buf s @ pcm" by auto
  then show ?thesis by (simp add: heard_bytes_def)
qed

lemma pl_feed_heard:
  assumes "pl_wf vad p" "\<not> pl_finishing p"
  shows "heard_bytes (pl_segmenter (pl_feed vad c pcm p) d) = heard_bytes (pl_segmenter p d) @ (if d = c then pcm else [])"
    "\<not> pl_finishing (pl_feed vad c pcm p)" "pl_wf vad (pl_feed vad c pcm p)"
proof -
  obtain e where e: "seg_inv vad e (pl_segmenter p c)" using pl_wf_seg [OF assms(1)] by blast
  obtain out s' where f: "seg_feed vad (pl_segmenter p c) pcm = (out, s')" by fastforce
  show "heard_bytes (pl_segmenter (pl_feed vad c pcm p) d) = heard_bytes (pl_segmenter p d) @ (if d = c then pcm else [])"
    using seg_feed_heard [OF e f] assms(2) by (simp add: pl_feed_def f enqueue_fold)
  show "\<not> pl_finishing (pl_feed vad c pcm p)" using assms(2) by (simp add: pl_feed_def f enqueue_fold)
  show "pl_wf vad (pl_feed vad c pcm p)" using feed_advances [OF assms(1)] by (simp add: advances_def)
qed

definition session_ok :: "(bytes list \<Rightarrow> bool) \<Rightarrow> session \<Rightarrow> bool" where
  "session_ok vad s \<longleftrightarrow> store_wf (in_store (ss_ingest s)) \<and> pl_wf vad (in_pipeline (ss_ingest s)) \<and>
     \<not> pl_finishing (in_pipeline (ss_ingest s))"

text \<open>The frames of a channel grew by \<open>new\<close>, and the pipeline heard their audio.\<close>

definition took_in :: "session \<Rightarrow> session \<Rightarrow> channel_name \<Rightarrow> (int \<times> int \<times> bytes) list \<Rightarrow> bool" where
  "took_in s s' c new \<longleftrightarrow>
     stored_frames (in_store (ss_ingest s')) c = stored_frames (in_store (ss_ingest s)) c @ new \<and>
     heard_bytes (pl_segmenter (in_pipeline (ss_ingest s')) c) =
       heard_bytes (pl_segmenter (in_pipeline (ss_ingest s)) c) @ concat (map (snd \<circ> snd) new)"

lemma took_in_refl: "took_in s s c []"
  by (simp add: took_in_def)


lemma decoded_facts:
  assumes "decode_frame d = Inr f"
  shows "0 \<le> fr_seq f" "\<exists>c. channel_of (fr_channel f) = Some c"
  using assms le_value_bounds
  by (auto simp: decode_frame_def unpack_header_def Let_def CHANNEL_MIC_def CHANNEL_SYSTEM_def
      split: if_splits option.splits)

lemma store_append_cases:
  assumes "store_wf st" "channel_of (fr_channel f) = Some c" "0 \<le> fr_seq f" "commits \<noteq> CommitReplyLost"
    "store_append commits now st f = (r, st')"
  shows "r = Inr Stored \<and> \<not> st_closed st \<and> fr_seq f = next_index st c \<and> commits = CommitOk \<or>
    r \<noteq> Inr Stored \<and> st' = st"
proof (cases "st_closed st")
  case True
  then have "store_append commits now st f = (Inl StoreClosed, st)"
    using assms(2) by (simp add: store_append_def del: channel_of.simps)
  then show ?thesis using assms(5) by simp
next
  case opn: False
  consider "fr_seq f < next_index st c" | "next_index st c < fr_seq f" | "fr_seq f = next_index st c" by linarith
  then show ?thesis
  proof cases
    case 1
    then show ?thesis using store_append_duplicate [OF assms(1,2) opn 1 assms(3)] assms(5) by auto
  next
    case 2
    then show ?thesis using store_append_gap [OF assms(1,2) opn 2] assms(5) by auto
  next
    case 3
    show ?thesis
    proof (cases commits)
      case CommitOk
      then show ?thesis using store_append_new(1) [OF assms(1,2) opn 3, of now] assms(5) opn 3 by simp
    next
      case CommitFails
      then show ?thesis using store_append_failed [OF assms(1,2) opn 3, of now] assms(5) by auto
    qed (use assms(4) in simp)
  qed
qed

lemma on_binary_spec:
  assumes "session_ok vad s" "commits \<noteq> CommitReplyLost" "on_binary vad commits now d (s, l) = (nx, s', l')"
  shows "session_ok vad s' \<and> (\<forall>c. \<exists>new. took_in s s' c new)"
proof (cases "decode_frame d")
  case (Inl e)
  then show ?thesis using assms took_in_refl by (auto simp: on_binary_def)
next
  case (Inr f)
  obtain c where c: "channel_of (fr_channel f) = Some c" using decoded_facts(2) [OF Inr] by blast
  let ?st = "in_store (ss_ingest s)"
  have wf: "store_wf ?st" and pw: "pl_wf vad (in_pipeline (ss_ingest s))" "\<not> pl_finishing (in_pipeline (ss_ingest s))"
    using assms(1) by (simp_all add: session_ok_def)
  obtain r st' where ap: "store_append commits now ?st f = (r, st')" by fastforce
  note cases = store_append_cases [OF wf c decoded_facts(1) [OF Inr] assms(2) ap]
  show ?thesis
  proof (cases "c \<in> set (in_channels (ss_ingest s)) \<and> r = Inr Stored")
    case False
    have "s' = s \<or> s' = s\<lparr>ss_ingest := (ss_ingest s)\<lparr>in_store := st'\<rparr>\<rparr> \<and> r \<noteq> Inr Stored"
      using assms(3) Inr c ap False
      by (auto simp: on_binary_def Let_def split: if_splits store_error.splits append_outcome.splits sum.splits)
    then have "s' = s" using cases by auto
    then show ?thesis using assms(1) took_in_refl by blast
  next
    case True
    with cases have ok: "\<not> st_closed ?st" "fr_seq f = next_index ?st c" "commits = CommitOk" by auto
    have st': "st' = snd (store_append CommitOk now ?st f)" using ap ok(3) by simp
    note new = store_append_new [OF wf c ok(1,2), where now = now, folded st']
    let ?p = "in_pipeline (ss_ingest s)"
    have s': "in_store (ss_ingest s') = st'" "in_pipeline (ss_ingest s') = pl_feed vad c (fr_pcm f) ?p"
      using assms(3) Inr c ap True
      by (auto simp: on_binary_def Let_def feed_asks_def split: option.splits if_splits)
    note hd = pl_feed_heard [OF pw, of c "fr_pcm f"]
    have "took_in s s' d (if d = c then [(fr_seq f, fr_t_ms f, fr_pcm f)] else [])" for d
      using new(3,4) hd(1) by (simp add: took_in_def s')
    then show ?thesis using new(2) hd(2,3) by (auto simp: session_ok_def s')
  qed
qed

lemma on_message_spec:
  assumes "session_ok vad s" "commits \<noteq> CommitReplyLost" "on_message vad commits now msg (s, l) = (nx, s', l')"
  shows "session_ok vad s' \<and> (\<forall>c. \<exists>new. took_in s s' c new)"
proof (cases "\<exists>d. msg = Some (Bin d)")
  case True
  then show ?thesis using on_binary_spec [OF assms(1,2)] assms(3) by (auto simp: on_message_def)
next
  case False
  then have "ss_ingest s' = ss_ingest s"
    using assms(3)
    by (auto simp: on_message_def on_text_def split: option.splits ws_msg.splits client_message.splits)
  then have "took_in s s' c []" "session_ok vad s'" for c using assms(1) by (simp_all add: took_in_def session_ok_def)
  then show ?thesis by blast
qed



definition demo_session :: session where
  "demo_session = \<lparr>ss_ingest = \<lparr>in_channels = [Mic], in_store = fresh_store,
     in_pipeline = new_pipeline demo_config default_seg_config False [Mic], in_producer = Some 1, in_gone_at = None,
     in_uploading = False, in_last_audio_at = 0, in_ended = False\<rparr>, ss_asks = None, ss_drafts = [],
     ss_markers = [], ss_published = []\<rparr>"

lemma demo_session_ok: "session_ok vad demo_session"
proof -
  have "cfg_ok default_seg_config" by (simp add: cfg_ok_def default_seg_config_def ceil_div_def)
  then show ?thesis
    using new_pipeline_wf [of default_seg_config vad]
    by (simp add: session_ok_def demo_session_def fresh_store_wf) (simp add: new_pipeline_def)
qed

definition sample_wire :: bytes where
  "sample_wire = projr (encode_frame 0 0 0 sample_pcm)"

lemma sample_wire_decodes: "decode_frame sample_wire = Inr (sample_frame 0)"
proof -
  obtain d where d: "encode_frame 0 0 0 sample_pcm = Inr d"
    by (auto simp: encode_frame_def sample_pcm_ok CHANNEL_MIC_def pack_header_def fits_def eval_simps)
  then have "decode_frame d = Inr (sample_frame 0)"
    by (auto simp: encode_frame_Inr decode_frame_Inr unpack_pack_header pack_header_length sample_frame_def
        PROTOCOL_VERSION_def dest: pack_header_length)
  with d show ?thesis by (simp add: sample_wire_def)
qed

lemma demo_frame_stored:
  "fst (store_append CommitOk 0 fresh_store (sample_frame 0)) = Inr Stored"
  using store_append_new(1) [OF fresh_store_wf(1) sample_frame_sel(2) fresh_store_wf(2), of 0 0]
  by (simp add: fresh_store_wf del: channel_of.simps)

lemma demo_message:
  assumes "on_message vad CommitOk 0 (Some (Bin sample_wire)) (demo_session, l) = (nx, s', l')"
  shows "nx = Continue" "stored_frames (in_store (ss_ingest s')) Mic = [(0, 0, sample_pcm)]"
proof -
  obtain t where t: "store_append CommitOk 0 fresh_store (sample_frame 0) = (Inr Stored, t)"
    "stored_frames t Mic = [(0, 0, sample_pcm)]"
    using demo_frame_stored demo_store(2) by (metis prod.collapse)
  then show "nx = Continue" "stored_frames (in_store (ss_ingest s')) Mic = [(0, 0, sample_pcm)]"
    using assms
    by (auto simp: on_message_def on_binary_def sample_wire_decodes demo_session_def feed_asks_def Let_def
        simp del: channel_of.simps)
qed


section \<open>Acks\<close>

lemma put_events_out:
  "lk_out (fold put_event es l) = (if lk_closed l then lk_out l else lk_out l @ es)"
  "lk_closed (fold put_event es l) = lk_closed l"
  by (induction es arbitrary: l) (auto simp: put_event_def)

text \<open>
  An ack means the frame is stored: every ack sent names the newest committed row of its
  channel, so every frame up to it is in the index, numbered without a gap.
\<close>

theorem acks_are_stored:
  assumes "store_wf (in_store (ss_ingest s))" "SAck c n \<in> set (lk_out (flush_acks (s, l)))"
    "SAck c n \<notin> set (lk_out l)"
  shows "c \<in> set (lk_dirty l) \<and>
     map ck_seq (st_rows (in_store (ss_ingest s)) c) = map int [0..<nat (n + 1)] \<and> 0 \<le> n"
proof -
  let ?st = "in_store (ss_ingest s)"
  have seqs: "chunks_tiled k off rs \<Longrightarrow> map ck_seq rs = map (\<lambda>i. k + int i) [0..<length rs]" for k off rs
  proof (induction rs arbitrary: k off)
    case (Cons r rs)
    have "map ck_seq rs = map (\<lambda>i. (k + 1) + int i) [0..<length rs]"
      by (rule Cons.IH [of "k + 1" "off + ck_len r"]) (use Cons.prems in simp)
    then show ?case using Cons.prems by (simp add: upt_conv_Cons map_Suc_upt [symmetric] add.assoc del: upt_Suc)
  qed simp
  have "SAck c n \<in> set (ack_of ?st c)" "c \<in> set (lk_dirty l)"
    using assms(2,3)
    by (auto simp: flush_acks_def put_events_out ack_of_def split: if_splits option.splits)
  then have "st_last ?st c = Some n"
    by (cases c) (auto simp: ack_of_def store_cursor_def split: option.splits)
  then have "n = int (length (st_rows ?st c)) - 1" "st_rows ?st c \<noteq> []" "chunks_tiled 0 0 (st_rows ?st c)"
    using assms(1) by (auto simp: store_wf_def split: if_splits)
  then have "nat (n + 1) = length (st_rows ?st c)" "0 \<le> n" "map ck_seq (st_rows ?st c) = map int [0..<length (st_rows ?st c)]"
    using seqs [of 0 0 "st_rows ?st c"] by (simp_all add: Suc_le_eq)
  then show ?thesis using \<open>c \<in> set (lk_dirty l)\<close> by simp
qed

theorem acks_are_stored_witness:
  "\<exists>nx s' l'. on_message always_speech CommitOk 0 (Some (Bin sample_wire)) (demo_session, new_link) = (nx, s', l') \<and>
     lk_out (flush_acks (s', l')) = [SAck Mic 0] \<and> map ck_seq (st_rows (in_store (ss_ingest s')) Mic) = [0]"
proof -
  obtain nx s' l' where m: "on_message always_speech CommitOk 0 (Some (Bin sample_wire)) (demo_session, new_link) = (nx, s', l')"
    using prod_cases3 by blast
  have wf: "store_wf (in_store (ss_ingest s'))"
    using on_message_spec [OF demo_session_ok _ m] by (simp add: session_ok_def)
  have "length (st_rows (in_store (ss_ingest s')) Mic) = 1"
    using demo_message(2) [OF m] by (metis length_map stored_frames_def length_Cons list.size(3) One_nat_def)
  then have last: "st_last (in_store (ss_ingest s')) Mic = Some 0"
    using wf by (auto simp: store_wf_def)
  have l': "lk_dirty l' = [Mic]" "lk_out l' = []" "\<not> lk_closed l'"
    using m demo_message(1) [OF m]
    by (auto simp: on_message_def on_binary_def sample_wire_decodes add_dirty_def new_link_def Let_def
        split: if_splits sum.splits prod.splits store_error.splits append_outcome.splits simp del: channel_of.simps)
  then have out: "lk_out (flush_acks (s', l')) = [SAck Mic 0]"
    by (simp add: flush_acks_def put_event_def ack_of_def store_cursor_def last)
  with acks_are_stored [OF wf, of Mic 0 l'] l' m show ?thesis by auto
qed

section \<open>A hello after the end\<close>

text \<open>
  The status a producer is checked against is the one read when its socket opened. If the
  session is ended between that and its hello, the hello brings the session back: a new ingest
  state with an open store and a new \<open>on_start\<close>, for a session whose row is \<open>finalizing\<close> and
  whose \<open>on_end\<close> has run.
\<close>

theorem late_hello_reopens_session:
  assumes "hub_wf h" "hb_status h sid = Some Live" "hub_end now sid caller h = (t, shut, h1)"
    "producer_begin cfg now' sid chs Live ws (Some (Txt (Hello device resume))) h1 l = (old, h2, l2)"
  shows "hb_status h2 sid = Some Finalizing \<and> sid \<in> set (hb_finalized h2) \<and>
     hb_started h2 = hb_started h @ [sid] \<and>
     (\<exists>st. hb_states h2 sid = Some st \<and> \<not> st_closed (in_store st) \<and> in_producer st = Some ws)"
proof -
  note e = hub_end_simps [OF assms(3)]
  obtain st h' where g: "hub_get cfg now' sid chs h1 = (Inr st, h')" "hb_status h' = hb_status h1"
    "hb_started h' = hb_started h1 @ [sid]" "\<not> st_closed (in_store st)"
    using hub_get_fresh [OF hub_end_wf [OF assms(1,3)], of sid cfg now' chs] e(2) by auto
  have "hb_finalized h' = hb_finalized h1"
    using g(1) by (auto simp: hub_get_def Let_def split: option.splits prod.splits)
  then show ?thesis
    using assms(2,4) g e
    by (auto simp: producer_begin_def hello_error_def take_over_def Let_def)
qed

theorem late_hello_reopens_session_witness:
  "\<exists>t shut h1 old h2 l2. hub_end 1 3 None demo_hub = (t, shut, h1) \<and>
     producer_begin demo_hub_config 2 3 [Mic] Live 9 (Some (Txt (Hello ''linux'' \<lparr>cur_mic = None, cur_system = None\<rparr>)))
       h1 new_link = (old, h2, l2) \<and>
     hb_status h2 3 = Some Finalizing \<and> hb_states h2 3 \<noteq> None"
proof -
  obtain t c h1 where 1: "hub_end 1 3 None demo_hub = (t, c, h1)" using prod_cases3 by blast
  obtain old h2 l2 where 2: "producer_begin demo_hub_config 2 3 [Mic] Live 9
    (Some (Txt (Hello ''linux'' \<lparr>cur_mic = None, cur_system = None\<rparr>))) h1 new_link = (old, h2, l2)"
    using prod_cases3 by blast
  have "hb_status demo_hub 3 = Some Live" by (simp add: demo_hub_def new_hub_def)
  from late_hello_reopens_session [OF demo_hub_wf this 1 2] 1 2 show ?thesis by blast
qed

end
