(* ===== verification/Delivery.thy ===== *)
theory Delivery
  imports Transport Stream
begin

text \<open>
  Delivery of audio from the client's outbox to the server's store over connections that break
  at any point. The two interfaces are locales: \<open>frame_source\<close> (what the transport needs of an
  outbox) and \<open>frame_sink\<close> (what the stream needs of a store); \<open>frame_link\<close> joins them, and the
  protocol's argument is made once there. They are interpreted on the outbox of the client and
  on the store of the server, and the step relation at the end composes the operations of
  \<open>client/transport.py\<close>, \<open>client/outbox.py\<close>, \<open>api/stream.py\<close> and \<open>ingest/store.py\<close>.
\<close>

section \<open>The interfaces\<close>

text \<open>
  A source numbers the frames pushed into it from 0, keeps those not acked, and an ack is
  cumulative. \<open>lowest\<close> is the first number not acked.
\<close>

locale frame_source =
  fixes src_inv :: "'s \<Rightarrow> bool"
    and pend :: "'s \<Rightarrow> 'f list"
    and nxt :: "'s \<Rightarrow> int"
    and lowest :: "'s \<Rightarrow> int"
    and seq :: "'f \<Rightarrow> int"
    and push :: "'p \<Rightarrow> 's \<Rightarrow> ('f \<times> 's) option"
    and ack :: "int \<Rightarrow> 's \<Rightarrow> 's option"
  assumes push_law: "src_inv s \<Longrightarrow> push p s = Some (f, s') \<Longrightarrow>
      src_inv s' \<and> pend s' = pend s @ [f] \<and> seq f = nxt s \<and> nxt s' = nxt s + 1 \<and> lowest s' = lowest s"
    and ack_law: "src_inv s \<Longrightarrow> -1 \<le> n \<Longrightarrow> n < nxt s \<Longrightarrow>
      \<exists>s'. ack n s = Some s' \<and> src_inv s' \<and> pend s' = filter (\<lambda>f. n < seq f) (pend s) \<and>
        nxt s' = nxt s \<and> lowest s' = max (lowest s) (n + 1)"

text \<open>
  A sink keeps the frames it accepted, numbered from 0; it takes the next one, ignores an
  earlier one and refuses a later one. \<open>put\<close> may also fail to take the next one (a commit that
  did not go through), and then has done nothing.
\<close>

locale frame_sink =
  fixes snk_inv :: "'t \<Rightarrow> bool"
    and kept :: "'t \<Rightarrow> 'g list"
    and gseq :: "'g \<Rightarrow> int"
    and put :: "bool \<Rightarrow> 'g \<Rightarrow> 't \<Rightarrow> bool \<times> 't"
  assumes put_new: "snk_inv t \<Longrightarrow> gseq g = int (length (kept t)) \<Longrightarrow>
      fst (put True g t) \<and> snk_inv (snd (put True g t)) \<and> kept (snd (put True g t)) = kept t @ [g]"
    and put_failed: "snk_inv t \<Longrightarrow> gseq g = int (length (kept t)) \<Longrightarrow> put False g t = (False, t)"
    and put_old: "snk_inv t \<Longrightarrow> 0 \<le> gseq g \<Longrightarrow> gseq g < int (length (kept t)) \<Longrightarrow> put b g t = (True, t)"
    and put_gap: "snk_inv t \<Longrightarrow> int (length (kept t)) < gseq g \<Longrightarrow> put b g t = (False, t)"

text \<open>
  Numbers on the way to a sink that has \<open>k\<close> frames: none leaves a gap; and how far the sink is
  once they are all taken.
\<close>

fun gapless :: "int \<Rightarrow> int list \<Rightarrow> bool" where
  "gapless k [] = True"
| "gapless k (n # ns) = (n \<le> k \<and> gapless (max k (n + 1)) ns)"

definition reach :: "int \<Rightarrow> int list \<Rightarrow> int" where
  "reach k ns = fold (\<lambda>n k. max k (n + 1)) ns k"

lemma reach_mono: "k \<le> k' \<Longrightarrow> reach k ns \<le> reach k' ns"
  by (induction ns arbitrary: k k') (simp_all add: reach_def max.coboundedI1 max.mono)

lemma reach_simps [simp]: "reach k [] = k" "reach k (n # ns) = reach (max k (n + 1)) ns"
  "reach k (ms @ ns) = reach (reach k ms) ns"
  by (simp_all add: reach_def)

lemma reach_ge: "k \<le> reach k ns"
  by (induction ns arbitrary: k) (simp, fastforce intro: order_trans [rotated])

lemma gapless_mono: "k \<le> k' \<Longrightarrow> gapless k ns \<Longrightarrow> gapless k' ns"
proof (induction ns arbitrary: k k')
  case (Cons n ns)
  then show ?case using Cons.IH [of "max k (n + 1)" "max k' (n + 1)"] by auto
qed simp

lemma gapless_append: "gapless k (ms @ ns) \<longleftrightarrow> gapless k ms \<and> gapless (reach k ms) ns"
  by (induction ms arbitrary: k) auto

lemma gapless_run:
  "a \<le> k \<Longrightarrow> gapless k (map (\<lambda>i. a + int i) [0..<m]) \<and> a + int m \<le> max k (reach k (map (\<lambda>i. a + int i) [0..<m]))"
proof (induction m)
  case (Suc m)
  have "a + int m \<le> reach k (map (\<lambda>i. a + int i) [0..<m])"
    using Suc reach_ge [of k "map (\<lambda>i. a + int i) [0..<m]"] by linarith
  then show ?case using Suc by (simp add: gapless_append)
qed simp

lemma filter_seq_drop:
  assumes "map seq L = map int [0..<length L]"
  shows "filter (\<lambda>f. n < seq f) (drop low L) = drop (max low (nat (n + 1))) L"
proof -
  have s: "seq (L ! i) = int i" if "i < length L" for i
    using assms that by (metis add_0 length_map nth_map nth_upt)
  let ?m = "nat (n + 1)"
  have "filter (\<lambda>f. n < seq f) (take ?m L) = []"
    using s by (auto simp: filter_empty_conv in_set_conv_nth)
  moreover have "filter (\<lambda>f. n < seq f) (drop ?m L) = drop ?m L"
    using s by (auto simp: filter_id_conv in_set_conv_nth)
  ultimately show ?thesis
  proof (cases "low \<le> ?m")
    case True
    have "drop low L = drop low (take ?m L) @ drop ?m L"
      using True by (metis append_take_drop_id drop_take drop_drop le_add_diff_inverse2 take_drop add.commute)
    then show ?thesis using True \<open>filter _ (take _ _) = []\<close> \<open>filter _ (drop _ _) = _\<close>
      by (simp add: filter_empty_conv max_def) (metis in_set_dropD)
  next
    case False
    then have "filter (\<lambda>f. n < seq f) (drop low L) = drop low L"
      using s by (auto simp: filter_id_conv in_set_conv_nth)
    then show ?thesis using False by (simp add: max_def)
  qed
qed

locale frame_link = frame_source src_inv pend nxt lowest seq push ack + frame_sink snk_inv kept gseq put
  for src_inv :: "'s \<Rightarrow> bool" and pend :: "'s \<Rightarrow> 'f list" and nxt lowest seq
    and push :: "'p \<Rightarrow> 's \<Rightarrow> ('f \<times> 's) option" and ack
    and snk_inv :: "'t \<Rightarrow> bool" and kept :: "'t \<Rightarrow> 'g list" and gseq put +
  fixes conv :: "'f \<Rightarrow> 'g"
  assumes conv_seq: "gseq (conv f) = seq f"
begin

text \<open>
  The captured frames are \<open>L\<close>: the sink has a prefix of them, the source still has everything
  from a point inside that prefix on.
\<close>

definition agree :: "'f list \<Rightarrow> 's \<Rightarrow> 't \<Rightarrow> bool" where
  "agree L s t \<longleftrightarrow> src_inv s \<and> snk_inv t \<and> map seq L = map int [0..<length L] \<and> nxt s = int (length L) \<and>
     (\<exists>low. low \<le> length (kept t) \<and> pend s = drop low L \<and> lowest s = int low) \<and>
     length (kept t) \<le> length L \<and> kept t = map conv (take (length (kept t)) L)"

lemma seq_nth: "map seq L = map int [0..<length L] \<Longrightarrow> i < length L \<Longrightarrow> seq (L ! i) = int i"
  by (metis add_0 length_map nth_map nth_upt)

lemma agree_push:
  assumes "agree L s t" "push p s = Some (f, s')"
  shows "agree (L @ [f]) s' t"
proof -
  obtain low where "low \<le> length (kept t)" "pend s = drop low L" "lowest s = int low" "length (kept t) \<le> length L"
    using assms(1) by (auto simp: agree_def)
  with assms push_law [of s p f s'] show ?thesis
    by (auto simp: agree_def intro!: exI [of _ low])
qed

lemma agree_seqs:
  assumes "agree L s t" "f \<in> set L"
  shows "\<exists>i < length L. f = L ! i \<and> seq f = int i"
  using assms seq_nth by (metis agree_def in_set_conv_nth)

text \<open>A frame that leaves no gap is taken, or was there already.\<close>

lemma agree_put:
  assumes "agree L s t" "f \<in> set L" "seq f \<le> int (length (kept t))"
  shows "agree L s (snd (put b (conv f) t))"
    and "fst (put True (conv f) t)" "length (kept (snd (put True (conv f) t))) = max (length (kept t)) (nat (seq f) + 1)"
    and "length (kept t) \<le> length (kept (snd (put b (conv f) t)))"
    and "fst (put b (conv f) t) \<Longrightarrow> length (kept (snd (put b (conv f) t))) = max (length (kept t)) (nat (seq f) + 1)"
    and "length (kept (snd (put b (conv f) t))) \<le> length (kept t) + 1"
proof -
  let ?k = "length (kept t)"
  obtain i where i: "i < length L" "f = L ! i" "seq f = int i" using agree_seqs [OF assms(1,2)] by blast
  have inv: "snk_inv t" "kept t = map conv (take ?k L)" using assms(1) by (simp_all add: agree_def)
  consider "i < ?k" | "i = ?k" using assms(3) i(3) by linarith
  then have main: "(\<forall>b. agree L s (snd (put b (conv f) t)) \<and> ?k \<le> length (kept (snd (put b (conv f) t))) \<and>
       length (kept (snd (put b (conv f) t))) \<le> ?k + 1 \<and>
       (fst (put b (conv f) t) \<longrightarrow> length (kept (snd (put b (conv f) t))) = max ?k (i + 1))) \<and> fst (put True (conv f) t)"
  proof cases
    case 1
    then have "put b (conv f) t = (True, t)" for b using put_old [OF inv(1), of "conv f" b] i(3) by (simp add: conv_seq)
    then show ?thesis using assms(1) 1 by simp
  next
    case 2
    then have g: "gseq (conv f) = int ?k" using i(3) by (simp add: conv_seq)
    note new = put_new [OF inv(1) g] and fail = put_failed [OF inv(1) g]
    have "kept (snd (put True (conv f) t)) = map conv (take (Suc ?k) L)"
      using new inv(2) 2 i by (metis list.simps(8,9) map_append take_Suc_conv_app_nth)
    then have "agree L s (snd (put True (conv f) t))"
      using assms(1) new 2 i(1) by (auto simp: agree_def intro: le_SucI)
    then show ?thesis using new fail assms(1) 2 by (auto simp: all_bool_eq)
  qed
  then show "agree L s (snd (put b (conv f) t))" "fst (put True (conv f) t)"
    "length (kept (snd (put True (conv f) t))) = max ?k (nat (seq f) + 1)"
    "?k \<le> length (kept (snd (put b (conv f) t)))"
    "fst (put b (conv f) t) \<Longrightarrow> length (kept (snd (put b (conv f) t))) = max ?k (nat (seq f) + 1)"
    "length (kept (snd (put b (conv f) t))) \<le> ?k + 1"
    using i(3) by auto
qed

text \<open>An ack of something the sink has is applied and keeps the agreement.\<close>

lemma agree_ack:
  assumes "agree L s t" "-1 \<le> n" "n < int (length (kept t))"
  shows "\<exists>s'. ack n s = Some s' \<and> agree L s' t"
proof -
  obtain low where low: "low \<le> length (kept t)" "pend s = drop low L" "lowest s = int low"
    using assms(1) by (auto simp: agree_def)
  have inv: "src_inv s" "nxt s = int (length L)" "length (kept t) \<le> length L" "map seq L = map int [0..<length L]"
    using assms(1) by (simp_all add: agree_def)
  with assms(2,3) ack_law [of s n] obtain s' where s': "ack n s = Some s'" "src_inv s'"
    "pend s' = filter (\<lambda>f. n < seq f) (pend s)" "nxt s' = nxt s" "lowest s' = max (lowest s) (n + 1)" by auto
  let ?low = "max low (nat (n + 1))"
  have "filter (\<lambda>f. n < seq f) (drop low L) = drop ?low L"
    by (rule filter_seq_drop [OF inv(4)])
  then have "agree L s' t"
    using assms s' low inv by (auto simp: agree_def intro!: exI [of _ ?low])
  with s'(1) show ?thesis by blast
qed

text \<open>No captured frame is lost: each is in the sink or waits in the source.\<close>

lemma agree_complete: "agree L s t \<Longrightarrow> f \<in> set L \<Longrightarrow> conv f \<in> set (kept t) \<or> f \<in> set (pend s)"
proof -
  assume a: "agree L s t" and "f \<in> set L"
  then obtain low where low: "low \<le> length (kept t)" "pend s = drop low L" by (auto simp: agree_def)
  have "f \<in> set (take (length (kept t)) L) \<or> f \<in> set (drop (length (kept t)) L)"
    using \<open>f \<in> set L\<close> by (metis Un_iff append_take_drop_id set_append)
  moreover have "set (drop (length (kept t)) L) \<subseteq> set (drop low L)"
    by (rule set_drop_subset_set_drop [OF low(1)])
  ultimately show ?thesis using a low(2) by (metis agree_def image_eqI list.set_map subsetD)
qed

end

section \<open>The outbox as a source, the store as a sink\<close>

definition src_push :: "channel_name \<Rightarrow> bytes \<times> int \<Rightarrow> outbox \<Rightarrow> (stored_frame \<times> outbox) option" where
  "src_push c p ob = (case outbox_append ob (channel_str c) (fst p) (snd p) of Inl e \<Rightarrow> None | Inr r \<Rightarrow> Some r)"

definition src_ack :: "channel_name \<Rightarrow> int \<Rightarrow> outbox \<Rightarrow> outbox option" where
  "src_ack c n ob = (case mark_acked ob (channel_str c) n of Inl e \<Rightarrow> None | Inr ob' \<Rightarrow> Some ob')"

definition src_pend :: "channel_name \<Rightarrow> outbox \<Rightarrow> stored_frame list" where
  "src_pend c ob = pending ob (channel_str c)"

definition src_next :: "channel_name \<Rightarrow> outbox \<Rightarrow> int" where
  "src_next c ob = next_of ob (channel_str c)"

definition src_lowest :: "channel_name \<Rightarrow> outbox \<Rightarrow> int" where
  "src_lowest c ob = floor_of (ob_acked ob (channel_str c))"

definition snk_ok :: "store \<Rightarrow> bool" where
  "snk_ok st \<longleftrightarrow> store_wf st \<and> \<not> st_closed st"

definition snk_kept :: "channel_name \<Rightarrow> store \<Rightarrow> (int \<times> int \<times> bytes) list" where
  "snk_kept c st = stored_frames st c"

definition frame_on :: "channel_name \<Rightarrow> int \<times> int \<times> bytes \<Rightarrow> frame" where
  "frame_on c g = \<lparr>fr_channel = CHANNEL_INDEX c, fr_seq = fst g, fr_t_ms = fst (snd g), fr_pcm = snd (snd g),
     fr_version = PROTOCOL_VERSION, fr_flags = 0\<rparr>"

definition snk_put :: "channel_name \<Rightarrow> real \<Rightarrow> bool \<Rightarrow> int \<times> int \<times> bytes \<Rightarrow> store \<Rightarrow> bool \<times> store" where
  "snk_put c now commits g st =
     (case store_append (if commits then CommitOk else CommitFails) now st (frame_on c g) of
        (Inl e, st') \<Rightarrow> (False, st') | (Inr r, st') \<Rightarrow> (True, st'))"

definition as_stored :: "stored_frame \<Rightarrow> int \<times> int \<times> bytes" where
  "as_stored f = (sf_seq f, sf_t_ms f, sf_pcm f)"

lemma channel_of_index: "channel_of (CHANNEL_INDEX c) = Some c"
  by (cases c) (simp_all add: CHANNEL_MIC_def CHANNEL_SYSTEM_def)

lemma next_index_kept: "next_index st c = int (length (stored_frames st c))"
  by (simp add: next_index_def stored_frames_def)

interpretation link: frame_link outbox_wf "src_pend c" "src_next c" "src_lowest c" sf_seq "src_push c" "src_ack c"
    snk_ok "snk_kept c" fst "snk_put c now" as_stored
  for c :: channel_name and now :: real
proof (unfold_locales, goal_cases)
  case (1 s p f s')
  then show ?case
    using append_wf [OF 1(1), of "channel_str c" "fst p" "snd p" f s']
    by (auto simp: src_push_def src_pend_def src_next_def src_lowest_def split: sum.splits)
next
  case (2 s n)
  then show ?case
    using mark_acked_wf [OF 2(1) channel_str_in 2(2), of c]
    by (auto simp: src_ack_def src_pend_def src_next_def src_lowest_def)
next
  case (3 t g)
  have ch: "channel_of (fr_channel (frame_on c g)) = Some c" by (simp add: frame_on_def channel_of_index del: channel_of.simps)
  have "fr_seq (frame_on c g) = next_index t c" using 3(2) by (simp add: frame_on_def next_index_kept snk_kept_def)
  note new = store_append_new [OF _ ch _ this, where now = now]
  obtain r t' where r: "store_append CommitOk now t (frame_on c g) = (r, t')" by fastforce
  show ?case
    using 3(1) new(1-3,5) r by (auto simp: snk_ok_def snk_put_def snk_kept_def frame_on_def split: prod.splits)
next
  case (4 t g)
  have ch: "channel_of (fr_channel (frame_on c g)) = Some c" by (simp add: frame_on_def channel_of_index del: channel_of.simps)
  have "fr_seq (frame_on c g) = next_index t c" using 4(2) by (simp add: frame_on_def next_index_kept snk_kept_def)
  then show ?case using 4(1) store_append_failed [OF _ ch, of t now] by (simp add: snk_ok_def snk_put_def)
next
  case (5 t g b)
  have ch: "channel_of (fr_channel (frame_on c g)) = Some c" by (simp add: frame_on_def channel_of_index del: channel_of.simps)
  have "fr_seq (frame_on c g) < next_index t c" "0 \<le> fr_seq (frame_on c g)"
    using 5 by (simp_all add: frame_on_def next_index_kept snk_kept_def)
  then show ?case using 5(1) store_append_duplicate [OF _ ch, of t] by (simp add: snk_ok_def snk_put_def)
next
  case (6 t g b)
  have ch: "channel_of (fr_channel (frame_on c g)) = Some c" by (simp add: frame_on_def channel_of_index del: channel_of.simps)
  have "next_index t c < fr_seq (frame_on c g)"
    using 6 by (simp add: frame_on_def next_index_kept snk_kept_def)
  then show ?case using 6(1) store_append_gap [OF _ ch, of t] by (simp add: snk_ok_def snk_put_def)
next
  case (7 f)
  then show ?case by (simp add: as_stored_def)
qed

section \<open>Frames on the wire\<close>

definition encodable :: "channel_name \<Rightarrow> stored_frame \<Rightarrow> bool" where
  "encodable c f \<longleftrightarrow> (\<exists>d. encode_frame (CHANNEL_INDEX c) (sf_seq f) (sf_t_ms f) (sf_pcm f) = Inr d)"

definition wire_key :: "wire \<Rightarrow> (channel_name \<times> int) option" where
  "wire_key w = (case w of WText m \<Rightarrow> None
     | WBinary d \<Rightarrow> (case decode_frame d of Inl e \<Rightarrow> None
         | Inr f \<Rightarrow> map_option (\<lambda>c. (c, fr_seq f)) (channel_of (fr_channel f))))"

definition wire_seqs :: "channel_name \<Rightarrow> wire list \<Rightarrow> int list" where
  "wire_seqs c q = map snd (filter (\<lambda>x. fst x = c) (List.map_filter wire_key q))"

lemma wire_frame_decodes:
  assumes "encodable c f"
  shows "\<exists>d. wire_frame c f = WBinary d \<and> decode_frame d = Inr (frame_on c (as_stored f))"
proof -
  obtain d where d: "encode_frame (CHANNEL_INDEX c) (sf_seq f) (sf_t_ms f) (sf_pcm f) = Inr d"
    using assms by (auto simp: encodable_def)
  then have "decode_frame d = Inr (frame_on c (as_stored f))"
    by (auto simp: encode_frame_Inr decode_frame_Inr unpack_pack_header pack_header_length frame_on_def
        as_stored_def dest: pack_header_length)
  with d show ?thesis by (simp add: wire_frame_def)
qed

lemma wire_key_frame: "encodable c f \<Longrightarrow> wire_key (wire_frame c f) = Some (c, sf_seq f)"
  using wire_frame_decodes [of c f] channel_of_index [of c]
  by (auto simp: wire_key_def frame_on_def as_stored_def simp del: channel_of.simps)

lemma wire_seqs_simps [simp]:
  "wire_seqs c [] = []" "wire_seqs c (q @ r) = wire_seqs c q @ wire_seqs c r"
  "encodable d f \<Longrightarrow> wire_seqs c (wire_frame d f # q) = (if d = c then [sf_seq f] else []) @ wire_seqs c q"
  by (auto simp: wire_seqs_def List.map_filter_def wire_key_frame)

lemma wire_seqs_map:
  "\<forall>f \<in> set fs. encodable d f \<Longrightarrow> wire_seqs c (map (wire_frame d) fs) = (if d = c then map sf_seq fs else [])"
  by (induction fs) auto

text \<open>What the server does with a frame of the client.\<close>

lemma server_takes:
  assumes "encodable c f" "wire_frame c f = WBinary d" "commits \<noteq> CommitReplyLost"
    "c \<in> set (in_channels (ss_ingest s))" "on_binary vad commits now d (s, l) = (nx, s', l')"
  shows "in_store (ss_ingest s') = snd (snk_put c now (commits = CommitOk) (as_stored f) (in_store (ss_ingest s)))"
    and "nx = Continue \<longleftrightarrow> fst (snk_put c now (commits = CommitOk) (as_stored f) (in_store (ss_ingest s)))"
    and "in_channels (ss_ingest s') = in_channels (ss_ingest s)"
proof -
  have dec: "decode_frame d = Inr (frame_on c (as_stored f))"
    using wire_frame_decodes [OF assms(1)] assms(2) by auto
  have ch: "channel_of (fr_channel (frame_on c (as_stored f))) = Some c"
    by (simp add: frame_on_def channel_of_index del: channel_of.simps)
  obtain r st' where r: "store_append commits now (in_store (ss_ingest s)) (frame_on c (as_stored f)) = (r, st')" by fastforce
  have cm: "(if commits = CommitOk then CommitOk else CommitFails) = commits" using assms(3) by (cases commits) auto
  have main: "in_store (ss_ingest s') = st' \<and> (nx = Continue \<longleftrightarrow> (\<exists>x. r = Inr x)) \<and>
      in_channels (ss_ingest s') = in_channels (ss_ingest s)"
    using assms(4,5) dec ch r
    by (auto simp: on_binary_def Let_def feed_asks_def simp del: channel_of.simps
        split: if_splits sum.splits store_error.splits append_outcome.splits option.splits)
  have put: "snk_put c now (commits = CommitOk) (as_stored f) (in_store (ss_ingest s)) = (\<exists>x. r = Inr x, st')"
    unfolding snk_put_def cm r by (cases r) auto
  show "in_store (ss_ingest s') = snd (snk_put c now (commits = CommitOk) (as_stored f) (in_store (ss_ingest s)))"
    "nx = Continue \<longleftrightarrow> fst (snk_put c now (commits = CommitOk) (as_stored f) (in_store (ss_ingest s)))"
    "in_channels (ss_ingest s') = in_channels (ss_ingest s)"
    using main by (simp_all add: put)
qed

lemma snk_put_other:
  assumes "store_wf st" "d \<noteq> c" "0 \<le> fst g"
  shows "stored_frames (snd (snk_put c now b g st)) d = stored_frames st d"
proof -
  have ch: "channel_of (fr_channel (frame_on c g)) = Some c" by (simp add: frame_on_def channel_of_index del: channel_of.simps)
  obtain r st' where r: "store_append (if b then CommitOk else CommitFails) now st (frame_on c g) = (r, st')" by fastforce
  have "r = Inr Stored \<and> \<not> st_closed st \<and> fr_seq (frame_on c g) = next_index st c \<and>
      (if b then CommitOk else CommitFails) = CommitOk \<or> r \<noteq> Inr Stored \<and> st' = st"
    by (rule store_append_cases [OF assms(1) ch _ _ r]) (use assms(3) in \<open>auto simp: frame_on_def\<close>)
  then have "stored_frames st' d = stored_frames st d"
    using store_append_new(4) [OF assms(1) ch _ _ assms(2), of now] r by auto
  then show ?thesis using r by (cases r) (simp_all add: snk_put_def)
qed

section \<open>The system\<close>

text \<open>
  The client's side of a connection: nothing, waiting to see a hello ack that is on its way, or
  up (where sending stands, what is on the way to the server, the acks on the way back). What
  a broken connection had on the way may still reach the server: \<open>dl_stale\<close>.
\<close>

datatype line = Off | Greeted cursor | Up "channel_name \<Rightarrow> int" "wire list" "(channel_name \<times> int) list"

record delivery =
  dl_outbox :: outbox
  dl_log :: "channel_name \<Rightarrow> stored_frame list"   \<comment> \<open>everything captured, for the statements\<close>
  dl_line :: line
  dl_stale :: "wire list list"
  dl_session :: session

definition on_the_way :: "line \<Rightarrow> wire list list" where
  "on_the_way l = (case l of Up nxt q acks \<Rightarrow> [q] | _ \<Rightarrow> [])"

abbreviation server_store :: "delivery \<Rightarrow> store" where
  "server_store D \<equiv> in_store (ss_ingest (dl_session D))"

inductive delivery_step :: "(bytes list \<Rightarrow> bool) \<Rightarrow> delivery \<Rightarrow> delivery \<Rightarrow> bool" for vad where
  d_capture: "c \<in> set (in_channels (ss_ingest (dl_session D))) \<Longrightarrow>
     outbox_append (dl_outbox D) (channel_str c) pcm t = Inr (f, ob) \<Longrightarrow>
     delivery_step vad D (D\<lparr>dl_outbox := ob, dl_log := (dl_log D)(c := dl_log D c @ [f])\<rparr>)"
| d_hello: "dl_line D = Off \<Longrightarrow>
     delivery_step vad D (D\<lparr>dl_line := Greeted (store_cursor (server_store D))\<rparr>)"
| d_connect: "dl_line D = Greeted cur \<Longrightarrow> handshake (dl_outbox D) cn cur = Inr (ob, cn', nxt) \<Longrightarrow>
     delivery_step vad D (D\<lparr>dl_outbox := ob, dl_line := Up nxt [] []\<rparr>)"
| d_send: "dl_line D = Up nxt q acks \<Longrightarrow>
     send_channel cap (dl_outbox D) c \<lparr>ss_budget = n, ss_cancel = b, ss_sent = [], ss_next = nxt, ss_progressed = p\<rparr> = (err, s) \<Longrightarrow>
     delivery_step vad D (D\<lparr>dl_line := Up (ss_next s) (q @ ss_sent s) acks\<rparr>)"
| d_receive: "dl_line D = Up nxt (WBinary d # q) acks \<Longrightarrow> commits \<noteq> CommitReplyLost \<Longrightarrow>
     on_binary vad commits now d (dl_session D, l) = (nx, s, l') \<Longrightarrow>
     delivery_step vad D (D\<lparr>dl_session := s, dl_line := (if nx = Continue then Up nxt q acks else Off)\<rparr>)"
| d_stale: "dl_stale D = xs @ (WBinary d # q) # ys \<Longrightarrow> commits \<noteq> CommitReplyLost \<Longrightarrow>
     on_binary vad commits now d (dl_session D, l) = (nx, s, l') \<Longrightarrow>
     delivery_step vad D (D\<lparr>dl_session := s, dl_stale := xs @ (if nx = Continue then [q] else []) @ ys\<rparr>)"
| d_ack_sent: "dl_line D = Up nxt q acks \<Longrightarrow> cursor_at (store_cursor (server_store D)) c = Some n \<Longrightarrow>
     delivery_step vad D (D\<lparr>dl_line := Up nxt q (acks @ [(c, n)])\<rparr>)"
| d_ack_seen: "dl_line D = Up nxt q ((c, n) # acks) \<Longrightarrow> mark_acked (dl_outbox D) (channel_str c) n = Inr ob \<Longrightarrow>
     delivery_step vad D (D\<lparr>dl_outbox := ob, dl_line := Up nxt q acks\<rparr>)"
| d_drop: "delivery_step vad D (D\<lparr>dl_line := Off, dl_stale := dl_stale D @ on_the_way (dl_line D)\<rparr>)"
| d_reopen: "reopen (ob_session (dl_outbox D)) (ob_threshold (dl_outbox D)) (Some (disk_of (dl_outbox D))) = Inr ob \<Longrightarrow>
     delivery_step vad D (D\<lparr>dl_outbox := ob, dl_line := Off, dl_stale := dl_stale D @ on_the_way (dl_line D)\<rparr>)"
| d_reload: "load_store (new_store now interval (\<lambda>c. st_files (server_store D) c @ torn c) (st_rows (server_store D))) = (None, st) \<Longrightarrow>
     in_store (ss_ingest s) = st \<Longrightarrow> in_channels (ss_ingest s) = in_channels (ss_ingest (dl_session D)) \<Longrightarrow>
     delivery_step vad D (D\<lparr>dl_session := s, dl_line := Off, dl_stale := []\<rparr>)"

inductive delivery_steps :: "(bytes list \<Rightarrow> bool) \<Rightarrow> delivery \<Rightarrow> delivery \<Rightarrow> bool" for vad where
  dsteps_refl: "delivery_steps vad D D"
| dsteps_step: "delivery_steps vad D E \<Longrightarrow> delivery_step vad E F \<Longrightarrow> delivery_steps vad D F"

section \<open>The invariant\<close>

definition stored_count :: "store \<Rightarrow> channel_name \<Rightarrow> int" where
  "stored_count st c = int (length (stored_frames st c))"

definition queue_ok :: "(channel_name \<Rightarrow> stored_frame list) \<Rightarrow> (channel_name \<Rightarrow> int) \<Rightarrow> wire list \<Rightarrow> bool" where
  "queue_ok lg k q \<longleftrightarrow>
     (\<forall>w \<in> set q. \<exists>c f. f \<in> set (lg c) \<and> encodable c f \<and> w = wire_frame c f) \<and>
     (\<forall>c. gapless (k c) (wire_seqs c q))"

fun line_ok :: "(channel_name \<Rightarrow> stored_frame list) \<Rightarrow> (channel_name \<Rightarrow> int) \<Rightarrow> line \<Rightarrow> bool" where
  "line_ok lg k Off = True"
| "line_ok lg k (Greeted cur) = (\<forall>c n. cursor_at cur c = Some n \<longrightarrow> 0 \<le> n \<and> n < k c)"
| "line_ok lg k (Up nxt q acks) =
     (queue_ok lg k q \<and> (\<forall>c. 0 \<le> nxt c \<and> nxt c \<le> reach (k c) (wire_seqs c q)) \<and>
      (\<forall>(c, n) \<in> set acks. 0 \<le> n \<and> n < k c))"

definition in_step :: "channel_name \<Rightarrow> stored_frame list \<Rightarrow> outbox \<Rightarrow> store \<Rightarrow> bool" where
  "in_step c L ob st = link.agree c L ob st"

definition delivery_ok :: "delivery \<Rightarrow> bool" where
  "delivery_ok D \<longleftrightarrow>
     (\<forall>c. in_step c (dl_log D c) (dl_outbox D) (server_store D)) \<and>
     (\<forall>c. dl_log D c \<noteq> [] \<longrightarrow> c \<in> set (in_channels (ss_ingest (dl_session D)))) \<and>
     line_ok (dl_log D) (stored_count (server_store D)) (dl_line D) \<and>
     (\<forall>q \<in> set (dl_stale D). queue_ok (dl_log D) (stored_count (server_store D)) q)"

lemma queue_ok_mono:
  assumes "queue_ok lg k q" "\<And>c. set (lg c) \<subseteq> set (lg' c)" "\<And>c. k c \<le> k' c"
  shows "queue_ok lg' k' q"
  using assms gapless_mono unfolding queue_ok_def by (metis subsetD)

lemma line_ok_mono:
  assumes "line_ok lg k l" "\<And>c. set (lg c) \<subseteq> set (lg' c)" "\<And>c. k c \<le> k' c"
  shows "line_ok lg' k' l"
proof (cases l)
  case (Up nxt q acks)
  have "nxt c \<le> reach (k' c) (wire_seqs c q)" for c
    using assms(1) reach_mono [OF assms(3) [of c]] Up by (auto intro: order_trans)
  then show ?thesis
    using assms(1) queue_ok_mono [OF _ assms(2,3)] assms(3) Up by (fastforce intro: less_le_trans)
qed (use assms in \<open>fastforce intro: less_le_trans\<close>)+

lemma queue_ok_drop: "line_ok lg k l \<Longrightarrow> q \<in> set (on_the_way l) \<Longrightarrow> queue_ok lg k q"
  by (cases l) (auto simp: on_the_way_def)

lemma in_step_wf:
  assumes "in_step c L ob st"
  shows "outbox_wf ob" "store_wf st" "\<not> st_closed st"
  using assms by (simp_all add: in_step_def link.agree_def snk_ok_def)

text \<open>A frame at the head of a queue is taken by the server.\<close>

lemma head_taken:
  assumes "\<forall>c. in_step c (lg c) ob (in_store (ss_ingest s))" "\<forall>c. lg c \<noteq> [] \<longrightarrow> c \<in> set (in_channels (ss_ingest s))"
    "queue_ok lg (stored_count (in_store (ss_ingest s))) (WBinary d # q)" "commits \<noteq> CommitReplyLost"
    "on_binary vad commits now d (s, l) = (nx, s', l')"
  shows "\<forall>c. in_step c (lg c) ob (in_store (ss_ingest s'))"
    and "in_channels (ss_ingest s') = in_channels (ss_ingest s)"
    and "stored_count (in_store (ss_ingest s)) c \<le> stored_count (in_store (ss_ingest s')) c"
    and "nx = Continue \<Longrightarrow> queue_ok lg (stored_count (in_store (ss_ingest s'))) q"
    and "nx = Continue \<Longrightarrow> reach (stored_count (in_store (ss_ingest s)) c) (wire_seqs c (WBinary d # q))
        = reach (stored_count (in_store (ss_ingest s')) c) (wire_seqs c q)"
    and "commits = CommitOk \<Longrightarrow> nx = Continue"
    and "stored_count (in_store (ss_ingest s')) c \<le> stored_count (in_store (ss_ingest s)) c + 1"
proof -
  let ?st = "in_store (ss_ingest s)" and ?st' = "in_store (ss_ingest s')"
  obtain e f where f: "f \<in> set (lg e)" "encodable e f" "WBinary d = wire_frame e f"
    using assms(3) by (auto simp: queue_ok_def)
  have seqs: "wire_seqs c (WBinary d # q) = (if e = c then [sf_seq f] else []) @ wire_seqs c q" for c
    unfolding f(3) using f(2) by simp
  have "e \<in> set (in_channels (ss_ingest s))" using assms(2) f(1) by (metis empty_iff list.set(1))
  note tk = server_takes [OF f(2) f(3) [symmetric] assms(4) this assms(5)]
  have ag: "link.agree e (lg e) ob ?st" using assms(1) by (simp add: in_step_def)
  have "gapless (stored_count ?st e) (wire_seqs e (WBinary d # q))" using assms(3) by (simp add: queue_ok_def)
  then have le: "sf_seq f \<le> int (length (snk_kept e ?st))"
    by (simp add: seqs stored_count_def snk_kept_def)
  note put = link.agree_put(1,4,5,6) [OF ag f(1) le, where now = now and b = "commits = CommitOk", folded tk(1,2)]
  have s0: "0 \<le> sf_seq f" using link.agree_seqs [OF ag f(1)] by auto
  have same: "stored_frames ?st' c = stored_frames ?st c" if "c \<noteq> e" for c
    using snk_put_other [OF in_step_wf(2) that, of e "lg e" ob ?st "as_stored f" now "commits = CommitOk"] assms(1) s0 tk(1)
    by (simp add: as_stored_def)
  show step: "\<forall>c. in_step c (lg c) ob ?st'"
  proof
    fix c
    show "in_step c (lg c) ob ?st'"
    proof (cases "c = e")
      case False
      then show ?thesis
        using assms(1) put(1) same [OF False] by (simp add: in_step_def link.agree_def snk_kept_def)
    qed (use put(1) in \<open>simp add: in_step_def\<close>)
  qed
  show "in_channels (ss_ingest s') = in_channels (ss_ingest s)" by (rule tk(3))
  show mono: "stored_count ?st c \<le> stored_count ?st' c" for c
    using put(2) same by (cases "c = e") (simp_all add: stored_count_def snk_kept_def)
  show "stored_count ?st' c \<le> stored_count ?st c + 1" for c
    using put(4) same by (cases "c = e") (simp_all add: stored_count_def snk_kept_def)
  have cnt: "stored_count ?st' c = (if c = e then max (stored_count ?st c) (sf_seq f + 1) else stored_count ?st c)"
    if "nx = Continue" for c
    using put(3) [OF that] same s0 by (auto simp: stored_count_def snk_kept_def)
  show "queue_ok lg (stored_count ?st') q" if "nx = Continue"
    using assms(3) cnt [OF that] by (auto simp: queue_ok_def seqs split: if_splits)
  show "reach (stored_count ?st c) (wire_seqs c (WBinary d # q)) = reach (stored_count ?st' c) (wire_seqs c q)"
    if "nx = Continue" using cnt [OF that] by (auto simp: seqs)
  show "nx = Continue" if "commits = CommitOk"
    using link.agree_put(2) [OF ag f(1) le, where now = now] tk(2) that by simp
qed

lemma in_step_other:
  assumes "in_step d L ob st" "outbox_wf ob'" "ob_chans ob' (channel_str d) = ob_chans ob (channel_str d)"
    "ob_acked ob' (channel_str d) = ob_acked ob (channel_str d)"
  shows "in_step d L ob' st"
proof -
  have "src_pend d ob' = src_pend d ob" "src_next d ob' = src_next d ob" "src_lowest d ob' = src_lowest d ob"
    using assms(3,4) by (simp_all add: src_pend_def src_next_def src_lowest_def pending_def next_of_def chan_at_def)
  then show ?thesis using assms(1,2) by (simp add: in_step_def link.agree_def)
qed

lemma channel_str_inj: "channel_str c = channel_str d \<longleftrightarrow> c = d"
  by (cases c; cases d) simp_all

lemma capture_in_step:
  assumes "\<forall>c. in_step c (lg c) ob st" "outbox_append ob (channel_str c) pcm t = Inr (f, ob')"
  shows "in_step d ((lg(c := lg c @ [f])) d) ob' st"
proof (cases "d = c")
  case True
  have "src_push c (pcm, t) ob = Some (f, ob')" using assms(2) by (simp add: src_push_def)
  with assms(1) show ?thesis using link.agree_push True unfolding in_step_def by (metis fun_upd_same)
next
  case False
  note w = append_wf [OF in_step_wf(1) [OF assms(1) [rule_format]] assms(2)]
  show ?thesis
    by (rule in_step_other [where ob = ob])
      (use False assms(1) w channel_str_inj [of d c] in auto)
qed

lemma ack_in_step:
  assumes "\<forall>c. in_step c (lg c) ob st" "0 \<le> n" "n < stored_count st c"
  shows "\<exists>ob'. mark_acked ob (channel_str c) n = Inr ob' \<and> (\<forall>d. in_step d (lg d) ob' st)"
proof -
  have "link.agree c (lg c) ob st" using assms(1) by (simp add: in_step_def)
  with link.agree_ack [OF this, of n] obtain ob' where ob': "src_ack c n ob = Some ob'" "link.agree c (lg c) ob' st"
    using assms(2,3) by (auto simp: stored_count_def snk_kept_def)
  then have m: "mark_acked ob (channel_str c) n = Inr ob'" by (simp add: src_ack_def split: sum.splits)
  have wf: "outbox_wf ob" by (rule in_step_wf(1) [OF assms(1) [rule_format]])
  have lt: "n < next_of ob (channel_str c)"
    using assms(1) [rule_format, of c] assms(3)
    by (auto simp: in_step_def link.agree_def src_next_def stored_count_def snk_kept_def)
  have "in_step d (lg d) ob' st" for d
  proof (cases "d = c")
    case False
    then show ?thesis
      using in_step_other [OF assms(1) [rule_format, of d], of ob'] mark_acked_wf [OF wf channel_str_in _ lt] m assms(2)
        channel_str_inj [of d c] by auto
  qed (use ob'(2) in \<open>simp add: in_step_def\<close>)
  with m show ?thesis by blast
qed

lemma ack_cursor_in_step:
  assumes "\<forall>c. in_step c (lg c) ob st" "\<forall>n. cursor_at cur c = Some n \<longrightarrow> 0 \<le> n \<and> n < stored_count st c"
    "ack_cursor ob cur c = Inr ob'"
  shows "\<forall>d. in_step d (lg d) ob' st"
proof (cases "cursor_at cur c")
  case None
  then show ?thesis using assms(1,3) by (simp add: ack_cursor_def)
next
  case (Some n)
  then show ?thesis using ack_in_step [OF assms(1), of n c] assms(2,3) by (auto simp: ack_cursor_def)
qed

lemma in_step_lowest:
  assumes "in_step c L ob st"
  shows "0 \<le> src_lowest c ob" "src_lowest c ob \<le> stored_count st c"
    "src_pend c ob = drop (nat (src_lowest c ob)) L"
  using assms by (auto simp: in_step_def link.agree_def stored_count_def snk_kept_def)

text \<open>What a send round adds to the queue.\<close>

lemma send_line_ok:
  assumes "in_step c (lg c) ob st" "line_ok lg (stored_count st) (Up nxt q acks)"
    "send_channel cap ob c \<lparr>ss_budget = n, ss_cancel = b, ss_sent = [], ss_next = nxt, ss_progressed = p\<rparr> = (err, s)"
  shows "line_ok lg (stored_count st) (Up (ss_next s) (q @ ss_sent s) acks)"
proof -
  let ?U = "unsent ob c (nxt c)" and ?L = "lg c" and ?r = "reach (stored_count st c) (wire_seqs c q)"
  have wf: "outbox_wf ob" and seqs: "map sf_seq ?L = map int [0..<length ?L]"
    using assms(1) in_step_wf(1) by (auto simp: in_step_def link.agree_def)
  obtain m where m: "m \<le> length ?U" "ss_sent s = map (wire_frame c) (take m ?U)"
    "ss_next s = (if m = 0 then nxt else nxt(c := sf_seq (?U ! (m - 1)) + 1))" "\<forall>f \<in> set (take m ?U). encodable c f"
    using send_channel_cases [OF wf assms(3)]
    by (simp only: send_state.simps encodable_def append_Nil) blast
  define a where "a = max (nat (src_lowest c ob)) (nat (nxt c))"
  have sw: "filter (\<lambda>f. nxt c \<le> sf_seq f) xs = filter (\<lambda>f. nxt c - 1 < sf_seq f) xs" for xs
    by (rule filter_cong) auto
  have "?U = filter (\<lambda>f. nxt c - 1 < sf_seq f) (drop (nat (src_lowest c ob)) ?L)"
    using in_step_lowest(3) [OF assms(1)] by (simp only: unsent_def src_pend_def sw)
  then have U: "?U = drop a ?L"
    using filter_seq_drop [OF seqs, of "nxt c - 1" "nat (src_lowest c ob)"] by (simp add: a_def)
  have nr: "0 \<le> nxt c" "nxt c \<le> ?r" using assms(2) by simp_all
  have ar: "int a \<le> ?r"
    using nr in_step_lowest(1,2) [OF assms(1)] reach_ge [of "stored_count st c" "wire_seqs c q"]
    by (auto simp: a_def)
  have "map sf_seq (take m ?U) = map (\<lambda>i. int a + int i) [0..<m]"
  proof (rule nth_equalityI)
    fix i assume "i < length (map sf_seq (take m ?U))"
    then have "i < m" "a + i < length ?L" using m(1) U by auto
    then show "map sf_seq (take m ?U) ! i = map (\<lambda>i. int a + int i) [0..<m] ! i"
      using U link.seq_nth [OF seqs, of "a + i"] by simp
  qed (use m(1) in simp)
  then have ws: "wire_seqs d (ss_sent s) = (if d = c then map (\<lambda>i. int a + int i) [0..<m] else [])" for d
    using m(2,4) by (simp add: wire_seqs_map)
  note run = gapless_run [OF ar, of m]
  have nx: "ss_next s c = (if m = 0 then nxt c else int a + int m)"
  proof (cases m)
    case (Suc j)
    then have "j < length ?U" using m(1) by simp
    then have "sf_seq (?U ! j) = int (a + j)" using U link.seq_nth [OF seqs, of "a + j"] by (simp add: add.commute)
    then show ?thesis using m(3) Suc by simp
  qed (use m(3) in simp)
  have other: "ss_next s d = nxt d" if "d \<noteq> c" for d using m(3) that by auto
  have "0 \<le> ss_next s d \<and> ss_next s d \<le> reach (stored_count st d) (wire_seqs d (q @ ss_sent s))" for d
  proof (cases "d = c")
    case True
    then show ?thesis
      using assms(2) nx run reach_ge [of ?r "map (\<lambda>i. int a + int i) [0..<m]"] by (auto simp: ws max_def split: if_splits)
  qed (use assms(2) other in \<open>simp add: ws\<close>)
  moreover have "queue_ok lg (stored_count st) (q @ ss_sent s)"
  proof -
    have "\<forall>w \<in> set (ss_sent s). \<exists>c f. f \<in> set (lg c) \<and> encodable c f \<and> w = wire_frame c f"
    proof
      fix w assume "w \<in> set (ss_sent s)"
      then obtain f where "f \<in> set (take m ?U)" "w = wire_frame c f" using m(2) by auto
      moreover from this have "f \<in> set (lg c)" using U by (metis in_set_dropD in_set_takeD)
      ultimately show "\<exists>c f. f \<in> set (lg c) \<and> encodable c f \<and> w = wire_frame c f" using m(4) by blast
    qed
    then show ?thesis
      using assms(2) run by (auto simp: queue_ok_def gapless_append ws)
  qed
  ultimately show ?thesis using assms(2) by simp
qed

lemma greeting_ok:
  assumes "\<forall>c. in_step c (lg c) ob st"
  shows "line_ok lg (stored_count st) (Greeted (store_cursor st))"
    and "cursor_at (store_cursor st) c = Some n \<Longrightarrow> 0 \<le> n \<and> n < stored_count st c"
proof -
  have "store_wf st" by (rule in_step_wf(2) [OF assms [rule_format]])
  then have last: "0 \<le> n \<and> n < stored_count st c" if "cursor_at (store_cursor st) c = Some n" for c n
    using that by (cases c) (auto simp: store_cursor_def store_wf_def stored_count_def stored_frames_def Suc_le_eq split: if_splits)
  then show "line_ok lg (stored_count st) (Greeted (store_cursor st))" by simp
  show "cursor_at (store_cursor st) c = Some n \<Longrightarrow> 0 \<le> n \<and> n < stored_count st c" by (rule last)
qed

lemma connect_ok:
  assumes "\<forall>c. in_step c (lg c) ob st" "line_ok lg (stored_count st) (Greeted cur)"
    "handshake ob cn cur = Inr (ob', cn', nxt)"
  shows "\<forall>c. in_step c (lg c) ob' st" "line_ok lg (stored_count st) (Up nxt [] [])"
proof -
  obtain ob1 where 1: "ack_cursor ob cur Mic = Inr ob1" "ack_cursor ob1 cur System = Inr ob'"
    and nxt: "nxt = (\<lambda>c. after_acked (acked_seq ob' (channel_str c)))"
    using assms(3) by (auto simp: handshake_def bind_res_Inr_iff)
  have cur: "\<forall>n. cursor_at cur c = Some n \<longrightarrow> 0 \<le> n \<and> n < stored_count st c" for c
    using assms(2) unfolding line_ok.simps by (rule spec)
  note 2 = ack_cursor_in_step [OF assms(1) cur 1(1)]
  show st: "\<forall>c. in_step c (lg c) ob' st" by (rule ack_cursor_in_step [OF 2 cur 1(2)])
  have "nxt c = src_lowest c ob'" for c
    by (simp add: nxt after_acked_def acked_seq_def src_lowest_def floor_of_def)
  then show "line_ok lg (stored_count st) (Up nxt [] [])"
    using in_step_lowest [OF st [rule_format]] by (simp add: queue_ok_def)
qed

lemma reload_ok:
  assumes "\<forall>c. in_step c (lg c) ob st"
    "load_store (new_store now interval (\<lambda>c. st_files st c @ torn c) (st_rows st)) = (None, st')"
  shows "\<forall>c. in_step c (lg c) ob st'"
proof
  fix c
  have wf: "store_wf st" by (rule in_step_wf(2) [OF assms(1) [rule_format]])
  let ?n = "new_store now interval (\<lambda>c. st_files st c @ torn c) (st_rows st)"
  have "disk_ok ?n" using wf by (auto simp: disk_ok_def new_store_def store_wf_def)
  from load_store_ok [OF this] assms(2) have l: "store_wf st'" "st_rows st' = st_rows ?n" "st_closed st' = st_closed ?n"
    "\<And>c. st_files st' c = take (chunk_bytes (st_rows ?n c)) (st_files ?n c)" by auto
  then have "st_files st' = st_files st" "st_rows st' = st_rows st" "\<not> st_closed st'"
    using wf by (auto simp: new_store_def store_wf_def fun_eq_iff)
  then show "in_step c (lg c) ob st'"
    using assms(1) l(1) by (auto simp: in_step_def link.agree_def snk_ok_def snk_kept_def stored_frames_def)
qed

lemma delivery_step_ok: "delivery_step vad D E \<Longrightarrow> delivery_ok D \<Longrightarrow> delivery_ok E"
proof (induction rule: delivery_step.induct)
  case (d_capture c D pcm t f ob)
  define lg where "lg = (dl_log D)(c := dl_log D c @ [f])"
  have ok: "\<forall>c. in_step c (dl_log D c) (dl_outbox D) (server_store D)"
    "\<forall>d. dl_log D d \<noteq> [] \<longrightarrow> d \<in> set (in_channels (ss_ingest (dl_session D)))"
    "line_ok (dl_log D) (stored_count (server_store D)) (dl_line D)"
    "\<forall>q \<in> set (dl_stale D). queue_ok (dl_log D) (stored_count (server_store D)) q"
    using d_capture(3) by (simp_all add: delivery_ok_def)
  have grow: "set (dl_log D d) \<subseteq> set (lg d)" for d by (auto simp: lg_def)
  have "in_step d (lg d) ob (server_store D)" for d
    unfolding lg_def by (rule capture_in_step [OF ok(1) d_capture(2)])
  moreover have "lg d \<noteq> [] \<longrightarrow> d \<in> set (in_channels (ss_ingest (dl_session D)))" for d
    using ok(2) d_capture(1) by (simp add: lg_def)
  moreover note line_ok_mono [where lg' = lg, OF ok(3) grow order_refl]
  moreover have "\<forall>q \<in> set (dl_stale D). queue_ok lg (stored_count (server_store D)) q"
    using queue_ok_mono [where lg = "dl_log D" and lg' = lg, OF _ grow order_refl] ok(4) by blast
  ultimately show ?case by (simp add: delivery_ok_def flip: lg_def)
next
  case (d_hello D)
  then show ?case using greeting_ok(1) [where lg = "dl_log D" and ob = "dl_outbox D" and st = "server_store D"]
    unfolding delivery_ok_def by simp
next
  case (d_connect D cur cn ob cn' nxt)
  then show ?case using connect_ok [where lg = "dl_log D" and st = "server_store D", OF _ _ d_connect(2)] unfolding delivery_ok_def by simp
next
  case (d_send D nxt q acks cap c n b p err s)
  then show ?case using send_line_ok [where lg = "dl_log D" and st = "server_store D", OF _ _ d_send(2)]
    unfolding delivery_ok_def by (simp del: line_ok.simps)
next
  case (d_receive D nxt d q acks commits now l nx s l')
  have q: "queue_ok (dl_log D) (stored_count (server_store D)) (WBinary d # q)"
    using d_receive by (simp add: delivery_ok_def)
  have pre: "\<forall>c. in_step c (dl_log D c) (dl_outbox D) (server_store D)"
    "\<forall>c. dl_log D c \<noteq> [] \<longrightarrow> c \<in> set (in_channels (ss_ingest (dl_session D)))"
    using d_receive by (simp_all add: delivery_ok_def)
  note h = head_taken [OF pre q d_receive(2,3)]
  have "line_ok (dl_log D) (stored_count (in_store (ss_ingest s))) (Up nxt q acks)" if "nx = Continue"
    using d_receive h(3) h(4,5) [OF that] unfolding delivery_ok_def by (fastforce intro: less_le_trans)
  then show ?case
    using d_receive h(1-3) queue_ok_mono [OF _ subset_refl h(3)] unfolding delivery_ok_def by auto
next
  case (d_stale D xs d q ys commits now l nx s l')
  have q: "queue_ok (dl_log D) (stored_count (server_store D)) (WBinary d # q)"
    using d_stale by (simp add: delivery_ok_def)
  have pre: "\<forall>c. in_step c (dl_log D c) (dl_outbox D) (server_store D)"
    "\<forall>c. dl_log D c \<noteq> [] \<longrightarrow> c \<in> set (in_channels (ss_ingest (dl_session D)))"
    using d_stale by (simp_all add: delivery_ok_def)
  note h = head_taken [OF pre q d_stale(2,3)]
  show ?case
    using d_stale h queue_ok_mono [OF _ subset_refl h(3)] line_ok_mono [OF _ subset_refl h(3)]
    unfolding delivery_ok_def by auto
next
  case (d_ack_sent D nxt q acks c n)
  then show ?case using greeting_ok(2) [where lg = "dl_log D" and ob = "dl_outbox D" and st = "server_store D" and c = c and n = n]
    unfolding delivery_ok_def by auto
next
  case (d_ack_seen D nxt q c n acks ob)
  then have "0 \<le> n" "n < stored_count (server_store D) c" by (auto simp: delivery_ok_def)
  with ack_in_step [of "dl_log D" "dl_outbox D" "server_store D" n c] d_ack_seen show ?case
    by (auto simp: delivery_ok_def)
next
  case (d_drop D)
  then show ?case using queue_ok_drop unfolding delivery_ok_def by auto
next
  case (d_reopen D ob)
  then have "in_step Mic (dl_log D Mic) (dl_outbox D) (server_store D)" by (simp add: delivery_ok_def)
  then have "outbox_wf (dl_outbox D)" by (rule in_step_wf(1))
  then have "ob = dl_outbox D" using d_reopen(1) reopen_disk_of by simp
  then show ?case using d_reopen queue_ok_drop unfolding delivery_ok_def by auto
next
  case (d_reload now interval D torn st s)
  then show ?case using reload_ok [where lg = "dl_log D" and ob = "dl_outbox D", OF _ d_reload(1)] unfolding delivery_ok_def by simp
qed

lemma delivery_steps_ok: "delivery_steps vad D E \<Longrightarrow> delivery_ok D \<Longrightarrow> delivery_ok E"
  by (induction rule: delivery_steps.induct) (auto intro: delivery_step_ok)

section \<open>What the composition implements\<close>

text \<open>
  The abstract service is one pipe per channel: what went in, and how much of it has come out.
  A step puts one frame in, takes the next one out, or does nothing.
\<close>

fun pipe_step :: "'a list \<times> 'a list \<Rightarrow> 'a list \<times> 'a list \<Rightarrow> bool" where
  "pipe_step (a, b) (a', b') \<longleftrightarrow>
     (\<exists>x. a' = a @ [x] \<and> b' = b) \<or> (a' = a \<and> (b' = b \<or> length b < length a \<and> b' = b @ [a ! length b]))"

definition pipe_of :: "channel_name \<Rightarrow> delivery \<Rightarrow> (int \<times> int \<times> bytes) list \<times> (int \<times> int \<times> bytes) list" where
  "pipe_of c D = (map as_stored (dl_log D c), stored_frames (server_store D) c)"

lemma in_step_stored:
  assumes "in_step c L ob st"
  shows "stored_count st c \<le> int (length L)" "stored_frames st c = map as_stored (take (nat (stored_count st c)) L)"
  using assms by (simp_all add: in_step_def link.agree_def snk_kept_def stored_count_def)

lemma pipe_step_count:
  assumes "in_step c L ob st" "in_step c L ob' st'" "stored_count st c \<le> stored_count st' c"
    "stored_count st' c \<le> stored_count st c + 1"
  shows "pipe_step (map as_stored L, stored_frames st c) (map as_stored L, stored_frames st' c)"
proof (cases "stored_count st' c = stored_count st c")
  case True
  then show ?thesis using in_step_stored(2) [OF assms(1)] in_step_stored(2) [OF assms(2)] by simp
next
  case False
  define k where "k = length (stored_frames st c)"
  have k: "stored_count st c = int k" "stored_count st' c = int (Suc k)" "k < length L"
    using False assms(3,4) in_step_stored(1) [OF assms(2)] by (simp_all add: k_def stored_count_def)
  have "stored_frames st' c = map as_stored (take k L) @ [as_stored (L ! k)]"
    using in_step_stored(2) [OF assms(2)] k by (simp add: take_Suc_conv_app_nth nat_add_distrib)
  moreover have "stored_frames st c = map as_stored (take k L)"
    using in_step_stored(2) [OF assms(1)] k(1) by simp
  ultimately show ?thesis using k(3) by (simp flip: k_def)
qed

lemma delivery_okD:
  assumes "delivery_ok D"
  shows "in_step c (dl_log D c) (dl_outbox D) (server_store D)" "\<forall>c. in_step c (dl_log D c) (dl_outbox D) (server_store D)"
    "\<forall>c. dl_log D c \<noteq> [] \<longrightarrow> c \<in> set (in_channels (ss_ingest (dl_session D)))"
    "dl_line D = Up nxt q acks \<Longrightarrow> queue_ok (dl_log D) (stored_count (server_store D)) q"
    "q \<in> set (dl_stale D) \<Longrightarrow> queue_ok (dl_log D) (stored_count (server_store D)) q"
  using assms by (auto simp: delivery_ok_def)

lemma reload_same:
  assumes "store_wf st" "load_store (new_store now interval (\<lambda>c. st_files st c @ torn c) (st_rows st)) = (None, st')"
  shows "stored_frames st' c = stored_frames st c"
proof -
  have "disk_ok (new_store now interval (\<lambda>c. st_files st c @ torn c) (st_rows st))"
    using assms(1) by (auto simp: disk_ok_def new_store_def store_wf_def)
  from load_store_ok [OF this] assms(2) have "st_rows st' = st_rows st"
    "st_files st' c = take (chunk_bytes (st_rows st c)) (st_files st c @ torn c)" by (auto simp: new_store_def)
  then show ?thesis using assms(1) by (simp add: stored_frames_def store_wf_def)
qed

lemma delivery_step_pipe:
  assumes "delivery_step vad D E" "delivery_ok D"
  shows "pipe_step (pipe_of c D) (pipe_of c E)"
proof -
  have E: "delivery_ok E" by (rule delivery_step_ok [OF assms])
  note okD = delivery_okD [OF assms(2)]
  show ?thesis
    using assms(1) E
  proof cases
    case (d_receive nxt d q acks commits now l nx s l')
    note h = head_taken(3,7) [OF okD(2,3) okD(4) [OF d_receive(2)] d_receive(3,4)]
    show ?thesis
      using pipe_step_count [OF okD(1) _ h] delivery_okD(1) [OF E, of c] d_receive(1) by (simp add: pipe_of_def)
  next
    case (d_stale xs d q ys commits now l nx s l')
    have q: "queue_ok (dl_log D) (stored_count (server_store D)) (WBinary d # q)" by (rule okD(5)) (simp add: d_stale(2))
    note h = head_taken(3,7) [OF okD(2,3) q d_stale(3,4)]
    show ?thesis
      using pipe_step_count [OF okD(1) _ h] delivery_okD(1) [OF E, of c] d_stale(1) by (simp add: pipe_of_def)
  next
    case (d_reload now interval torn st s)
    then show ?thesis using reload_same [OF in_step_wf(2) [OF okD(1)] d_reload(2)] by (simp add: pipe_of_def)
  qed (simp_all add: pipe_of_def as_stored_def)
qed

inductive pipe_run :: "'a list \<times> 'a list \<Rightarrow> 'a list \<times> 'a list \<Rightarrow> bool" where
  pipe_refl: "pipe_run p p"
| pipe_more: "pipe_run p q \<Longrightarrow> pipe_step q r \<Longrightarrow> pipe_run p r"

text \<open>A new session: an outbox just created, nothing stored, nobody connected.\<close>

definition delivery_start :: "outbox \<Rightarrow> session \<Rightarrow> delivery" where
  "delivery_start ob s = \<lparr>dl_outbox = ob, dl_log = (\<lambda>_. []), dl_line = Off, dl_stale = [], dl_session = s\<rparr>"

definition empty_server :: "session \<Rightarrow> bool" where
  "empty_server s \<longleftrightarrow> (\<exists>now interval. load_store (new_store now interval (\<lambda>_. []) (\<lambda>_. [])) = (None, in_store (ss_ingest s)))"

lemma empty_server_wf:
  assumes "empty_server s"
  shows "snk_ok (in_store (ss_ingest s))" "stored_frames (in_store (ss_ingest s)) c = []"
proof -
  obtain now interval where l: "load_store (new_store now interval (\<lambda>_. []) (\<lambda>_. [])) = (None, in_store (ss_ingest s))"
    using assms by (auto simp: empty_server_def)
  have "disk_ok (new_store now interval (\<lambda>_. []) (\<lambda>_. []))" by (simp add: disk_ok_def new_store_def)
  from load_store_ok [OF this] l show "snk_ok (in_store (ss_ingest s))" "stored_frames (in_store (ss_ingest s)) c = []"
    by (auto simp: snk_ok_def new_store_def stored_frames_def)
qed

lemma delivery_start_ok:
  assumes "init_outbox sid threshold True None = Inr ob" "empty_server s"
  shows "delivery_ok (delivery_start ob s)"
proof -
  have "in_step c [] ob (in_store (ss_ingest s))" for c
    using init_fresh_wf(1) [OF assms(1)] init_fresh_wf(2) [OF assms(1) channel_str_in, of c] empty_server_wf [OF assms(2)]
    by (simp add: in_step_def link.agree_def src_next_def src_pend_def src_lowest_def floor_of_def snk_kept_def)
  then show ?thesis by (simp add: delivery_ok_def delivery_start_def)
qed

lemmas delivery_reach_ok = delivery_steps_ok [OF _ delivery_start_ok]

section \<open>A run\<close>

definition demo_delivery :: "outbox \<Rightarrow> line \<Rightarrow> delivery" where
  "demo_delivery ob l = (delivery_start ob demo_session)\<lparr>dl_log := (\<lambda>_. [])(Mic := [sample_stored]), dl_line := l\<rparr>"

lemma demo_empty: "empty_server demo_session"
  unfolding empty_server_def
  by (rule exI [of _ 0], rule exI [of _ 1])
    (simp add: demo_session_def fresh_store_def new_store_def load_store_def load_channel_def Let_def fun_eq_iff)

lemma demo_sent:
  "delivery_steps vad (delivery_start fresh_outbox demo_session)
     (demo_delivery one_frame_outbox (Up ((\<lambda>_. 0)(Mic := 1)) [wire_frame Mic sample_stored] []))"
proof -
  let ?D0 = "delivery_start fresh_outbox demo_session"
  note defs = demo_delivery_def delivery_start_def
  have cur: "store_cursor (in_store (ss_ingest demo_session)) = \<lparr>cur_mic = None, cur_system = None\<rparr>"
    by (simp add: demo_session_def store_cursor_def fresh_store_def new_store_def)
  have 1: "delivery_step vad ?D0 (demo_delivery one_frame_outbox Off)"
    using d_capture [of Mic ?D0 sample_pcm 40 sample_stored one_frame_outbox vad] one_frame_append
    by (simp add: defs demo_session_def fun_upd_def)
  have 2: "delivery_step vad (demo_delivery one_frame_outbox Off)
      (demo_delivery one_frame_outbox (Greeted \<lparr>cur_mic = None, cur_system = None\<rparr>))"
    using d_hello [of "demo_delivery one_frame_outbox Off" vad] by (simp add: defs cur)
  have "handshake one_frame_outbox new_conn \<lparr>cur_mic = None, cur_system = None\<rparr> =
      Inr (one_frame_outbox, set_state CConnected (new_conn\<lparr>cn_failures := 0\<rparr>), \<lambda>_. 0)"
    by (simp add: handshake_def ack_cursor_def acked_seq_def after_acked_def one_frame_acked)
  then have "handshake (dl_outbox (demo_delivery one_frame_outbox (Greeted \<lparr>cur_mic = None, cur_system = None\<rparr>))) new_conn
      \<lparr>cur_mic = None, cur_system = None\<rparr> = Inr (one_frame_outbox, set_state CConnected (new_conn\<lparr>cn_failures := 0\<rparr>), \<lambda>_. 0)"
    by (simp add: defs)
  from d_connect [OF _ this, of vad]
  have 3: "delivery_step vad (demo_delivery one_frame_outbox (Greeted \<lparr>cur_mic = None, cur_system = None\<rparr>))
      (demo_delivery one_frame_outbox (Up (\<lambda>_. 0) [] []))" by (simp add: defs)
  have 4: "delivery_step vad (demo_delivery one_frame_outbox (Up (\<lambda>_. 0) [] []))
      (demo_delivery one_frame_outbox (Up ((\<lambda>_. 0)(Mic := 1)) [wire_frame Mic sample_stored] []))"
    using d_send [of "demo_delivery one_frame_outbox (Up (\<lambda>_. 0) [] [])" "\<lambda>_. 0" "[]" "[]" 5000 Mic 5 False False
      None _ vad] one_frame_send unfolding idle_send_def by (simp add: defs)
  show ?thesis by (rule dsteps_step [OF dsteps_step [OF dsteps_step [OF dsteps_step [OF dsteps_refl 1] 2] 3] 4])
qed

lemma demo_ok: "delivery_steps vad (delivery_start fresh_outbox demo_session) D \<Longrightarrow> delivery_ok D"
  by (rule delivery_reach_ok [OF _ fresh_outbox demo_empty])

lemma demo_received:
  "\<exists>d nx s l. wire_frame Mic sample_stored = WBinary d \<and> on_binary vad CommitOk 0 d (demo_session, new_link) = (nx, s, l) \<and>
     delivery_steps vad (delivery_start fresh_outbox demo_session)
       ((demo_delivery one_frame_outbox (Up ((\<lambda>_. 0)(Mic := 1)) [] []))\<lparr>dl_session := s\<rparr>) \<and>
     stored_frames (in_store (ss_ingest s)) Mic = [as_stored sample_stored]"
proof -
  let ?U = "Up ((\<lambda>_. 0)(Mic := 1))" and ?s0 = "delivery_start fresh_outbox demo_session"
  have "\<exists>d. encode_frame 0 0 40 sample_pcm = Inr d"
    by (simp add: encode_frame_def sample_pcm_ok pack_header_def fits_def eval_simps)
  then obtain d where d: "wire_frame Mic sample_stored = WBinary d"
    by (auto simp: wire_frame_def sample_stored_def)
  obtain nx s l where r: "on_binary vad CommitOk 0 d (demo_session, new_link) = (nx, s, l)" using prod_cases3 by blast
  let ?D = "demo_delivery one_frame_outbox (?U [wire_frame Mic sample_stored] [])"
  have ses: "dl_session ?D = demo_session" and line: "dl_line ?D = ?U [WBinary d] []"
    by (simp_all add: demo_delivery_def delivery_start_def d)
  note okD = delivery_okD [OF demo_ok [OF demo_sent]]
  have "nx = Continue"
    using head_taken(6) [OF okD(2,3) okD(4) [OF line] _ r [folded ses]] by simp
  with d_receive [OF line _ r [folded ses]]
  have "delivery_step vad ?D (?D\<lparr>dl_session := s, dl_line := ?U [] []\<rparr>)" by simp
  moreover have "?D\<lparr>dl_session := s, dl_line := ?U [] []\<rparr> = (demo_delivery one_frame_outbox (?U [] []))\<lparr>dl_session := s\<rparr>"
    by (simp add: demo_delivery_def delivery_start_def)
  ultimately have "delivery_step vad ?D ((demo_delivery one_frame_outbox (?U [] []))\<lparr>dl_session := s\<rparr>)"
    by (simp only:)
  then have run: "delivery_steps vad ?s0 ((demo_delivery one_frame_outbox (?U [] []))\<lparr>dl_session := s\<rparr>)"
    by (rule dsteps_step [OF demo_sent])
  from demo_ok [OF this] have ok: "in_step Mic [sample_stored] one_frame_outbox (in_store (ss_ingest s))"
    "1 \<le> stored_count (in_store (ss_ingest s)) Mic"
    by (auto simp: delivery_ok_def demo_delivery_def delivery_start_def dest: spec [of _ Mic])
  then have "stored_count (in_store (ss_ingest s)) Mic = 1" using in_step_stored(1) [OF ok(1)] by simp
  then have "stored_frames (in_store (ss_ingest s)) Mic = [as_stored sample_stored]"
    using in_step_stored(2) [OF ok(1)] by simp
  with d r run show ?thesis by blast
qed

section \<open>Properties\<close>

text \<open>
  C1: delivery implements a pipe per channel. Whatever the order of captures, hellos, handshakes,
  sends, receipts, acks, dropped connections (with frames of the old connection still arriving),
  client restarts and server restarts, the server's frames of a channel evolve from the captured
  ones by taking them out one at a time, in order, never twice and never with a gap. (The one
  fault left out is a commit whose reply is lost; see \<open>lost_commit_reply_breaks_load\<close>.)
\<close>

theorem delivery_refines_pipe:
  assumes "init_outbox sid threshold True None = Inr ob" "empty_server s"
    "delivery_steps vad (delivery_start ob s) D"
  shows "pipe_run ([], []) (map as_stored (dl_log D c), stored_frames (server_store D) c)"
proof -
  have "pipe_run (pipe_of c A) (pipe_of c D)" if "delivery_steps vad A D" "delivery_ok A" for A
    using that
  proof (induction rule: delivery_steps.induct)
    case (dsteps_step D E F)
    show ?case
      by (rule pipe_more [OF dsteps_step.IH [OF dsteps_step.prems]
        delivery_step_pipe [OF dsteps_step.hyps(2) delivery_steps_ok [OF dsteps_step.hyps(1) dsteps_step.prems]]])
  qed (rule pipe_refl)
  from this [OF assms(3) delivery_start_ok [OF assms(1,2)]] show ?thesis
    using empty_server_wf(2) [OF assms(2)] by (simp add: pipe_of_def delivery_start_def)
qed

theorem delivery_refines_pipe_witness:
  "\<exists>D. delivery_steps always_speech (delivery_start fresh_outbox demo_session) D \<and>
     pipe_run ([], []) ([as_stored sample_stored], [as_stored sample_stored]) \<and>
     stored_frames (server_store D) Mic = [as_stored sample_stored]"
proof -
  obtain s where s: "delivery_steps always_speech (delivery_start fresh_outbox demo_session)
       ((demo_delivery one_frame_outbox (Up ((\<lambda>_. 0)(Mic := 1)) [] []))\<lparr>dl_session := s\<rparr>)"
    "stored_frames (in_store (ss_ingest s)) Mic = [as_stored sample_stored]"
    using demo_received [of always_speech] by blast
  from delivery_refines_pipe [OF fresh_outbox demo_empty s(1), of Mic] s show ?thesis
    by (auto simp: demo_delivery_def)
qed

text \<open>
  C2: no captured frame is lost. At every moment of such a run the server has a prefix of what was
  captured, the outbox still holds everything after it (and possibly some of it, not acked
  yet), and a captured frame is therefore stored or still pending.
\<close>

theorem delivery_no_loss:
  assumes "init_outbox sid threshold True None = Inr ob" "empty_server s"
    "delivery_steps vad (delivery_start ob s) D"
  shows "\<exists>low k. low \<le> k \<and> k \<le> length (dl_log D c) \<and>
     stored_frames (server_store D) c = map as_stored (take k (dl_log D c)) \<and>
     pending (dl_outbox D) (channel_str c) = drop low (dl_log D c)"
proof -
  have "in_step c (dl_log D c) (dl_outbox D) (server_store D)"
    by (rule delivery_okD(1) [OF delivery_reach_ok [OF assms(3,1,2)]])
  then obtain low where "low \<le> length (stored_frames (server_store D) c)"
    "pending (dl_outbox D) (channel_str c) = drop low (dl_log D c)"
    by (auto simp: in_step_def link.agree_def src_pend_def snk_kept_def)
  moreover define k where "k = length (stored_frames (server_store D) c)"
  moreover have "stored_frames (server_store D) c = map as_stored (take k (dl_log D c))" "k \<le> length (dl_log D c)"
    using in_step_stored [OF \<open>in_step c _ _ _\<close>] unfolding stored_count_def nat_int of_nat_le_iff k_def by - (assumption+)
  ultimately show ?thesis by blast
qed

theorem delivery_no_loss_witness:
  "\<exists>D low k. delivery_steps always_speech (delivery_start fresh_outbox demo_session) D \<and> low \<le> k \<and>
     dl_log D Mic = [sample_stored] \<and> pending (dl_outbox D) ''mic'' = drop low [sample_stored] \<and>
     stored_frames (server_store D) Mic = map as_stored (take k [sample_stored])"
proof -
  let ?D = "demo_delivery one_frame_outbox (Up ((\<lambda>_. 0)(Mic := 1)) [wire_frame Mic sample_stored] [])"
  have "dl_log ?D Mic = [sample_stored]" by (simp add: demo_delivery_def)
  with delivery_no_loss [where c = Mic, OF fresh_outbox demo_empty demo_sent [of always_speech]] demo_sent [of always_speech]
  show ?thesis by (metis channel_str.simps(1))
qed

text \<open>
  The server never sees a gap. In every such run, a frame that arrives from the live connection
  or from a dropped one while the database takes commits is accepted: the connection stays up.
\<close>

theorem delivery_never_gaps:
  assumes "init_outbox sid threshold True None = Inr ob" "empty_server s"
    "delivery_steps vad (delivery_start ob s) D"
    "dl_line D = Up nxt (WBinary d # q) acks \<or> WBinary d # q \<in> set (dl_stale D)"
    "on_binary vad CommitOk now d (dl_session D, l) = (nx, s', l')"
  shows "nx = Continue"
proof -
  note okD = delivery_okD [OF delivery_reach_ok [OF assms(3,1,2)]]
  have "queue_ok (dl_log D) (stored_count (server_store D)) (WBinary d # q)"
    using assms(4) okD(4,5) by blast
  from head_taken(6) [OF okD(2,3) this _ assms(5)] show ?thesis by simp
qed

theorem delivery_never_gaps_witness:
  "\<exists>d s l. wire_frame Mic sample_stored = WBinary d \<and>
     on_binary always_speech CommitOk 0 d (demo_session, new_link) = (Continue, s, l)"
proof -
  obtain d nx s l where d: "wire_frame Mic sample_stored = WBinary d"
    "on_binary always_speech CommitOk 0 d (demo_session, new_link) = (nx, s, l)"
    using demo_received [of always_speech] by blast
  let ?D = "demo_delivery one_frame_outbox (Up ((\<lambda>_. 0)(Mic := 1)) [wire_frame Mic sample_stored] [])"
  have D: "dl_line ?D = Up ((\<lambda>_. 0)(Mic := 1)) [WBinary d] []" "dl_session ?D = demo_session"
    by (simp_all add: demo_delivery_def delivery_start_def d(1))
  from delivery_never_gaps [OF fresh_outbox demo_empty demo_sent disjI1 [OF D(1)] d(2) [folded D(2)]] d
  show ?thesis by blast
qed

text \<open>
  No ack breaks a connection: every ack that reaches the client in such a run is one its outbox
  accepts (the server never acks a frame the outbox does not know).
\<close>

theorem delivery_acks_accepted:
  assumes "init_outbox sid threshold True None = Inr ob" "empty_server s"
    "delivery_steps vad (delivery_start ob s) D" "dl_line D = Up nxt q ((c, n) # acks)"
  shows "\<exists>ob'. mark_acked (dl_outbox D) (channel_str c) n = Inr ob'"
proof -
  have ok: "delivery_ok D" by (rule delivery_reach_ok [OF assms(3,1,2)])
  then have "0 \<le> n" "n < stored_count (server_store D) c" using assms(4) by (auto simp: delivery_ok_def)
  with ack_in_step [OF delivery_okD(2) [OF ok]] show ?thesis by blast
qed

theorem delivery_acks_accepted_witness:
  "\<exists>D ob'. delivery_steps always_speech (delivery_start fresh_outbox demo_session) D \<and>
     dl_line D = Up ((\<lambda>_. 0)(Mic := 1)) [] [(Mic, 0)] \<and> mark_acked (dl_outbox D) ''mic'' 0 = Inr ob'"
proof -
  obtain s where s: "delivery_steps always_speech (delivery_start fresh_outbox demo_session)
       ((demo_delivery one_frame_outbox (Up ((\<lambda>_. 0)(Mic := 1)) [] []))\<lparr>dl_session := s\<rparr>)"
    "stored_frames (in_store (ss_ingest s)) Mic = [as_stored sample_stored]"
    using demo_received [of always_speech] by blast
  let ?D = "(demo_delivery one_frame_outbox (Up ((\<lambda>_. 0)(Mic := 1)) [] []))\<lparr>dl_session := s\<rparr>"
  have "store_wf (server_store ?D)" by (rule in_step_wf(2) [OF delivery_okD(1) [OF demo_ok [OF s(1)]]])
  then have "cursor_at (store_cursor (server_store ?D)) Mic = Some 0"
    using s(2) by (auto simp: store_wf_def store_cursor_def stored_frames_def)
  moreover have "dl_line ?D = Up ((\<lambda>_. 0)(Mic := 1)) [] []" by (simp add: demo_delivery_def)
  ultimately have st: "delivery_step always_speech ?D (?D\<lparr>dl_line := Up ((\<lambda>_. 0)(Mic := 1)) [] ([] @ [(Mic, 0)])\<rparr>)"
    by (intro d_ack_sent)
  let ?E = "?D\<lparr>dl_line := Up ((\<lambda>_. 0)(Mic := 1)) [] ([] @ [(Mic, 0)])\<rparr>"
  have line: "dl_line ?E = Up ((\<lambda>_. 0)(Mic := 1)) [] [(Mic, 0)]" by simp
  note run = dsteps_step [OF s(1) st]
  from delivery_acks_accepted [OF fresh_outbox demo_empty run line] run line show ?thesis by auto
qed

end
