(* ===== verification/Transcript.thy ===== *)
theory Transcript
  imports PyText "HOL-Library.Product_Lexorder" "HOL-Library.Multiset"
begin

text \<open>
  \<open>copilot/transcript.py\<close>: the transcript the copilot, the voice loop and the finalizer read. A
  session's segment rows become lines; final ones are kept, drafts only where no final covers
  their time. The rows are the ones of one session, in the order the table has them (a tie of
  the query's \<open>ORDER BY\<close> is left in that order); identifiers are strings.
\<close>

section \<open>Lines\<close>

record tline =
  ln_start :: int
  ln_end :: int
  ln_speaker :: string
  ln_text :: string
  ln_segment :: "string option"
  ln_label :: "string option"

definition who :: "tline \<Rightarrow> string" where
  "who x = (case ln_label x of None \<Rightarrow> ln_speaker x | Some l \<Rightarrow> if l = [] then ln_speaker x else l)"

definition seconds_of :: "int \<Rightarrow> nat" where
  "seconds_of ms = nat (max 0 ms div 1000)"

definition mmss :: "int \<Rightarrow> string" where
  "mmss ms = (let s = seconds_of ms in pad2 (s div 60) @ '':'' @ pad2 (s mod 60))"

definition hhmmss :: "int \<Rightarrow> string" where
  "hhmmss ms = (let s = seconds_of ms in
     pad2 (s div 3600) @ '':'' @ pad2 (s mod 3600 div 60) @ '':'' @ pad2 (s mod 60))"

definition newline :: char where "newline = char_of (10 :: nat)"

definition render_line :: "tline \<Rightarrow> string" where
  "render_line x = ''['' @ mmss (ln_start x) @ ''] '' @ who x @ '': '' @ ln_text x"

definition render_lines :: "tline list \<Rightarrow> string" where
  "render_lines lines = join [newline] (map render_line lines)"

section \<open>Merging finals and drafts\<close>

definition overlaps :: "tline \<Rightarrow> tline \<Rightarrow> bool" where
  "overlaps d f \<longleftrightarrow> ln_start d < ln_end f \<and> ln_end d > ln_start f"

fun keep_first :: "tline list \<Rightarrow> tline list \<Rightarrow> tline list" where
  "keep_first kept [] = kept"
| "keep_first kept (d # ds) =
     (if kept = [] \<or> ln_start d \<ge> ln_end (last kept) then keep_first (kept @ [d]) ds else keep_first kept ds)"

definition uncovered :: "tline list \<Rightarrow> tline list \<Rightarrow> tline list" where
  "uncovered finals drafts = filter (\<lambda>d. \<not> (\<exists>f \<in> set finals. overlaps d f)) drafts"

definition merge_lines :: "tline list \<Rightarrow> tline list \<Rightarrow> tline list" where
  "merge_lines finals drafts =
     sort_key (\<lambda>x. (ln_start x, ln_end x)) (finals @ keep_first [] (sort_key ln_start (uncovered finals drafts)))"

section \<open>Reading the tables\<close>

record speaker_row =
  sp_id :: string
  sp_channel :: string
  sp_ordinal :: int
  sp_label :: "string option"
  sp_owner :: bool

record transcript_row =
  sg_id :: string
  sg_start :: int
  sg_end :: int
  sg_speaker :: string
  sg_text :: string
  sg_source :: string
  sg_speaker_id :: "string option"

definition voices :: "speaker_row list \<Rightarrow> string \<Rightarrow> nat" where
  "voices rows c = length (filter (\<lambda>r. sp_channel r = c) rows)"

definition label_of :: "speaker_row list \<Rightarrow> speaker_row \<Rightarrow> string option" where
  "label_of rows sp =
     (if sp_owner sp then None
      else if sp_label sp \<notin> {None, Some []} then sp_label sp
      else if 1 < voices rows (sp_channel sp) then Some (''Speaker '' @ int_str (sp_ordinal sp)) else None)"

definition speaker_labels :: "speaker_row list \<Rightarrow> string \<Rightarrow> string option" where
  "speaker_labels rows =
     fold (\<lambda>sp out. case label_of rows sp of None \<Rightarrow> out | Some l \<Rightarrow> out(sp_id sp \<mapsto> l)) rows Map.empty"

definition line_of :: "(string \<Rightarrow> string option) \<Rightarrow> transcript_row \<Rightarrow> tline" where
  "line_of labels r = \<lparr>ln_start = sg_start r, ln_end = sg_end r, ln_speaker = sg_speaker r,
     ln_text = squeeze (sg_text r), ln_segment = Some (sg_id r),
     ln_label = labels (case sg_speaker_id r of None \<Rightarrow> [] | Some i \<Rightarrow> i)\<rparr>"

definition has_text :: "transcript_row \<Rightarrow> bool" where
  "has_text r \<longleftrightarrow> squeeze (sg_text r) \<noteq> []"

definition is_final :: "transcript_row \<Rightarrow> bool" where
  "is_final r \<longleftrightarrow> sg_source r = ''final''"

definition load_lines :: "transcript_row list \<Rightarrow> speaker_row list \<Rightarrow> int \<Rightarrow> tline list" where
  "load_lines segs speakers from_ms =
     (let rows = sort_key sg_start (filter (\<lambda>r. sg_end r \<ge> from_ms) segs);
          labels = speaker_labels speakers;
          lines = (\<lambda>p. map (line_of labels) (filter (\<lambda>r. p r \<and> has_text r) rows))
      in merge_lines (lines is_final) (lines (\<lambda>r. \<not> is_final r)))"

definition load_final_lines :: "transcript_row list \<Rightarrow> speaker_row list \<Rightarrow> int \<Rightarrow> tline list" where
  "load_final_lines segs speakers after_ms =
     map (line_of (speaker_labels speakers))
       (filter has_text (sort_key sg_start (filter (\<lambda>r. is_final r \<and> sg_end r > after_ms) segs)))"

section \<open>What a merge keeps\<close>

text \<open>
  Drafts kept in order: each starts no earlier than the one before ends, none is invented, and one
  that is left out meets one that was kept.
\<close>

definition disjoint_run :: "tline list \<Rightarrow> bool" where
  "disjoint_run xs \<longleftrightarrow> sorted_wrt (\<lambda>a b. ln_end a \<le> ln_start b) xs"

lemma keep_first_prefix: "\<exists>new. keep_first kept ds = kept @ new \<and> set new \<subseteq> set ds"
proof (induction kept ds rule: keep_first.induct)
  case (2 kept d ds)
  then show ?case by (cases "kept = [] \<or> ln_start d \<ge> ln_end (last kept)") auto
qed simp

lemma keep_first_disjoint:
  assumes "disjoint_run kept" "\<forall>x \<in> set kept \<union> set ds. ln_start x < ln_end x"
  shows "disjoint_run (keep_first kept ds)"
  using assms
proof (induction kept ds rule: keep_first.induct)
  case (2 kept d ds)
  show ?case
  proof (cases "kept = [] \<or> ln_start d \<ge> ln_end (last kept)")
    case True
    have "ln_end x \<le> ln_start d" if x: "x \<in> set kept" for x
    proof -
      obtain us vs where s: "kept = us @ x # vs" using split_list [OF x] by blast
      show ?thesis
      proof (cases "vs = []")
        case False
        then have "ln_end x \<le> ln_start (last vs)" "last kept = last vs" "last vs \<in> set kept"
          using 2(3) s by (auto simp: disjoint_run_def sorted_wrt_append)
        moreover have "ln_start (last vs) < ln_end (last vs)" using 2(4) calculation(3) by blast
        ultimately show ?thesis using True s by auto
      qed (use True s in auto)
    qed
    then have "disjoint_run (kept @ [d])" using 2(3) by (auto simp: disjoint_run_def sorted_wrt_append)
    then show ?thesis using 2(1) [OF True] 2(4) True by simp
  qed (use 2 in simp)
qed simp

lemma keep_first_maximal:
  assumes "sorted_wrt (\<lambda>a b. ln_start a \<le> ln_start b) (kept @ ds)" "d \<in> set ds"
    "\<forall>x \<in> set kept \<union> set ds. ln_start x < ln_end x"
  shows "d \<in> set (keep_first kept ds) \<or> (\<exists>k \<in> set (keep_first kept ds). overlaps d k)"
  using assms
proof (induction kept ds rule: keep_first.induct)
  case (2 kept e ds)
  show ?case
  proof (cases "kept = [] \<or> ln_start e \<ge> ln_end (last kept)")
    case True
    obtain new where new: "keep_first (kept @ [e]) ds = (kept @ [e]) @ new" using keep_first_prefix by blast
    show ?thesis
    proof (cases "d = e")
      case False
      then show ?thesis using 2(1) [OF True] 2(3-5) True by auto
    qed (use new True in auto)
  next
    case False
    obtain new where new: "keep_first kept ds = kept @ new" using keep_first_prefix by blast
    show ?thesis
    proof (cases "d = e")
      case True
      have l: "last kept \<in> set kept" using False by simp
      then have "ln_start (last kept) \<le> ln_start e" using 2(3) by (auto simp: sorted_wrt_append)
      moreover have "ln_start e < ln_end e" using 2(5) by auto
      ultimately have "overlaps d (last kept)" using False True by (simp add: overlaps_def)
      then show ?thesis using new l False by auto
    next
      case ne: False
      have "sorted_wrt (\<lambda>a b. ln_start a \<le> ln_start b) (kept @ ds)" using 2(3) by (simp add: sorted_wrt_append)
      then show ?thesis using 2(2) [OF False] 2(4,5) ne False by auto
    qed
  qed
qed simp

lemma disjoint_no_overlap:
  assumes "disjoint_run xs" "a \<in> set xs" "b \<in> set xs" "overlaps a b" "\<forall>x \<in> set xs. ln_start x < ln_end x"
  shows "a = b"
proof -
  obtain i j where i: "i < length xs" "xs ! i = a" and j: "j < length xs" "xs ! j = b"
    using assms(2,3) by (auto simp: in_set_conv_nth)
  have "ln_end (xs ! m) \<le> ln_start (xs ! n)" if "m < n" "n < length xs" for m n
    using assms(1) that by (simp add: disjoint_run_def sorted_wrt_iff_nth_less)
  from this [of i j] this [of j i] have "\<not> i < j" "\<not> j < i"
    using assms(4) i j by (auto simp: overlaps_def)
  then show ?thesis using i j by simp
qed

text \<open>
  C19: the transcript has every final line and, of the drafts, a maximal set that overlaps neither a
  final nor one another: it is ordered by time, a kept draft meets no final and no other draft,
  and a draft left out meets something that is in the transcript.
\<close>

theorem merge_lines_correct:
  assumes "\<forall>x \<in> set drafts. ln_start x < ln_end x"
  shows "\<exists>kept. mset (merge_lines finals drafts) = mset finals + mset kept \<and>
     sorted (map (\<lambda>x. (ln_start x, ln_end x)) (merge_lines finals drafts)) \<and>
     set kept \<subseteq> set drafts \<and>
     (\<forall>d \<in> set kept. \<not> (\<exists>f \<in> set finals. overlaps d f) \<and> (\<forall>e \<in> set kept. overlaps d e \<longrightarrow> d = e)) \<and>
     (\<forall>d \<in> set drafts. d \<in> set kept \<or> (\<exists>x \<in> set (merge_lines finals drafts). overlaps d x))"
proof -
  define ds where "ds = sort_key ln_start (uncovered finals drafts)"
  define kept where "kept = keep_first [] ds"
  have ds: "set ds = set (uncovered finals drafts)" "sorted_wrt (\<lambda>a b. ln_start a \<le> ln_start b) ds"
    using sorted_sort_key [of ln_start] by (simp_all add: ds_def sorted_map)
  have sub: "set kept \<subseteq> set ds" using keep_first_prefix [of "[]" ds] by (auto simp: kept_def)
  have len: "\<forall>x \<in> set ds. ln_start x < ln_end x" using assms ds(1) by (auto simp: uncovered_def)
  have run: "disjoint_run kept"
    unfolding kept_def using len by (intro keep_first_disjoint) (auto simp: disjoint_run_def)
  have m: "merge_lines finals drafts = sort_key (\<lambda>x. (ln_start x, ln_end x)) (finals @ kept)"
    by (simp add: merge_lines_def kept_def ds_def)
  have kl: "\<forall>x \<in> set kept. ln_start x < ln_end x" using sub len by blast
  have alone: "\<not> (\<exists>f \<in> set finals. overlaps d f)" "\<forall>e \<in> set kept. overlaps d e \<longrightarrow> d = e" if "d \<in> set kept" for d
    using that sub ds(1) disjoint_no_overlap [OF run that _ _ kl] by (auto simp: uncovered_def)
  have maxi: "d \<in> set kept \<or> (\<exists>x \<in> set (merge_lines finals drafts). overlaps d x)" if "d \<in> set drafts" for d
  proof (cases "d \<in> set ds")
    case True
    then show ?thesis using keep_first_maximal [of "[]" ds d] ds(2) len by (auto simp: m kept_def)
  next
    case False
    then show ?thesis using that ds(1) by (auto simp: m uncovered_def)
  qed
  show ?thesis
    using sub ds(1) alone maxi
    by (intro exI [of _ kept] conjI ballI) (auto simp: m uncovered_def simp del: sort_key_simps)
qed

definition demo_line :: "int \<Rightarrow> int \<Rightarrow> string \<Rightarrow> tline" where
  "demo_line a b s = \<lparr>ln_start = a, ln_end = b, ln_speaker = ''me'', ln_text = s, ln_segment = None, ln_label = None\<rparr>"

theorem merge_lines_correct_witness:
  "map ln_text (merge_lines [demo_line 0 1000 ''a''] [demo_line 500 900 ''b'', demo_line 2500 4000 ''d'', demo_line 2000 3000 ''c''])
     = [''a'', ''c''] \<and>
   (\<exists>kept. mset (merge_lines [demo_line 0 1000 ''a''] [demo_line 500 900 ''b'', demo_line 2500 4000 ''d'', demo_line 2000 3000 ''c''])
     = mset [demo_line 0 1000 ''a''] + mset kept)"
proof -
  have "\<forall>x \<in> set [demo_line 500 900 ''b'', demo_line 2500 4000 ''d'', demo_line 2000 3000 ''c'']. ln_start x < ln_end x"
    by (simp add: demo_line_def)
  from merge_lines_correct [where finals = "[demo_line 0 1000 ''a'']", OF this]
  have "\<exists>kept. mset (merge_lines [demo_line 0 1000 ''a''] [demo_line 500 900 ''b'', demo_line 2500 4000 ''d'', demo_line 2000 3000 ''c''])
     = mset [demo_line 0 1000 ''a''] + mset kept" by blast
  moreover have "map ln_text (merge_lines [demo_line 0 1000 ''a'']
      [demo_line 500 900 ''b'', demo_line 2500 4000 ''d'', demo_line 2000 3000 ''c'']) = [''a'', ''c'']" by code_simp
  ultimately show ?thesis by blast
qed

end
