(* ===== verification/Copilot.thy ===== *)
theory Copilot
  imports Transcript
begin

text \<open>
  \<open>copilot/state.py\<close>: the state of a session's copilot that the server owns. The model proposes deltas;
  ids and versions are issued here. Items are the messages of \<open>protocol.py\<close>.
\<close>

section \<open>Data\<close>

record cnote =
  nt_id :: string
  nt_text :: string

record action =
  ac_id :: string
  ac_text :: string
  ac_owner :: "string option"
  ac_due :: "string option"

datatype suggestion_kind = Question | Gap | Counterpoint | Fact_check

record suggestion =
  su_id :: string
  su_kind :: suggestion_kind
  su_text :: string
  su_expires_at_ms :: int

record related =
  rl_path :: string
  rl_title :: string
  rl_snippet :: string
  rl_uri :: string

record copilot_message =
  cp_version :: int
  cp_notes :: "cnote list"
  cp_actions :: "action list"
  cp_decisions :: "cnote list"
  cp_suggestions :: "suggestion list"
  cp_related :: "related list"

text \<open>The state: the message the clients see, the vault paths shown, the next number of each prefix.\<close>

record copilot_state =
  cs_snap :: copilot_message
  cs_shown :: "string set"
  cs_next :: "char \<Rightarrow> nat"

record note_upsert =
  nu_id :: "string option"
  nu_text :: string

record action_upsert =
  au_id :: "string option"
  au_text :: string
  au_owner :: "string option"
  au_due :: "string option"

record suggestion_in =
  si_kind :: suggestion_kind
  si_text :: string
  si_ttl_s :: int

record copilot_delta =
  cd_notes :: "note_upsert list"
  cd_actions :: "action_upsert list"
  cd_decisions :: "note_upsert list"
  cd_remove_ids :: "string list"
  cd_suggestions :: "suggestion_in list"

definition MAX_SUGGESTIONS :: nat where "MAX_SUGGESTIONS = 5"

definition norm_text :: "string \<Rightarrow> string" where
  "norm_text text = squeeze (lower text)"

definition empty_snapshot :: copilot_message where
  "empty_snapshot = \<lparr>cp_version = 0, cp_notes = [], cp_actions = [], cp_decisions = [], cp_suggestions = [], cp_related = []\<rparr>"

definition new_state :: copilot_state where
  "new_state = \<lparr>cs_snap = empty_snapshot, cs_shown = {}, cs_next = (\<lambda>_. 1)\<rparr>"

section \<open>Ids\<close>

text \<open>The groups of \<open>_ID\<close>; \<open>$\<close> also matches before a last newline.\<close>

definition id_parts :: "string \<Rightarrow> (char \<times> nat) option" where
  "id_parts s = (case s of [] \<Rightarrow> None
     | c # ds \<Rightarrow>
        (let n = takeWhile is_digit ds; rest = dropWhile is_digit ds
         in if c \<in> set ''nads'' \<and> n \<noteq> [] \<and> rest \<in> {[], [newline]} then Some (c, dec_val n) else None))"

definition id_str :: "char \<Rightarrow> nat \<Rightarrow> string" where
  "id_str c n = c # dec_str n"

definition see_id :: "string \<Rightarrow> (char \<Rightarrow> nat) \<Rightarrow> char \<Rightarrow> nat" where
  "see_id s nxt = (case id_parts s of None \<Rightarrow> nxt | Some (c, n) \<Rightarrow> nxt(c := max (nxt c) (n + 1)))"

definition snapshot_ids :: "copilot_message \<Rightarrow> string list" where
  "snapshot_ids p = map nt_id (cp_notes p @ cp_decisions p) @ map ac_id (cp_actions p) @ map su_id (cp_suggestions p)"

definition from_snapshot :: "copilot_message \<Rightarrow> string set \<Rightarrow> copilot_state" where
  "from_snapshot snap shown = \<lparr>cs_snap = snap, cs_shown = shown \<union> rl_path ` set (cp_related snap),
     cs_next = fold see_id (snapshot_ids snap) (\<lambda>_. 1)\<rparr>"

definition new_id :: "char \<Rightarrow> copilot_state \<Rightarrow> string \<times> copilot_state" where
  "new_id c st = (id_str c (cs_next st c), st\<lparr>cs_next := (cs_next st)(c := cs_next st c + 1)\<rparr>)"

section \<open>Mutation\<close>

text \<open>Replace the first element a test holds of.\<close>

fun replace_first :: "('a \<Rightarrow> bool) \<Rightarrow> ('a \<Rightarrow> 'a) \<Rightarrow> 'a list \<Rightarrow> 'a list" where
  "replace_first P f [] = []"
| "replace_first P f (x # xs) = (if P x then f x # xs else x # replace_first P f xs)"

text \<open>
  \<open>_upsert_note\<close> on the list \<open>get\<close> reads and \<open>set\<close> writes (\<open>self.notes\<close> or \<open>self.decisions\<close>).
\<close>

definition upsert_note ::
  "(copilot_message \<Rightarrow> cnote list) \<Rightarrow> (cnote list \<Rightarrow> copilot_message \<Rightarrow> copilot_message) \<Rightarrow> char \<Rightarrow> note_upsert \<Rightarrow>
     copilot_state \<Rightarrow> copilot_state" where
  "upsert_note get put prefix u st =
     (let text = strip (nu_text u); items = get (cs_snap st)
      in if \<exists>x \<in> set items. nu_id u = Some (nt_id x)
         then st\<lparr>cs_snap := put (replace_first (\<lambda>x. nu_id u = Some (nt_id x)) (\<lambda>x. \<lparr>nt_id = nt_id x, nt_text = text\<rparr>) items) (cs_snap st)\<rparr>
         else if \<exists>x \<in> set items. norm_text (nt_text x) = norm_text text then st
         else let (i, st') = new_id prefix st
              in st'\<lparr>cs_snap := put (items @ [\<lparr>nt_id = i, nt_text = text\<rparr>]) (cs_snap st')\<rparr>)"

definition put_notes :: "cnote list \<Rightarrow> copilot_message \<Rightarrow> copilot_message" where
  "put_notes xs p = p\<lparr>cp_notes := xs\<rparr>"

definition put_decisions :: "cnote list \<Rightarrow> copilot_message \<Rightarrow> copilot_message" where
  "put_decisions xs p = p\<lparr>cp_decisions := xs\<rparr>"

definition or_none :: "string option \<Rightarrow> string option" where
  "or_none s = (let t = strip (case s of None \<Rightarrow> [] | Some x \<Rightarrow> x) in if t = [] then None else Some t)"

text \<open>\<open>a or b\<close> on optional texts: an empty text counts as nothing.\<close>

definition opt_or :: "string option \<Rightarrow> string option \<Rightarrow> string option" where
  "opt_or a b = (if a \<in> {None, Some []} then b else a)"

definition upsert_action :: "action_upsert \<Rightarrow> copilot_state \<Rightarrow> copilot_state" where
  "upsert_action u st =
     (let text = strip (au_text u); owner = or_none (au_owner u); due = or_none (au_due u);
          items = cp_actions (cs_snap st);
          put = (\<lambda>xs s. s\<lparr>cs_snap := (cs_snap s)\<lparr>cp_actions := xs\<rparr>\<rparr>)
      in if \<exists>x \<in> set items. au_id u = Some (ac_id x)
         then put (replace_first (\<lambda>x. au_id u = Some (ac_id x))
                (\<lambda>x. \<lparr>ac_id = ac_id x, ac_text = text, ac_owner = opt_or owner (ac_owner x), ac_due = opt_or due (ac_due x)\<rparr>) items) st
         else if \<exists>x \<in> set items. norm_text (ac_text x) = norm_text text
         then put (replace_first (\<lambda>x. norm_text (ac_text x) = norm_text text)
                (\<lambda>x. x\<lparr>ac_owner := opt_or owner (ac_owner x), ac_due := opt_or due (ac_due x)\<rparr>) items) st
         else let (i, st') = new_id (CHR ''a'') st
              in put (items @ [\<lparr>ac_id = i, ac_text = text, ac_owner = owner, ac_due = due\<rparr>]) st')"

definition remove_ids :: "string list \<Rightarrow> copilot_message \<Rightarrow> copilot_message" where
  "remove_ids gone p = p\<lparr>cp_notes := filter (\<lambda>x. nt_id x \<notin> set gone) (cp_notes p),
     cp_decisions := filter (\<lambda>x. nt_id x \<notin> set gone) (cp_decisions p),
     cp_actions := filter (\<lambda>x. ac_id x \<notin> set gone) (cp_actions p),
     cp_suggestions := filter (\<lambda>x. su_id x \<notin> set gone) (cp_suggestions p)\<rparr>"

definition last_few :: "'a list \<Rightarrow> 'a list" where
  "last_few xs = drop (length xs - MAX_SUGGESTIONS) xs"

definition add_suggestion :: "suggestion_kind \<Rightarrow> string \<Rightarrow> int \<Rightarrow> copilot_state \<Rightarrow> copilot_state" where
  "add_suggestion kind text expires st =
     (let (i, st') = new_id (CHR ''s'') st
      in st'\<lparr>cs_snap := (cs_snap st')\<lparr>cp_suggestions := cp_suggestions (cs_snap st') @
           [\<lparr>su_id = i, su_kind = kind, su_text = text, su_expires_at_ms = expires\<rparr>]\<rparr>\<rparr>)"

definition trim_suggestions :: "copilot_state \<Rightarrow> copilot_state" where
  "trim_suggestions st = st\<lparr>cs_snap := (cs_snap st)\<lparr>cp_suggestions := last_few (cp_suggestions (cs_snap st))\<rparr>\<rparr>"

fun suggest_loop :: "int \<Rightarrow> int \<Rightarrow> string set \<Rightarrow> suggestion_in list \<Rightarrow> copilot_state \<Rightarrow> copilot_state" where
  "suggest_loop now_ms ttl live [] st = st"
| "suggest_loop now_ms ttl live (s # ss) st =
     (if norm_text (si_text s) \<in> live then suggest_loop now_ms ttl live ss st
      else suggest_loop now_ms ttl (insert (norm_text (si_text s)) live) ss
        (add_suggestion (si_kind s) (strip (si_text s))
           (now_ms + (if si_ttl_s s = 0 then ttl else si_ttl_s s) * 1000) st))"

definition bump :: "copilot_state \<Rightarrow> copilot_state" where
  "bump st = st\<lparr>cs_snap := (cs_snap st)\<lparr>cp_version := cp_version (cs_snap st) + 1\<rparr>\<rparr>"

definition merge_delta :: "copilot_delta \<Rightarrow> int \<Rightarrow> int \<Rightarrow> copilot_state \<Rightarrow> copilot_state" where
  "merge_delta d now_ms ttl st =
     (let s1 = fold (upsert_note cp_notes put_notes (CHR ''n'')) (cd_notes d) st;
          s2 = fold (upsert_note cp_decisions put_decisions (CHR ''d'')) (cd_decisions d) s1;
          s3 = fold upsert_action (cd_actions d) s2;
          s4 = (if cd_remove_ids d = [] then s3 else s3\<lparr>cs_snap := remove_ids (cd_remove_ids d) (cs_snap s3)\<rparr>);
          live = norm_text ` su_text ` set (cp_suggestions (cs_snap s4))
      in trim_suggestions (suggest_loop now_ms ttl live (cd_suggestions d) s4))"

definition apply_delta :: "copilot_delta \<Rightarrow> int \<Rightarrow> int \<Rightarrow> copilot_state \<Rightarrow> bool \<times> copilot_state" where
  "apply_delta d now_ms ttl st =
     (let st' = merge_delta d now_ms ttl st; changed = (cs_snap st' \<noteq> cs_snap st)
      in (changed, if changed then bump st' else st'))"

definition expire :: "int \<Rightarrow> copilot_state \<Rightarrow> bool \<times> copilot_state" where
  "expire now_ms st =
     (let keep = filter (\<lambda>s. su_expires_at_ms s > now_ms) (cp_suggestions (cs_snap st));
          changed = (length keep \<noteq> length (cp_suggestions (cs_snap st)));
          st' = st\<lparr>cs_snap := (cs_snap st)\<lparr>cp_suggestions := keep\<rparr>\<rparr>
      in (changed, if changed then bump st' else st'))"

definition notice :: "string \<Rightarrow> int \<Rightarrow> int \<Rightarrow> copilot_state \<Rightarrow> copilot_state" where
  "notice text now_ms ttl_s st =
     bump (trim_suggestions (add_suggestion Question text (now_ms + ttl_s * 1000) st))"

definition set_related :: "related list \<Rightarrow> copilot_state \<Rightarrow> bool \<times> copilot_state" where
  "set_related hits st =
     (if hits = [] then (False, st)
      else (True, bump (st\<lparr>cs_snap := (cs_snap st)\<lparr>cp_related := hits\<rparr>, cs_shown := cs_shown st \<union> rl_path ` set hits\<rparr>)))"

datatype copilot_op = Apply copilot_delta int int | Expire int | Notice string int int | Set_related "related list"

fun copilot_do :: "copilot_op \<Rightarrow> copilot_state \<Rightarrow> copilot_state" where
  "copilot_do (Apply d now ttl) st = snd (apply_delta d now ttl st)"
| "copilot_do (Expire now) st = snd (expire now st)"
| "copilot_do (Notice t now ttl) st = notice t now ttl st"
| "copilot_do (Set_related hits) st = snd (set_related hits st)"

section \<open>Ids are issued once\<close>

definition ids_of :: "char \<Rightarrow> copilot_message \<Rightarrow> string list" where
  "ids_of c p = (if c = CHR ''n'' then map nt_id (cp_notes p) else if c = CHR ''d'' then map nt_id (cp_decisions p)
     else if c = CHR ''a'' then map ac_id (cp_actions p) else if c = CHR ''s'' then map su_id (cp_suggestions p) else [])"

definition ids_wf :: "copilot_state \<Rightarrow> bool" where
  "ids_wf st \<longleftrightarrow> (\<forall>c. distinct (ids_of c (cs_snap st)) \<and>
     (\<forall>i \<in> set (ids_of c (cs_snap st)). \<exists>n < cs_next st c. i = id_str c n))"

text \<open>What a step may do to the ids: keep some, and issue numbers that were not issued before.\<close>

definition issues :: "copilot_state \<Rightarrow> copilot_state \<Rightarrow> bool" where
  "issues st st' \<longleftrightarrow> (ids_wf st \<longrightarrow> ids_wf st') \<and> (\<forall>c. cs_next st c \<le> cs_next st' c \<and>
     set (ids_of c (cs_snap st')) \<subseteq> set (ids_of c (cs_snap st)) \<union> id_str c ` {cs_next st c ..< cs_next st' c})"

lemma id_str_inj [simp]: "id_str c m = id_str d n \<longleftrightarrow> c = d \<and> m = n"
  by (auto simp: id_str_def)

lemma issues_refl: "issues st st"
  by (simp add: issues_def)

lemma subset_chain: "I \<union> J = K \<Longrightarrow> B \<subseteq> C \<union> I \<Longrightarrow> A \<subseteq> B \<union> J \<Longrightarrow> A \<subseteq> C \<union> K"
  by blast

lemma issues_trans:
  assumes "issues a b" "issues b c"
  shows "issues a c"
proof -
  have "set (ids_of x (cs_snap c)) \<subseteq> set (ids_of x (cs_snap a)) \<union> id_str x ` {cs_next a x ..< cs_next c x}" for x
  proof -
    have "cs_next a x \<le> cs_next b x" "cs_next b x \<le> cs_next c x" using assms by (simp_all add: issues_def)
    then have "id_str x ` {cs_next a x ..< cs_next b x} \<union> id_str x ` {cs_next b x ..< cs_next c x} = id_str x ` {cs_next a x ..< cs_next c x}"
      by (metis image_Un ivl_disj_un_two(3))
    moreover have "set (ids_of x (cs_snap b)) \<subseteq> set (ids_of x (cs_snap a)) \<union> id_str x ` {cs_next a x ..< cs_next b x}"
      "set (ids_of x (cs_snap c)) \<subseteq> set (ids_of x (cs_snap b)) \<union> id_str x ` {cs_next b x ..< cs_next c x}"
      using assms by (simp_all add: issues_def)
    ultimately show ?thesis using subset_chain by metis
  qed
  moreover have "cs_next a x \<le> cs_next c x" for x
    using assms order_trans [of "cs_next a x" "cs_next b x" "cs_next c x"] by (simp add: issues_def)
  moreover have "ids_wf a \<longrightarrow> ids_wf c" using assms by (simp add: issues_def)
  ultimately show ?thesis by (simp add: issues_def)
qed

lemma issues_sub:
  assumes d: "\<And>c. distinct (ids_of c (cs_snap st)) \<Longrightarrow> distinct (ids_of c (cs_snap st'))"
    and s: "\<And>c. set (ids_of c (cs_snap st')) \<subseteq> set (ids_of c (cs_snap st))" and n: "cs_next st' = cs_next st"
  shows "issues st st'"
proof -
  have "ids_wf st'" if w: "ids_wf st"
    unfolding ids_wf_def n
  proof (intro allI conjI ballI)
    fix c
    show "distinct (ids_of c (cs_snap st'))" by (rule d) (use w in \<open>simp add: ids_wf_def\<close>)
    fix i assume "i \<in> set (ids_of c (cs_snap st'))"
    then have "i \<in> set (ids_of c (cs_snap st))" using s by (rule subsetD [rotated])
    then show "\<exists>m < cs_next st c. i = id_str c m" using w by (simp add: ids_wf_def)
  qed
  then show ?thesis unfolding issues_def n using s by (simp add: le_supI1)
qed

lemma issues_new:
  assumes "ids_of c0 (cs_snap st') = ids_of c0 (cs_snap st) @ [id_str c0 (cs_next st c0)]"
    "\<And>c. c \<noteq> c0 \<Longrightarrow> ids_of c (cs_snap st') = ids_of c (cs_snap st)"
    "cs_next st' = (cs_next st)(c0 := cs_next st c0 + 1)"
  shows "issues st st'"
proof -
  have "set (ids_of c (cs_snap st')) \<subseteq> set (ids_of c (cs_snap st)) \<union> id_str c ` {cs_next st c ..< cs_next st' c}" for c
    using assms by (cases "c = c0") auto
  moreover have "ids_wf st'" if w: "ids_wf st"
    unfolding ids_wf_def
  proof
    fix c
    have old: "distinct (ids_of c (cs_snap st))" "\<forall>i \<in> set (ids_of c (cs_snap st)). \<exists>n < cs_next st c. i = id_str c n"
      using w by (simp_all add: ids_wf_def)
    show "distinct (ids_of c (cs_snap st')) \<and> (\<forall>i \<in> set (ids_of c (cs_snap st')). \<exists>n < cs_next st' c. i = id_str c n)"
    proof (cases "c = c0")
      case True
      then have "id_str c (cs_next st c) \<notin> set (ids_of c (cs_snap st))" using old(2) by auto
      then show ?thesis using old True assms(1,3) by (auto intro: less_SucI)
    qed (use old assms(2,3) in simp)
  qed
  ultimately show ?thesis using assms(3) by (simp add: issues_def)
qed

lemma map_replace_first: "(\<And>x. g (f x) = g x) \<Longrightarrow> map g (replace_first P f xs) = map g xs"
  by (induction xs) auto

lemma ids_of_simps [simp]:
  "ids_of c (p\<lparr>cp_version := v\<rparr>) = ids_of c p" "ids_of c (p\<lparr>cp_related := r\<rparr>) = ids_of c p"
  "ids_of c (p\<lparr>cp_notes := ns\<rparr>) = (if c = CHR ''n'' then map nt_id ns else ids_of c p)"
  "ids_of c (p\<lparr>cp_decisions := ns\<rparr>) = (if c = CHR ''d'' then map nt_id ns else ids_of c p)"
  "ids_of c (p\<lparr>cp_actions := xs\<rparr>) = (if c = CHR ''a'' then map ac_id xs else ids_of c p)"
  "ids_of c (p\<lparr>cp_suggestions := ss\<rparr>) = (if c = CHR ''s'' then map su_id ss else ids_of c p)"
  by (simp_all add: ids_of_def)

lemma issues_same:
  assumes "\<And>c. ids_of c (cs_snap st') = ids_of c (cs_snap st)" "cs_next st' = cs_next st"
  shows "issues st st'"
  using assms by (intro issues_sub) simp_all

lemma ids_of_prefix:
  "ids_of (CHR ''n'') p = map nt_id (cp_notes p)" "ids_of (CHR ''d'') p = map nt_id (cp_decisions p)"
  "ids_of (CHR ''a'') p = map ac_id (cp_actions p)" "ids_of (CHR ''s'') p = map su_id (cp_suggestions p)"
  by (simp_all add: ids_of_def)

lemma upsert_note_issues:
  assumes "\<And>xs p c. ids_of c (put xs p) = (if c = prefix then map nt_id xs else ids_of c p)"
    "\<And>p. map nt_id (get p) = ids_of prefix p"
  shows "issues st (upsert_note get put prefix u st)"
proof -
  define items where "items = get (cs_snap st)"
  have keep: "issues st (st\<lparr>cs_snap := put (replace_first P (\<lambda>x. \<lparr>nt_id = nt_id x, nt_text = t\<rparr>) items) (cs_snap st)\<rparr>)" for P t
    by (rule issues_same) (simp_all add: assms items_def map_replace_first)
  have new: "issues st (st\<lparr>cs_next := (cs_next st)(prefix := cs_next st prefix + 1),
      cs_snap := put (items @ [\<lparr>nt_id = id_str prefix (cs_next st prefix), nt_text = t\<rparr>]) (cs_snap st)\<rparr>)" for t
    by (rule issues_new [of prefix]) (simp_all add: assms items_def)
  show ?thesis
    unfolding upsert_note_def Let_def items_def [symmetric]
    using keep new issues_refl by (simp add: new_id_def)
qed

lemmas upsert_notes_issue =
  upsert_note_issues [of put_notes "CHR ''n''" cp_notes] upsert_note_issues [of put_decisions "CHR ''d''" cp_decisions]

lemma upsert_action_issues: "issues st (upsert_action u st)"
proof -
  define items where "items = cp_actions (cs_snap st)"
  have keep: "issues st (st\<lparr>cs_snap := (cs_snap st)\<lparr>cp_actions := replace_first P f items\<rparr>\<rparr>)" if "\<And>x. ac_id (f x) = ac_id x" for P f
    by (rule issues_same) (use that in \<open>simp_all add: items_def map_replace_first ids_of_prefix\<close>)
  have new: "issues st (st\<lparr>cs_next := (cs_next st)(CHR ''a'' := cs_next st (CHR ''a'') + 1), cs_snap := (cs_snap st)
      \<lparr>cp_actions := items @ [\<lparr>ac_id = id_str (CHR ''a'') (cs_next st (CHR ''a'')), ac_text = t, ac_owner = ow, ac_due = du\<rparr>]\<rparr>\<rparr>)" for t ow du
    by (rule issues_new [of "CHR ''a''"]) (simp_all add: items_def ids_of_prefix)
  show ?thesis
    unfolding upsert_action_def Let_def items_def [symmetric]
    using new by (auto simp: new_id_def intro!: keep)
qed

lemma add_suggestion_issues: "issues st (add_suggestion kind text expires st)"
  by (rule issues_new [of "CHR ''s''"]) (simp_all add: add_suggestion_def new_id_def ids_of_prefix)

lemma suggest_loop_issues: "issues st (suggest_loop now ttl live ss st)"
  by (induction now ttl live ss st rule: suggest_loop.induct)
    (auto intro: issues_refl issues_trans add_suggestion_issues)

lemma fold_issues: "(\<And>u st. issues st (f u st)) \<Longrightarrow> issues st (fold f us st)"
  by (induction us arbitrary: st) (auto intro: issues_refl issues_trans)

lemma bump_issues: "issues st (bump st)"
  by (rule issues_same) (simp_all add: bump_def)

lemma last_few_map: "map f (last_few xs) = last_few (map f xs)"
  by (simp add: last_few_def drop_map)

lemma trim_issues: "issues st (trim_suggestions st)"
proof -
  have i: "ids_of c (cs_snap (trim_suggestions st)) = (if c = CHR ''s'' then last_few (ids_of c (cs_snap st)) else ids_of c (cs_snap st))" for c
    by (simp add: trim_suggestions_def ids_of_prefix last_few_map)
  have n: "cs_next (trim_suggestions st) = cs_next st" by (simp add: trim_suggestions_def)
  show ?thesis
    by (rule issues_sub) (auto simp: i n last_few_def dest: in_set_dropD)
qed

lemma merge_delta_issues: "issues st (merge_delta d now ttl st)"
proof -
  have up: "issues s (fold (upsert_note cp_notes put_notes (CHR ''n'')) us s)"
    "issues s (fold (upsert_note cp_decisions put_decisions (CHR ''d'')) us s)" for s us
    by (rule fold_issues, rule upsert_note_issues; simp add: put_notes_def put_decisions_def ids_of_prefix)+
  have rm: "issues s (s\<lparr>cs_snap := remove_ids g (cs_snap s)\<rparr>)" for s g
  proof -
    have "ids_of c (cs_snap (s\<lparr>cs_snap := remove_ids g (cs_snap s)\<rparr>)) = filter (\<lambda>i. i \<notin> set g) (ids_of c (cs_snap s))" for c
      by (simp add: ids_of_def remove_ids_def filter_map o_def)
    then show ?thesis by (intro issues_sub) simp_all
  qed
  note chain = issues_trans [OF up(1) issues_trans [OF up(2) fold_issues [where f = upsert_action, OF upsert_action_issues]]]
  have "issues st (fold upsert_action (cd_actions d) (fold (upsert_note cp_decisions put_decisions (CHR ''d'')) (cd_decisions d)
      (fold (upsert_note cp_notes put_notes (CHR ''n'')) (cd_notes d) st)))" (is "issues st ?s3")
    by (rule chain)
  moreover have "issues ?s3 (if cd_remove_ids d = [] then ?s3 else ?s3\<lparr>cs_snap := remove_ids (cd_remove_ids d) (cs_snap ?s3)\<rparr>)"
    using rm issues_refl by simp
  ultimately show ?thesis
    unfolding merge_delta_def Let_def
    by (rule issues_trans [OF issues_trans [OF issues_trans suggest_loop_issues] trim_issues])
qed

lemma copilot_do_issues: "issues st (copilot_do op st)"
proof (cases op)
  case (Apply d now ttl)
  then show ?thesis
    using merge_delta_issues [of st d now ttl] issues_trans [OF merge_delta_issues bump_issues, of st d now ttl]
    by (simp add: apply_delta_def Let_def)
next
  case (Expire now)
  define st' where "st' = st\<lparr>cs_snap := (cs_snap st)\<lparr>cp_suggestions := filter (\<lambda>s. su_expires_at_ms s > now) (cp_suggestions (cs_snap st))\<rparr>\<rparr>"
  have "issues st st'"
    by (rule issues_sub) (auto simp: st'_def ids_of_prefix distinct_map_filter split: if_splits)
  then show ?thesis using Expire issues_trans [OF _ bump_issues, of st st'] by (simp add: expire_def Let_def st'_def)
next
  case (Notice t now ttl)
  show ?thesis
    unfolding Notice copilot_do.simps notice_def
    by (rule issues_trans [OF issues_trans [OF add_suggestion_issues trim_issues] bump_issues])
next
  case (Set_related hits)
  have "issues st (st\<lparr>cs_snap := (cs_snap st)\<lparr>cp_related := hits\<rparr>, cs_shown := cs_shown st \<union> rl_path ` set hits\<rparr>)"
    by (rule issues_same) simp_all
  then show ?thesis using Set_related issues_trans [OF _ bump_issues] issues_refl by (simp add: set_related_def)
qed

lemma few_suggestions: "length (last_few xs) \<le> MAX_SUGGESTIONS"
  by (simp add: last_few_def)

lemma bump_sel [simp]: "cp_suggestions (cs_snap (bump st)) = cp_suggestions (cs_snap st)" "cs_next (bump st) = cs_next st"
  by (simp_all add: bump_def)

lemma trim_few: "length (cp_suggestions (cs_snap (trim_suggestions st))) \<le> MAX_SUGGESTIONS"
  by (simp add: trim_suggestions_def few_suggestions)

lemma copilot_do_few:
  assumes "length (cp_suggestions (cs_snap st)) \<le> MAX_SUGGESTIONS"
  shows "length (cp_suggestions (cs_snap (copilot_do op st))) \<le> MAX_SUGGESTIONS"
proof (cases op)
  case (Apply d now ttl)
  have "length (cp_suggestions (cs_snap (merge_delta d now ttl st))) \<le> MAX_SUGGESTIONS"
    by (simp only: merge_delta_def Let_def trim_few)
  then show ?thesis using Apply assms by (simp add: apply_delta_def Let_def)
next
  case (Expire now)
  then show ?thesis
    using order_trans [OF length_filter_le assms] assms by (simp add: expire_def Let_def)
next
  case (Notice t now ttl)
  then show ?thesis by (simp add: notice_def trim_few)
qed (use assms in \<open>simp add: set_related_def\<close>)

lemma new_state_wf: "ids_wf new_state" "length (cp_suggestions (cs_snap new_state)) \<le> MAX_SUGGESTIONS"
  by (simp_all add: ids_wf_def ids_of_def new_state_def empty_snapshot_def)

lemma fold_copilot:
  assumes "ids_wf st" "length (cp_suggestions (cs_snap st)) \<le> MAX_SUGGESTIONS"
  shows "ids_wf (fold copilot_do ops st)" "length (cp_suggestions (cs_snap (fold copilot_do ops st))) \<le> MAX_SUGGESTIONS"
proof -
  have "issues st (fold copilot_do ops st)" by (rule fold_issues [OF copilot_do_issues])
  then show "ids_wf (fold copilot_do ops st)" using assms(1) by (simp add: issues_def)
  show "length (cp_suggestions (cs_snap (fold copilot_do ops st))) \<le> MAX_SUGGESTIONS"
    using assms(2) by (induction ops arbitrary: st) (simp_all add: copilot_do_few)
qed


definition demo_delta :: copilot_delta where
  "demo_delta = \<lparr>cd_notes = [\<lparr>nu_id = Some ''n7'', nu_text = '' Ship  it ''\<rparr>, \<lparr>nu_id = None, nu_text = ''ship it''\<rparr>], cd_actions = [],
     cd_decisions = [], cd_remove_ids = [], cd_suggestions = []\<rparr>"


section \<open>Versions\<close>

lemma upsert_note_version:
  "(\<And>xs p. cp_version (put xs p) = cp_version p) \<Longrightarrow> cp_version (cs_snap (upsert_note get put prefix u st)) = cp_version (cs_snap st)"
  by (simp add: upsert_note_def Let_def new_id_def)

lemma upsert_action_version: "cp_version (cs_snap (upsert_action u st)) = cp_version (cs_snap st)"
  by (simp add: upsert_action_def Let_def new_id_def)

lemma fold_version:
  "(\<And>u st. cp_version (cs_snap (f u st)) = cp_version (cs_snap st)) \<Longrightarrow> cp_version (cs_snap (fold f us st)) = cp_version (cs_snap st)"
  by (induction us arbitrary: st) simp_all

lemma suggest_loop_version: "cp_version (cs_snap (suggest_loop now ttl live ss st)) = cp_version (cs_snap st)"
  by (induction now ttl live ss st rule: suggest_loop.induct) (simp_all add: add_suggestion_def new_id_def)

lemma merge_delta_version: "cp_version (cs_snap (merge_delta d now ttl st)) = cp_version (cs_snap st)"
  by (simp add: merge_delta_def Let_def trim_suggestions_def suggest_loop_version remove_ids_def fold_version upsert_action_version
      upsert_note_version put_notes_def put_decisions_def)

text \<open>
  A delta is announced exactly when it changed what is shown, with the next version; so a client that has
  a version has its contents.
\<close>

lemma apply_delta_version:
  assumes "apply_delta d now ttl st = (changed, st')"
  shows "changed \<longleftrightarrow> cs_snap st' \<noteq> cs_snap st"
    and "cp_version (cs_snap st') = cp_version (cs_snap st) + (if changed then 1 else 0)"
proof -
  have v: "cp_version (cs_snap st') = cp_version (cs_snap st) + (if changed then 1 else 0)"
    using assms by (auto simp: apply_delta_def Let_def bump_def merge_delta_version)
  then show "cp_version (cs_snap st') = cp_version (cs_snap st) + (if changed then 1 else 0)" .
  show "changed \<longleftrightarrow> cs_snap st' \<noteq> cs_snap st" using v assms by (auto simp: apply_delta_def Let_def split: if_splits)
qed

section \<open>Restoring after a restart\<close>

lemma id_parts_id_str:
  assumes "c \<in> set ''nads''"
  shows "id_parts (id_str c n) = Some (c, n)"
proof -
  have "\<forall>d \<in> set (dec_str n). is_digit d" using dec_str_digits by blast
  then have tw: "takeWhile is_digit (dec_str n) = dec_str n" "dropWhile is_digit (dec_str n) = []"
    unfolding takeWhile_eq_all_conv dropWhile_eq_Nil_conv by assumption+
  show ?thesis unfolding id_str_def id_parts_def list.case Let_def tw using assms by simp
qed

lemma see_id_mono: "nxt c \<le> see_id s nxt c"
  by (simp add: see_id_def split: option.split prod.split)

lemma fold_see_id_mono: "nxt c \<le> fold see_id ids nxt c"
  by (induction ids arbitrary: nxt) (auto intro: order_trans [OF see_id_mono])

lemma fold_see_id_covers:
  "id_str c n \<in> set ids \<Longrightarrow> c \<in> set ''nads'' \<Longrightarrow> n < fold see_id ids nxt c"
proof (induction ids arbitrary: nxt)
  case (Cons i ids)
  show ?case
  proof (cases "i = id_str c n")
    case True
    then have "n < see_id i nxt c" using Cons.prems(2) by (simp only: True see_id_def id_parts_id_str) simp
    then show ?thesis using fold_see_id_mono [of "see_id i nxt" c ids] by simp
  qed (use Cons in auto)
qed simp

lemma fold_see_id_le:
  "\<forall>i \<in> set ids. \<forall>d n. id_parts i = Some (d, n) \<longrightarrow> n < b d \<Longrightarrow> nxt c \<le> b c \<Longrightarrow> fold see_id ids nxt c \<le> b c"
proof (induction ids arbitrary: nxt)
  case (Cons i ids)
  have "see_id i nxt c \<le> b c" using Cons.prems by (auto simp: see_id_def Suc_le_eq split: option.split)
  then show ?case using Cons by simp
qed simp

lemma snapshot_ids_set: "set (snapshot_ids p) = (\<Union>c \<in> set ''nads''. set (ids_of c p))"
  by (auto simp: snapshot_ids_def ids_of_def)

lemma snapshot_prefix:
  assumes "i \<in> set (snapshot_ids p)"
  shows "\<exists>c \<in> set ''nads''. i \<in> set (ids_of c p)"
  using assms unfolding snapshot_ids_set by blast

text \<open>
  A restart. The state rebuilt from the last stored message shows the same message, and its counters are past every id in it, so
  it issues no id twice; they may be behind where they were (an id whose item was removed can be issued again), never ahead.
\<close>

theorem copilot_restore:
  assumes "st = fold copilot_do ops new_state"
  shows "cs_snap (from_snapshot (cs_snap st) shown) = cs_snap st \<and> ids_wf (from_snapshot (cs_snap st) shown) \<and>
     cs_next (from_snapshot (cs_snap st) shown) c \<le> cs_next st c \<and>
     distinct (ids_of c (cs_snap (copilot_do op (from_snapshot (cs_snap st) shown))))"
proof -
  let ?r = "from_snapshot (cs_snap st) shown"
  have w: "ids_wf st" using fold_copilot(1) [OF new_state_wf, of ops] assms by simp
  have snap: "cs_snap ?r = cs_snap st" and nx: "cs_next ?r = fold see_id (snapshot_ids (cs_snap st)) (\<lambda>_. 1)"
    by (simp_all add: from_snapshot_def)
  have "\<exists>n < cs_next ?r d. i = id_str d n" if i: "i \<in> set (ids_of d (cs_snap st))" for d i
  proof -
    have d: "d \<in> set ''nads''" using i by (auto simp: ids_of_def split: if_splits)
    obtain n where n: "i = id_str d n" using w i unfolding ids_wf_def by blast
    have "id_str d n \<in> set (snapshot_ids (cs_snap st))" using i n d unfolding snapshot_ids_set by blast
    from fold_see_id_covers [OF this d, of "\<lambda>_. 1"] show ?thesis using n unfolding nx by blast
  qed
  then have wr: "ids_wf ?r" using w unfolding ids_wf_def snap by blast
  have "issues new_state st" unfolding assms by (rule fold_issues [OF copilot_do_issues])
  then have one: "1 \<le> cs_next st c" by (simp add: issues_def new_state_def)
  have "\<forall>i \<in> set (snapshot_ids (cs_snap st)). \<forall>d n. id_parts i = Some (d, n) \<longrightarrow> n < cs_next st d"
  proof (intro ballI allI impI)
    fix i d n assume i: "i \<in> set (snapshot_ids (cs_snap st))" "id_parts i = Some (d, n)"
    obtain e where e: "e \<in> set ''nads''" "i \<in> set (ids_of e (cs_snap st))" using snapshot_prefix [OF i(1)] by blast
    obtain m where m: "m < cs_next st e" "i = id_str e m" using w e(2) unfolding ids_wf_def by blast
    show "n < cs_next st d" using i(2) m id_parts_id_str [OF e(1), of m] by simp
  qed
  then have "cs_next ?r c \<le> cs_next st c" unfolding nx using one by (rule fold_see_id_le)
  moreover have "ids_wf (copilot_do op ?r)" using copilot_do_issues [of ?r op] wr by (simp add: issues_def)
  ultimately show ?thesis using snap wr unfolding ids_wf_def by blast
qed

theorem copilot_restore_witness:
  "ids_wf (from_snapshot (cs_snap (fold copilot_do [Apply demo_delta 0 120] new_state)) {}) \<and>
   cs_next (from_snapshot (cs_snap (fold copilot_do [Apply demo_delta 0 120] new_state)) {}) (CHR ''n'') = 2"
proof -
  have "cs_next (from_snapshot (cs_snap (fold copilot_do [Apply demo_delta 0 120] new_state)) {}) (CHR ''n'') = 2"
    by code_simp
  with copilot_restore [where ops = "[Apply demo_delta 0 120]" and shown = "{}", OF refl] show ?thesis by blast
qed

end
