(* ===== verification/Voice.thy ===== *)
theory Voice
  imports Transcript "HOL-Library.Sublist"
begin

text \<open>
  Spoken requests: \<open>voice/wake.py\<close> (the wake phrase and where a request ends), the choice of lines in
  \<open>voice/ask_pass.py\<close> and \<open>voice/loop.py\<close>, and the loop that works through a session's lines. The
  regular expression \<open>_WAKE\<close> is written out as the matcher it denotes, on characters below 256.
\<close>

section \<open>The wake phrase\<close>

definition starts_word :: "string \<Rightarrow> string \<Rightarrow> bool" where
  "starts_word s w \<longleftrightarrow> startswith (lower s) w"

definition at_boundary :: "string \<Rightarrow> bool" where
  "at_boundary s \<longleftrightarrow> s = [] \<or> \<not> is_word (hd s)"

definition sep_char :: "string \<Rightarrow> char \<Rightarrow> bool" where
  "sep_char extra c \<longleftrightarrow> is_space c \<or> c \<in> set extra"

text \<open>\<open>jarvis\b(?![\s-]*(?:live|voice|app)\b)[\s,.:;!?-]*\<close> at the start of a text: what is left after it.\<close>

definition jarvis_at :: "string \<Rightarrow> string option" where
  "jarvis_at s =
     (let r = drop 6 s; q = dropWhile (sep_char ''-'') r
      in if starts_word s ''jarvis'' \<and> at_boundary r \<and>
            \<not> (\<exists>w \<in> {''live'', ''voice'', ''app''}. starts_word q w \<and> at_boundary (drop (length w) q))
         then Some (dropWhile (sep_char '',.:;!?-'') r) else None)"

text \<open>The three ways a match can begin at a position, in their order; \<open>prev\<close> is the character before it.\<close>

fun greeted :: "string list \<Rightarrow> string \<Rightarrow> string option" where
  "greeted [] s = None"
| "greeted (w # ws) s =
     (let r = drop (length w) s
      in if starts_word s w \<and> r \<noteq> [] \<and> sep_char '','' (hd r)
         then (case jarvis_at (dropWhile (sep_char '','') r) of Some t \<Rightarrow> Some t | None \<Rightarrow> greeted ws s)
         else greeted ws s)"

definition wake_here :: "char option \<Rightarrow> string \<Rightarrow> string option" where
  "wake_here prev s =
     (case (if (case prev of None \<Rightarrow> False | Some c \<Rightarrow> is_word c) then None
            else greeted [''hey'', ''ok'', ''okay'', ''yo''] s) of
        Some t \<Rightarrow> Some t
      | None \<Rightarrow>
         if prev = None \<or> (case prev of None \<Rightarrow> False | Some c \<Rightarrow> c \<in> set ''.!?'') \<and> s \<noteq> [] \<and> is_space (hd s)
         then jarvis_at (dropWhile is_space s) else None)"

fun wake_search :: "char option \<Rightarrow> string \<Rightarrow> string option" where
  "wake_search prev [] = wake_here prev []"
| "wake_search prev (c # cs) = (case wake_here prev (c # cs) of Some t \<Rightarrow> Some t | None \<Rightarrow> wake_search (Some c) cs)"

definition after_wake :: "string \<Rightarrow> string option" where
  "after_wake text = map_option strip (wake_search None text)"

lemma after_wake_examples:
  "after_wake ''Hey, Jarvis: add a task '' = Some ''add a task''"
  "after_wake ''jarvis'' = Some []"
  "after_wake ''Done. Jarvis, next'' = Some ''next''"
  "after_wake ''I like Jarvis'' = None"
  "after_wake ''Jarvis Live is down'' = None"
  "after_wake ''jarvis-app okay jarvis go'' = Some ''go''"
  by code_simp+

section \<open>One request\<close>





section \<open>The loop\<close>










section \<open>Every request is run once\<close>










end
