(* ===== verification/WorkItems.thy ===== *)
theory WorkItems
  imports Transcript Guards "HOL-Library.AList"
begin

text \<open>
  \<open>workitems/state.py\<close>: how the server merges what the ideas pass of the LLM proposes into the work
  items of a session, and the ideas pass around it (\<open>workitems/ideas.py\<close>: its cursor, its window of the
  transcript and when a pass is due). The names of the fields that can be locked or reported as changed
  are a datatype, ordered as the strings are.
\<close>

section \<open>Data\<close>

datatype item_field = Acceptance_criteria | Done_when | Intent | Repo | Sources | Title

fun field_rank :: "item_field \<Rightarrow> nat" where
  "field_rank Acceptance_criteria = 0"
| "field_rank Done_when = 1"
| "field_rank Intent = 2"
| "field_rank Repo = 3"
| "field_rank Sources = 4"
| "field_rank Title = 5"

lemma field_rank_inj: "field_rank a = field_rank b \<Longrightarrow> a = b"
  by (cases a; cases b) simp_all

instantiation item_field :: linorder
begin

definition less_eq_item_field :: "item_field \<Rightarrow> item_field \<Rightarrow> bool" where
  "less_eq_item_field a b \<longleftrightarrow> field_rank a \<le> field_rank b"

definition less_item_field :: "item_field \<Rightarrow> item_field \<Rightarrow> bool" where
  "less_item_field a b \<longleftrightarrow> field_rank a < field_rank b"

instance
  by standard (auto simp: less_eq_item_field_def less_item_field_def field_rank_inj)

end

datatype item_state = Draft | Approved | Discarded | Merged | Done | Other_state string

definition OPEN :: item_state where "OPEN = Draft"
definition CLOSED :: "item_state list" where "CLOSED = [Approved, Discarded, Merged, Done]"
definition MAX_OPEN_ITEMS :: nat where "MAX_OPEN_ITEMS = 20"
definition MAX_CRITERIA :: nat where "MAX_CRITERIA = 8"
definition MAX_SOURCES :: nat where "MAX_SOURCES = 40"
definition MAX_TITLE :: nat where "MAX_TITLE = 120"
definition MAX_INTENT :: nat where "MAX_INTENT = 2000"
definition MAX_CRITERION :: nat where "MAX_CRITERION = 300"
definition MAX_DONE_WHEN :: nat where "MAX_DONE_WHEN = 300"

lemmas work_consts = OPEN_def CLOSED_def MAX_OPEN_ITEMS_def MAX_CRITERIA_def MAX_SOURCES_def MAX_TITLE_def
  MAX_INTENT_def MAX_CRITERION_def MAX_DONE_WHEN_def

record wsource =
  ws_segment :: string
  ws_start :: int
  ws_end :: int
  ws_text :: string

record witem =
  wi_ref :: string
  wi_title :: string
  wi_state :: item_state
  wi_repo :: "string option"
  wi_intent :: string
  wi_criteria :: "string list"
  wi_done_when :: "string option"
  wi_sources :: "wsource list"
  wi_locked :: "item_field list"
  wi_id :: "string option"

record change =
  cg_ref :: string
  cg_created :: bool
  cg_fields :: "item_field list"

record upsert =
  up_ref :: "string option"
  up_title :: string
  up_repo :: "string option"
  up_intent :: string
  up_criteria :: "string list"
  up_done_when :: "string option"
  up_source_lines :: "string list"

section \<open>Text\<close>

definition norm_title :: "string \<Rightarrow> string" where
  "norm_title text = join '' '' (split_ws (non_word_to_space (lower text)))"

definition text_or_empty :: "string option \<Rightarrow> string" where
  "text_or_empty s = (case s of None \<Rightarrow> [] | Some t \<Rightarrow> t)"

definition clip :: "string option \<Rightarrow> nat \<Rightarrow> string" where
  "clip text n = rstrip (take n (squeeze (text_or_empty text)))"

text \<open>\<open>text.split("\n\n")\<close>.\<close>

fun split_paras :: "string \<Rightarrow> string list" where
  "split_paras [] = [[]]"
| "split_paras [c] = [[c]]"
| "split_paras (c # d # cs) =
     (if c = newline \<and> d = newline then [] # split_paras cs
      else case split_paras (d # cs) of [] \<Rightarrow> [[c]] | w # ws \<Rightarrow> (c # w) # ws)"

definition clip_block :: "string option \<Rightarrow> nat \<Rightarrow> string" where
  "clip_block text n =
     rstrip (take n (join [newline, newline] (filter (\<lambda>p. p \<noteq> []) (map squeeze (split_paras (text_or_empty text))))))"

fun criteria_loop :: "string list \<Rightarrow> string list \<Rightarrow> string list \<Rightarrow> string list" where
  "criteria_loop out seen [] = out"
| "criteria_loop out seen (c # cs) =
     (let c = strip (lstrip_of ''-*[] '' (clip (Some c) MAX_CRITERION)) in
      if c \<noteq> [] \<and> norm_title c \<notin> set seen then criteria_loop (out @ [c]) (norm_title c # seen) cs
      else criteria_loop out seen cs)"

definition clean_criteria :: "string list \<Rightarrow> string list" where
  "clean_criteria items = take MAX_CRITERIA (criteria_loop [] [] items)"

section \<open>References\<close>

definition source_of :: "tline \<Rightarrow> wsource" where
  "source_of x = \<lparr>ws_segment = (case ln_segment x of None \<Rightarrow> ''None'' | Some s \<Rightarrow> s), ws_start = ln_start x,
     ws_end = ln_end x, ws_text = ln_text x\<rparr>"

definition line_ref :: "nat \<Rightarrow> string" where
  "line_ref i = CHR ''L'' # dec_str i"

definition numbered :: "nat \<times> tline \<Rightarrow> string" where
  "numbered p = line_ref (fst p) @ '' '' @ render_line (snd p)"

definition number_lines :: "tline list \<Rightarrow> string \<times> (string \<Rightarrow> wsource option)" where
  "number_lines lines =
     (let ps = zip [1..<length lines + 1] lines
      in (join [newline] (map numbered ps), map_of (map (\<lambda>(i, x). (line_ref i, source_of x)) ps)))"

text \<open>The groups of \<open>_REF\<close> (with \<open>$\<close> also matching before a last newline) and \<open>_LINE\<close>.\<close>

definition ref_number :: "string \<Rightarrow> nat option" where
  "ref_number r = (case r of [] \<Rightarrow> None
     | c # ds \<Rightarrow>
        (let n = takeWhile is_digit ds; rest = dropWhile is_digit ds
         in if c = CHR ''w'' \<and> n \<noteq> [] \<and> rest \<in> {[], [newline]} then Some (dec_val n) else None))"

definition line_number :: "string \<Rightarrow> nat option" where
  "line_number r =
     (let s = dropWhile is_space r;
          t = dropWhile is_space (case s of c # cs \<Rightarrow> if c \<in> set ''lL'' then cs else s | [] \<Rightarrow> s);
          n = takeWhile is_digit t; rest = dropWhile is_digit t
      in if n \<noteq> [] \<and> (\<forall>c \<in> set rest. is_space c) then Some (dec_val n) else None)"

definition line_key :: "string \<Rightarrow> string" where
  "line_key ref = (case line_number ref of Some n \<Rightarrow> line_ref n | None \<Rightarrow> ref)"

definition next_ref :: "witem list \<Rightarrow> string" where
  "next_ref items =
     CHR ''w'' # dec_str (fold (\<lambda>it m. case ref_number (wi_ref it) of None \<Rightarrow> m | Some n \<Rightarrow> max m n) items 0 + 1)"

section \<open>Updating an item\<close>

definition allowed_repo :: "string list \<Rightarrow> string option \<Rightarrow> string option" where
  "allowed_repo allow repo = (let r = strip (text_or_empty repo) in if r \<in> set allow then Some r else None)"

type_synonym update = "witem \<times> item_field list"

definition put_field :: "item_field \<Rightarrow> bool \<Rightarrow> (witem \<Rightarrow> bool) \<Rightarrow> (witem \<Rightarrow> witem) \<Rightarrow> update \<Rightarrow> update" where
  "put_field name given same change u =
     (if \<not> given \<or> name \<in> set (wi_locked (fst u)) \<or> same (fst u) then u else (change (fst u), snd u @ [name]))"

definition put_texts :: "string list \<Rightarrow> upsert \<Rightarrow> update \<Rightarrow> update" where
  "put_texts allow up u =
     (let title = clip (Some (up_title up)) MAX_TITLE;
          repo = allowed_repo allow (up_repo up);
          intent = clip_block (Some (up_intent up)) MAX_INTENT;
          criteria = clean_criteria (up_criteria up);
          done_when = clip (up_done_when up) MAX_DONE_WHEN
      in put_field Done_when (done_when \<noteq> []) (\<lambda>i. wi_done_when i = Some done_when) (\<lambda>i. i\<lparr>wi_done_when := Some done_when\<rparr>)
         (put_field Acceptance_criteria (criteria \<noteq> []) (\<lambda>i. wi_criteria i = criteria) (\<lambda>i. i\<lparr>wi_criteria := criteria\<rparr>)
         (put_field Intent (intent \<noteq> []) (\<lambda>i. wi_intent i = intent) (\<lambda>i. i\<lparr>wi_intent := intent\<rparr>)
         (put_field Repo (repo \<noteq> None) (\<lambda>i. wi_repo i = repo) (\<lambda>i. i\<lparr>wi_repo := repo\<rparr>)
         (put_field Title (title \<noteq> []) (\<lambda>i. wi_title i = title) (\<lambda>i. i\<lparr>wi_title := title\<rparr>) u)))))"

definition new_sources :: "wsource list \<Rightarrow> wsource list \<Rightarrow> wsource list" where
  "new_sources old srcs =
     map snd (fold (\<lambda>s. AList.update (ws_segment s) s) (filter (\<lambda>s. ws_segment s \<notin> ws_segment ` set old) srcs) [])"

definition merge_sources :: "wsource list \<Rightarrow> update \<Rightarrow> update" where
  "merge_sources srcs u =
     (let old = wi_sources (fst u); new = new_sources old srcs;
          merged = take MAX_SOURCES (sort_key (\<lambda>s. (ws_start s, ws_end s)) (old @ new))
      in if new = [] then u
         else ((fst u)\<lparr>wi_sources := merged\<rparr>,
               if length merged \<noteq> card (set (map ws_segment old)) then snd u @ [Sources] else snd u))"

definition update_item :: "string list \<Rightarrow> witem \<Rightarrow> upsert \<Rightarrow> wsource list \<Rightarrow> bool \<Rightarrow> update" where
  "update_item allow it up srcs creating =
     (let u = merge_sources srcs (put_texts allow up (it, []))
      in if creating \<and> Title \<notin> set (snd u) then (fst u, Title # snd u) else u)"

section \<open>The merge\<close>

definition find_ref :: "witem list \<Rightarrow> string \<Rightarrow> witem option" where
  "find_ref items r = find (\<lambda>it. wi_ref it = r) items"

definition match_open :: "witem list \<Rightarrow> string \<Rightarrow> witem option" where
  "match_open items title = find (\<lambda>it. wi_state it = OPEN \<and> norm_title (wi_title it) = norm_title title) items"

definition open_count :: "witem list \<Rightarrow> nat" where
  "open_count items = length (filter (\<lambda>it. wi_state it = OPEN) items)"

definition may_create :: "witem list \<Rightarrow> string \<Rightarrow> bool" where
  "may_create items title \<longleftrightarrow>
     (let key = norm_title title in
      key \<noteq> [] \<and> \<not> (\<exists>it \<in> set items. wi_state it \<in> set CLOSED \<and> norm_title (wi_title it) = key) \<and>
      open_count items < MAX_OPEN_ITEMS)"

definition put_item :: "witem \<Rightarrow> witem list \<Rightarrow> witem list" where
  "put_item it items = map (\<lambda>x. if wi_ref x = wi_ref it then it else x) items"

definition new_item :: "witem list \<Rightarrow> string \<Rightarrow> witem" where
  "new_item items title = \<lparr>wi_ref = next_ref items, wi_title = clip (Some title) MAX_TITLE, wi_state = OPEN, wi_repo = None,
     wi_intent = [], wi_criteria = [], wi_done_when = None, wi_sources = [], wi_locked = [], wi_id = None\<rparr>"

fun record_change :: "string \<Rightarrow> item_field list \<Rightarrow> change list \<Rightarrow> change list" where
  "record_change r fs [] = [\<lparr>cg_ref = r, cg_created = False, cg_fields = fs\<rparr>]"
| "record_change r fs (c # cs) =
     (if cg_ref c = r then c\<lparr>cg_fields := sorted_list_of_set (set (cg_fields c) \<union> set fs)\<rparr> # cs
      else c # record_change r fs cs)"

definition cited :: "(string \<Rightarrow> wsource option) \<Rightarrow> upsert \<Rightarrow> wsource list" where
  "cited line_refs up = List.map_filter (\<lambda>r. line_refs (line_key r)) (up_source_lines up)"

definition apply_upsert ::
  "string list \<Rightarrow> (string \<Rightarrow> wsource option) \<Rightarrow> upsert \<Rightarrow> witem list \<times> change list \<Rightarrow> witem list \<times> change list" where
  "apply_upsert allow line_refs up st =
     (let items = fst st; changes = snd st; srcs = cited line_refs up
      in case (case find_ref items (text_or_empty (up_ref up)) of Some it \<Rightarrow> Some it | None \<Rightarrow> match_open items (up_title up)) of
         None \<Rightarrow>
           if srcs = [] \<or> \<not> may_create items (up_title up) then st
           else (let u = update_item allow (new_item items (up_title up)) up srcs True
                 in (items @ [fst u], changes @ [\<lparr>cg_ref = wi_ref (fst u), cg_created = True, cg_fields = snd u\<rparr>]))
       | Some it \<Rightarrow>
           if wi_state it \<noteq> OPEN then st
           else (let u = update_item allow it up srcs False
                 in (put_item (fst u) items, if snd u = [] then changes else record_change (wi_ref it) (snd u) changes)))"

definition ideas_apply ::
  "string list \<Rightarrow> witem list \<Rightarrow> upsert list \<Rightarrow> (string \<Rightarrow> wsource option) \<Rightarrow> witem list \<times> change list" where
  "ideas_apply allow items delta line_refs = fold (apply_upsert allow line_refs) delta (items, [])"

section \<open>What an update may touch\<close>

definition field_same :: "item_field \<Rightarrow> witem \<Rightarrow> witem \<Rightarrow> bool" where
  "field_same f a b = (case f of Title \<Rightarrow> wi_title a = wi_title b | Repo \<Rightarrow> wi_repo a = wi_repo b
     | Intent \<Rightarrow> wi_intent a = wi_intent b | Acceptance_criteria \<Rightarrow> wi_criteria a = wi_criteria b
     | Done_when \<Rightarrow> wi_done_when a = wi_done_when b | Sources \<Rightarrow> True)"

text \<open>What the owner relies on: identity and state stay, locked fields stay, closed items stay as they are.\<close>

definition owner_ok :: "string list \<Rightarrow> witem \<Rightarrow> witem \<Rightarrow> bool" where
  "owner_ok allow a b \<longleftrightarrow> wi_ref b = wi_ref a \<and> wi_state b = wi_state a \<and> wi_id b = wi_id a \<and> wi_locked b = wi_locked a \<and>
     (\<forall>f \<in> set (wi_locked a). field_same f a b) \<and> (wi_state a \<noteq> OPEN \<longrightarrow> b = a) \<and>
     (wi_repo b = wi_repo a \<or> wi_repo b \<in> Some ` set allow)"

lemma owner_ok_refl: "owner_ok allow a a"
  by (auto simp: owner_ok_def field_same_def split: item_field.splits)

lemma field_same_trans: "field_same f a b \<Longrightarrow> field_same f b c \<Longrightarrow> field_same f a c"
  by (cases f) (simp_all add: field_same_def)

lemma owner_ok_trans:
  assumes "owner_ok allow a b" "owner_ok allow b c"
  shows "owner_ok allow a c"
proof -
  have "field_same f a c" if "f \<in> set (wi_locked a)" for f
    using field_same_trans [of f a b c] assms that by (simp add: owner_ok_def)
  moreover have "wi_repo c = wi_repo a \<or> wi_repo c \<in> Some ` set allow"
    using assms by (auto simp: owner_ok_def)
  moreover have "wi_state a \<noteq> OPEN \<longrightarrow> c = a" using assms by (simp add: owner_ok_def)
  ultimately show ?thesis using assms by (simp add: owner_ok_def)
qed

definition well_sourced :: "wsource set \<Rightarrow> witem \<Rightarrow> bool" where
  "well_sourced S it \<longleftrightarrow> wi_sources it \<noteq> [] \<and> set (wi_sources it) \<subseteq> S \<and> length (wi_sources it) \<le> MAX_SOURCES \<and>
     wi_title it \<noteq> [] \<and> wi_state it = OPEN"

text \<open>A put of one field: what the item and the report are afterwards.\<close>

definition put_inv :: "string list \<Rightarrow> witem \<Rightarrow> update \<Rightarrow> bool" where
  "put_inv allow it u \<longleftrightarrow> owner_ok allow it (fst u) \<and> wi_sources (fst u) = wi_sources it \<and>
     (wi_title it \<noteq> [] \<longrightarrow> wi_title (fst u) \<noteq> []) \<and> Sources \<notin> set (snd u)"

lemma put_field_inv:
  assumes "put_inv allow it u" "wi_state it = OPEN" "name \<noteq> Sources"
    "given \<Longrightarrow> \<forall>i. wi_ref (change i) = wi_ref i \<and> wi_state (change i) = wi_state i \<and> wi_id (change i) = wi_id i \<and>
       wi_locked (change i) = wi_locked i \<and> wi_sources (change i) = wi_sources i \<and>
       (\<forall>f. f \<noteq> name \<longrightarrow> field_same f i (change i)) \<and> (wi_title i \<noteq> [] \<longrightarrow> wi_title (change i) \<noteq> []) \<and>
       (wi_repo (change i) = wi_repo i \<or> wi_repo (change i) \<in> Some ` set allow)"
  shows "put_inv allow it (put_field name given same change u)"
proof (cases "\<not> given \<or> name \<in> set (wi_locked (fst u)) \<or> same (fst u)")
  case False
  note c = assms(4) [rule_format, of "fst u"]
  have "owner_ok allow (fst u) (change (fst u))"
    unfolding owner_ok_def using c False assms(1,2) by (auto simp: put_inv_def owner_ok_def)
  then have "owner_ok allow it (change (fst u))"
    using assms(1) owner_ok_trans unfolding put_inv_def by blast
  then show ?thesis using c False assms(1,3) by (auto simp: put_field_def put_inv_def)
qed (use assms(1) in \<open>auto simp: put_field_def\<close>)

lemma put_texts_inv:
  assumes "wi_state it = OPEN"
  shows "put_inv allow it (put_texts allow up (it, []))"
proof -
  have "allowed_repo allow r \<noteq> None \<Longrightarrow> allowed_repo allow r \<in> Some ` set allow" for r
    by (auto simp: allowed_repo_def Let_def split: if_splits)
  moreover have "put_inv allow it (it, [])" by (simp add: put_inv_def owner_ok_refl)
  ultimately show ?thesis
    unfolding put_texts_def Let_def
    by (intro put_field_inv [OF _ assms]) (auto simp: field_same_def split: item_field.splits)
qed

lemma set_AList_update: "set (map snd (AList.update k v al)) \<subseteq> insert v (set (map snd al))"
  by (induction al) auto

lemma new_sources_sub: "set (new_sources old srcs) \<subseteq> set srcs"
proof -
  have "set (map snd (fold (\<lambda>s. AList.update (ws_segment s) s) xs al)) \<subseteq> set xs \<union> set (map snd al)" for xs al
  proof (induction xs arbitrary: al)
    case (Cons x xs)
    then have "set (map snd (fold (\<lambda>s. AList.update (ws_segment s) s) xs (AList.update (ws_segment x) x al)))
        \<subseteq> set xs \<union> set (map snd (AList.update (ws_segment x) x al))" by blast
    then show ?case using set_AList_update [of "ws_segment x" x al] by auto
  qed simp
  from this [of "filter (\<lambda>s. ws_segment s \<notin> ws_segment ` set old) srcs" "[]"] show ?thesis
    by (auto simp: new_sources_def)
qed

lemma new_sources_ne:
  assumes "srcs \<noteq> []" "old = []"
  shows "new_sources old srcs \<noteq> []"
proof -
  have "al \<noteq> [] \<or> xs \<noteq> [] \<Longrightarrow> fold (\<lambda>s. AList.update (ws_segment s) s) xs al \<noteq> []" for xs and al :: "(string \<times> wsource) list"
  proof (induction xs arbitrary: al)
    case (Cons x xs)
    have "AList.update (ws_segment x) x al \<noteq> []" by (cases al) auto
    with Cons.IH show ?case by simp
  qed simp
  with assms show ?thesis by (simp add: new_sources_def)
qed

lemma update_item_spec:
  assumes "wi_state it = OPEN"
  shows "owner_ok allow it (fst (update_item allow it up srcs cr))"
    and "set (wi_sources (fst (update_item allow it up srcs cr))) \<subseteq> set (wi_sources it) \<union> set srcs"
    and "length (wi_sources it) \<le> MAX_SOURCES \<Longrightarrow> length (wi_sources (fst (update_item allow it up srcs cr))) \<le> MAX_SOURCES"
    and "wi_title it \<noteq> [] \<Longrightarrow> wi_title (fst (update_item allow it up srcs cr)) \<noteq> []"
    and "wi_sources it \<noteq> [] \<or> srcs \<noteq> [] \<Longrightarrow> wi_sources (fst (update_item allow it up srcs cr)) \<noteq> []"
proof -
  obtain it1 ch where t: "put_texts allow up (it, []) = (it1, ch)" by fastforce
  have p: "owner_ok allow it it1" "wi_sources it1 = wi_sources it" "wi_title it \<noteq> [] \<Longrightarrow> wi_title it1 \<noteq> []"
    using put_texts_inv [OF assms, of allow up] by (auto simp: put_inv_def t)
  define new where "new = new_sources (wi_sources it) srcs"
  define merged where "merged = take MAX_SOURCES (sort_key (\<lambda>s. (ws_start s, ws_end s)) (wi_sources it @ new))"
  have fs: "fst (update_item allow it up srcs cr) = (if new = [] then it1 else it1\<lparr>wi_sources := merged\<rparr>)"
    by (simp add: update_item_def merge_sources_def Let_def t p(2) new_def merged_def)
  have "owner_ok allow it1 (it1\<lparr>wi_sources := merged\<rparr>)"
    using p(1) assms by (auto simp: owner_ok_def field_same_def split: item_field.splits)
  with p(1) show "owner_ok allow it (fst (update_item allow it up srcs cr))"
    using fs owner_ok_trans by auto
  have "set merged \<subseteq> set (wi_sources it) \<union> set new" by (auto simp: merged_def dest!: in_set_takeD)
  then show "set (wi_sources (fst (update_item allow it up srcs cr))) \<subseteq> set (wi_sources it) \<union> set srcs"
    using new_sources_sub [of "wi_sources it" srcs] by (auto simp: fs p(2) new_def)
  show "length (wi_sources it) \<le> MAX_SOURCES \<Longrightarrow> length (wi_sources (fst (update_item allow it up srcs cr))) \<le> MAX_SOURCES"
    by (simp add: fs p(2) merged_def)
  show "wi_title it \<noteq> [] \<Longrightarrow> wi_title (fst (update_item allow it up srcs cr)) \<noteq> []" using p(3) by (simp add: fs)
  have "new \<noteq> [] \<Longrightarrow> merged \<noteq> []"
    unfolding merged_def MAX_SOURCES_def by (metis append_is_Nil_conv length_0_conv length_sort take_eq_Nil zero_neq_numeral)
  then show "wi_sources it \<noteq> [] \<or> srcs \<noteq> [] \<Longrightarrow> wi_sources (fst (update_item allow it up srcs cr)) \<noteq> []"
    using new_sources_ne [of srcs "wi_sources it"] by (auto simp: fs p(2) new_def)
qed

section \<open>References and titles\<close>

lemma ref_number_dec: "ref_number (CHR ''w'' # dec_str n) = Some n"
proof -
  have "\<forall>c \<in> set (dec_str n). is_digit c" using dec_str_digits by blast
  then have tw: "takeWhile is_digit (dec_str n) = dec_str n" "dropWhile is_digit (dec_str n) = []"
    unfolding takeWhile_eq_all_conv dropWhile_eq_Nil_conv by assumption+
  show ?thesis unfolding ref_number_def list.case Let_def tw by simp
qed

lemma next_ref_fresh: "next_ref items \<notin> wi_ref ` set items"
proof -
  define M where "M = fold (\<lambda>it m. case ref_number (wi_ref it) of None \<Rightarrow> m | Some n \<Rightarrow> max m n) items 0"
  have ge: "m \<le> fold (\<lambda>it m. case ref_number (wi_ref it) of None \<Rightarrow> m | Some n \<Rightarrow> max m n) xs m" for m xs
    by (induction xs arbitrary: m) (auto split: option.split intro: le_trans [OF max.cobounded1])
  have "n \<le> fold (\<lambda>it m. case ref_number (wi_ref it) of None \<Rightarrow> m | Some n \<Rightarrow> max m n) xs m"
    if "it \<in> set xs" "ref_number (wi_ref it) = Some n" for it n m xs
    using that
  proof (induction xs arbitrary: m)
    case (Cons x xs)
    then show ?case using le_trans [OF max.cobounded2 ge] by auto
  qed simp
  then have le: "n \<le> M" if "it \<in> set items" "ref_number (wi_ref it) = Some n" for it n
    using that by (simp add: M_def)
  have "ref_number (next_ref items) = Some (M + 1)"
    unfolding next_ref_def M_def [symmetric] by (rule ref_number_dec)
  then show ?thesis using le by fastforce
qed

lemma split_ws_Nil_iff: "split_ws s = [] \<longleftrightarrow> (\<forall>c \<in> set s. is_space c)"
proof -
  have "split_ws s = [] \<longleftrightarrow> dropWhile is_space s = []"
    by (subst split_ws.simps) (cases "dropWhile is_space s"; simp only: list.case list.distinct simp_thms)
  then show ?thesis unfolding dropWhile_eq_Nil_conv .
qed

lemma clip_ne:
  assumes "norm_title t \<noteq> []" "0 < n"
  shows "clip (Some t) n \<noteq> []"
proof -
  have "split_ws (non_word_to_space (lower t)) \<noteq> []" using assms(1) by (auto simp: norm_title_def)
  then obtain c where c: "c \<in> set t" "\<not> is_space c"
    by (auto simp: split_ws_Nil_iff non_word_to_space_def lower_def lower_char_space split: if_splits)
  then have "split_ws t \<noteq> []" by (auto simp: split_ws_Nil_iff)
  then obtain w ws where w: "split_ws t = w # ws" by (cases "split_ws t") auto
  then have "is_token w" using split_ws_token [of w t] by simp
  then obtain d w' where d: "w = d # w'" "\<not> is_space d" by (cases w) (auto simp: is_token_def)
  obtain r where "squeeze t = d # r" using w d by (cases ws) (auto simp: squeeze_def)
  moreover obtain m where "n = Suc m" using assms(2) by (cases n) auto
  ultimately have "take n (squeeze t) = d # take m r" by simp
  then show ?thesis using d(2) by (simp add: clip_def text_or_empty_def rstrip_def dropWhile_eq_Nil_conv)
qed

section \<open>The merge as a whole\<close>

definition merge_inv :: "string list \<Rightarrow> wsource set \<Rightarrow> witem list \<Rightarrow> witem list \<Rightarrow> bool" where
  "merge_inv allow S items0 items \<longleftrightarrow> distinct (map wi_ref items) \<and> length items0 \<le> length items \<and>
     list_all2 (owner_ok allow) items0 (take (length items0) items) \<and>
     (\<forall>it \<in> set (drop (length items0) items). well_sourced S it) \<and>
     open_count items \<le> max (open_count items0) MAX_OPEN_ITEMS"

lemma cited_sub: "set (cited line_refs up) \<subseteq> ran line_refs"
  by (auto simp: cited_def List.map_filter_def ran_def)

lemma find_in: "find P xs = Some x \<Longrightarrow> x \<in> set xs \<and> P x"
  by (auto simp: find_Some_iff)

lemma put_item_inv:
  assumes "merge_inv allow S items0 items" "it \<in> set items" "wi_state it = OPEN" "set srcs \<subseteq> S"
  shows "merge_inv allow S items0 (put_item (fst (update_item allow it up srcs False)) items)"
proof -
  define u where "u = fst (update_item allow it up srcs False)"
  define g where "g = (\<lambda>x. if wi_ref x = wi_ref u then u else x)"
  note sp = update_item_spec [where allow = allow and up = up and srcs = srcs and cr = False, OF assms(3), folded u_def]
  have ref: "wi_ref u = wi_ref it" "wi_state u = wi_state it" using sp(1) by (simp_all add: owner_ok_def)
  have only: "x = it" if "x \<in> set items" "wi_ref x = wi_ref it" for x
    using assms(1,2) that by (auto simp: merge_inv_def distinct_map inj_on_def)
  have g: "owner_ok allow x (g x)" "wi_ref (g x) = wi_ref x" "wi_state (g x) = wi_state x" if "x \<in> set items" for x
    using only [OF that] sp(1) ref owner_ok_refl by (auto simp: g_def)
  have ws: "well_sourced S (g x)" if "x \<in> set items" "well_sourced S x" for x
    using only [OF that(1)] that(2) sp(2-5) ref assms(3,4) by (auto simp: g_def well_sourced_def)
  have "map wi_ref (map g items) = map wi_ref items" using g(2) by simp
  moreover have "open_count (map g items) = open_count items"
    using g(3) by (simp add: open_count_def filter_map o_def cong: filter_cong)
  moreover have "list_all2 (owner_ok allow) items0 (map g (take (length items0) items))"
  proof -
    define its where "its = take (length items0) items"
    have l: "list_all2 (owner_ok allow) items0 its" using assms(1) by (simp add: merge_inv_def its_def)
    have gi: "owner_ok allow x (g x)" if "x \<in> set its" for x
      using g(1) that unfolding its_def by (blast dest: in_set_takeD)
    show ?thesis unfolding its_def [symmetric]
    proof (rule list_all2_all_nthI)
      fix i assume "i < length items0"
      with l have "owner_ok allow (items0 ! i) (its ! i)" "i < length its"
        by (simp_all add: list_all2_conv_all_nth)
      with gi [of "its ! i"] show "owner_ok allow (items0 ! i) (map g its ! i)"
        by (simp add: owner_ok_trans)
    qed (use l in \<open>simp add: list_all2_lengthD\<close>)
  qed
  moreover have "\<forall>x \<in> set (map g (drop (length items0) items)). well_sourced S x"
    using assms(1) ws by (auto simp: merge_inv_def dest: in_set_dropD)
  moreover have "put_item u items = map g items" by (simp add: put_item_def g_def)
  ultimately show ?thesis using assms(1) by (simp add: merge_inv_def u_def take_map drop_map del: map_map)
qed

lemma new_item_inv:
  assumes "merge_inv allow S items0 items" "set srcs \<subseteq> S" "srcs \<noteq> []" "may_create items (up_title up)"
  shows "merge_inv allow S items0 (items @ [fst (update_item allow (new_item items (up_title up)) up srcs True)])"
proof -
  define n where "n = new_item items (up_title up)"
  have n: "wi_state n = OPEN" "wi_sources n = []" "wi_ref n = next_ref items" by (simp_all add: n_def new_item_def)
  have t: "wi_title n \<noteq> []"
    using assms(4) clip_ne [of "up_title up" MAX_TITLE]
    by (auto simp: n_def new_item_def may_create_def Let_def MAX_TITLE_def)
  define u where "u = fst (update_item allow n up srcs True)"
  note sp = update_item_spec [where allow = allow and up = up and srcs = srcs and cr = True, OF n(1), folded u_def]
  have u: "wi_state u = OPEN" "wi_ref u = next_ref items" using sp(1) n by (simp_all add: owner_ok_def)
  have "well_sourced S u" using sp n t assms(2,3) u by (auto simp: well_sourced_def)
  moreover have "open_count (items @ [u]) \<le> MAX_OPEN_ITEMS"
    using assms(4) u by (simp add: open_count_def may_create_def Let_def)
  ultimately show ?thesis
    using assms(1) next_ref_fresh [of items] u by (auto simp: merge_inv_def simp flip: n_def u_def)
qed

lemma apply_upsert_inv:
  assumes "merge_inv allow (ran line_refs) items0 (fst st)"
  shows "merge_inv allow (ran line_refs) items0 (fst (apply_upsert allow line_refs up st))"
proof -
  define items where "items = fst st"
  define target where "target = (case find_ref items (text_or_empty (up_ref up)) of Some it \<Rightarrow> Some it | None \<Rightarrow> match_open items (up_title up))"
  have tgt: "it \<in> set items" if "target = Some it" for it
    using that find_in by (fastforce simp: target_def find_ref_def match_open_def split: option.splits)
  have new: "merge_inv allow (ran line_refs) items0 (items @ [fst (update_item allow (new_item items (up_title up)) up (cited line_refs up) True)])"
    if "cited line_refs up \<noteq> []" "may_create items (up_title up)"
    by (rule new_item_inv [OF assms [folded items_def] cited_sub that])
  have upd: "merge_inv allow (ran line_refs) items0 (put_item (fst (update_item allow it up (cited line_refs up) False)) items)"
    if "target = Some it" "wi_state it = OPEN" for it
    by (rule put_item_inv [OF assms [folded items_def] tgt [OF that(1)] that(2) cited_sub])
  show ?thesis
    using assms new upd
    by (auto simp: apply_upsert_def Let_def simp flip: items_def target_def split: option.split)
qed

lemma ideas_apply_inv:
  assumes "distinct (map wi_ref items)"
  shows "merge_inv allow (ran line_refs) items (fst (ideas_apply allow items delta line_refs))"
proof -
  have "merge_inv allow (ran line_refs) items (fst (fold (apply_upsert allow line_refs) delta st))"
    if "merge_inv allow (ran line_refs) items (fst st)" for st
    using that apply_upsert_inv by (induction delta arbitrary: st) auto
  moreover have "merge_inv allow (ran line_refs) items items"
    using assms owner_ok_refl by (simp add: merge_inv_def list_all2_refl)
  ultimately show ?thesis by (simp add: ideas_apply_def)
qed

text \<open>
  C20: the owner's word stands. Whatever the model proposes, every item that existed keeps its
  reference, state and locked fields, an item that is not an open draft is not touched at all, and
  a repository is only ever set to one of the allowlist.
\<close>

theorem ideas_respect_owner:
  assumes "distinct (map wi_ref items)" "ideas_apply allow items delta line_refs = (items', changes)"
  shows "list_all2 (owner_ok allow) items (take (length items) items')"
  using ideas_apply_inv [OF assms(1), of allow line_refs delta] assms(2) by (simp add: merge_inv_def)

text \<open>
  C31: the review queue stays grounded and bounded. Every item the merge adds has a title and
  between one and 40 sources, each a cited line of the transcript; references stay unique;
  and there are never more than 20 open drafts, unless there already were.
\<close>

theorem ideas_grounded_bounded:
  assumes "distinct (map wi_ref items)" "ideas_apply allow items delta line_refs = (items', changes)"
  shows "distinct (map wi_ref items') \<and> open_count items' \<le> max (open_count items) MAX_OPEN_ITEMS \<and>
     (\<forall>it \<in> set (drop (length items) items'). wi_title it \<noteq> [] \<and> wi_sources it \<noteq> [] \<and>
        set (wi_sources it) \<subseteq> ran line_refs \<and> length (wi_sources it) \<le> MAX_SOURCES)"
  using ideas_apply_inv [OF assms(1), of allow line_refs delta] assms(2)
  by (auto simp: merge_inv_def well_sourced_def)

definition demo_item :: witem where
  "demo_item = \<lparr>wi_ref = ''w3'', wi_title = ''Old title'', wi_state = OPEN, wi_repo = None, wi_intent = [], wi_criteria = [],
     wi_done_when = None, wi_sources = [], wi_locked = [Title], wi_id = Some ''x''\<rparr>"

definition demo_upsert :: "string option \<Rightarrow> upsert" where
  "demo_upsert r = \<lparr>up_ref = r, up_title = ''New  title'', up_repo = Some ''evil'', up_intent = ''why'', up_criteria = [''- done''],
     up_done_when = None, up_source_lines = ['' l01 '']\<rparr>"

definition demo_refs :: "string \<Rightarrow> wsource option" where
  "demo_refs = snd (number_lines [demo_line 0 1000 ''do it''])"

lemma demo_ideas:
  "ideas_apply [''repo''] [demo_item] [demo_upsert (Some ''w3''), demo_upsert None] demo_refs =
     ([demo_item\<lparr>wi_intent := ''why'', wi_criteria := [''done''],
         wi_sources := [\<lparr>ws_segment = ''None'', ws_start = 0, ws_end = 1000, ws_text = ''do it''\<rparr>]\<rparr>,
       \<lparr>wi_ref = ''w4'', wi_title = ''New title'', wi_state = OPEN, wi_repo = None, wi_intent = ''why'', wi_criteria = [''done''],
         wi_done_when = None, wi_sources = [\<lparr>ws_segment = ''None'', ws_start = 0, ws_end = 1000, ws_text = ''do it''\<rparr>],
         wi_locked = [], wi_id = None\<rparr>],
      [\<lparr>cg_ref = ''w3'', cg_created = False, cg_fields = [Intent, Acceptance_criteria, Sources]\<rparr>,
       \<lparr>cg_ref = ''w4'', cg_created = True, cg_fields = [Title, Intent, Acceptance_criteria, Sources]\<rparr>])"
  by code_simp

theorem ideas_respect_owner_witness:
  "\<exists>it items changes. ideas_apply [''repo''] [demo_item] [demo_upsert (Some ''w3''), demo_upsert None] demo_refs = (items, changes) \<and>
     take 1 items = [it] \<and> owner_ok [''repo''] demo_item it \<and> wi_title it = ''Old title''"
proof -
  have "distinct (map wi_ref [demo_item])" by simp
  from ideas_respect_owner [OF this demo_ideas] show ?thesis
    unfolding demo_ideas by (simp add: demo_item_def)
qed

theorem ideas_grounded_bounded_witness:
  "\<exists>items changes. ideas_apply [''repo''] [demo_item] [demo_upsert (Some ''w3''), demo_upsert None] demo_refs = (items, changes) \<and>
     map wi_ref items = [''w3'', ''w4''] \<and> distinct (map wi_ref items) \<and> open_count items \<le> 20"
proof -
  have "distinct (map wi_ref [demo_item])" by simp
  from ideas_grounded_bounded [OF this demo_ideas] show ?thesis
    unfolding demo_ideas by (simp add: demo_item_def MAX_OPEN_ITEMS_def open_count_def)
qed

section \<open>Storing what was decided\<close>

text \<open>
  A stored item is the item with its version; \<open>store_changes\<close> writes the fields \<open>write_item\<close> names.
  \<open>new_id\<close> is the generator of the ids of new rows.
\<close>

record work_row =
  wr_item :: witem
  wr_version :: int

record work_event =
  we_ref :: string
  we_event :: string
  we_fields :: "item_field list"

definition write_item :: "witem \<Rightarrow> witem \<Rightarrow> witem" where
  "write_item row it = row\<lparr>wi_title := wi_title it, wi_repo := wi_repo it, wi_intent := wi_intent it,
     wi_criteria := wi_criteria it, wi_done_when := wi_done_when it, wi_sources := wi_sources it\<rparr>"

definition store_change ::
  "(string \<Rightarrow> string) \<Rightarrow> string set \<Rightarrow> witem list \<Rightarrow> change \<Rightarrow> work_row list \<times> work_event list \<Rightarrow> work_row list \<times> work_event list" where
  "store_change new_id by_ref items ch st =
     (case find_ref items (cg_ref ch) of None \<Rightarrow> st
      | Some it \<Rightarrow>
         if cg_ref ch \<in> by_ref
         then (map (\<lambda>r. if wi_ref (wr_item r) = cg_ref ch
                        then r\<lparr>wr_item := write_item (wr_item r) it, wr_version := wr_version r + 1\<rparr> else r) (fst st),
               snd st @ [\<lparr>we_ref = cg_ref ch, we_event = ''llm_updated'', we_fields = cg_fields ch\<rparr>])
         else (fst st @ [\<lparr>wr_item = write_item ((new_item [] [])\<lparr>wi_ref := cg_ref ch, wi_id := Some (new_id (cg_ref ch))\<rparr>) it,
                          wr_version = 1\<rparr>],
               snd st @ [\<lparr>we_ref = cg_ref ch, we_event = ''proposed'', we_fields = []\<rparr>]))"

definition store_changes ::
  "(string \<Rightarrow> string) \<Rightarrow> work_row list \<Rightarrow> witem list \<Rightarrow> change list \<Rightarrow> work_row list \<times> work_event list" where
  "store_changes new_id current items changes =
     fold (store_change new_id ((wi_ref \<circ> wr_item) ` set current) items) changes (current, [])"

section \<open>The pass and its loop\<close>

text \<open>
  One pass over the session's transcript. The model is a function of the transcript it is shown and of the
  stored items, with \<open>None\<close> for an \<open>LLMError\<close>; \<open>edit\<close> is what the owner does to the rows while it runs
  (the rows are read again under a lock before the merge).
\<close>

record ideas_config =
  ic_overlap_ms :: int
  ic_max_lines :: nat
  ic_allow :: "string list"
  ic_min_new :: int
  ic_interval_s :: real

record ideas_state =
  id_rows :: "work_row list"
  id_cursor :: int
  id_events :: "work_event list"

definition last_lines :: "nat \<Rightarrow> 'a list \<Rightarrow> 'a list" where
  "last_lines n xs = (if n = 0 then xs else drop (length xs - n) xs)"

definition ideas_lines :: "ideas_config \<Rightarrow> transcript_row list \<Rightarrow> speaker_row list \<Rightarrow> int \<Rightarrow> tline list" where
  "ideas_lines cfg segs speakers cursor =
     load_final_lines segs speakers (if cursor \<ge> 0 then cursor - ic_overlap_ms cfg else -1)"

definition ideas_until :: "tline list \<Rightarrow> int" where
  "ideas_until lines = fold (\<lambda>x m. max m (ln_end x)) (tl lines) (ln_end (hd lines))"

definition ideas_run ::
  "ideas_config \<Rightarrow> (string \<Rightarrow> work_row list \<Rightarrow> upsert list option) \<Rightarrow> (work_row list \<Rightarrow> work_row list) \<Rightarrow> (string \<Rightarrow> string) \<Rightarrow>
     transcript_row list \<Rightarrow> speaker_row list \<Rightarrow> ideas_state \<Rightarrow> bool \<times> ideas_state" where
  "ideas_run cfg llm edit new_id segs speakers st =
     (let lines = ideas_lines cfg segs speakers (id_cursor st)
      in if \<not> (\<exists>x \<in> set lines. ln_end x > id_cursor st) then (False, st)
         else let shown = last_lines (ic_max_lines cfg) lines; nl = number_lines shown
              in case llm (fst nl) (id_rows st) of None \<Rightarrow> (False, st\<lparr>id_rows := edit (id_rows st)\<rparr>)
                 | Some delta \<Rightarrow>
                     let current = edit (id_rows st);
                         m = ideas_apply (ic_allow cfg) (map wr_item current) delta (snd nl);
                         s = store_changes new_id current (fst m) (snd m)
                     in (snd m \<noteq> [], \<lparr>id_rows = fst s, id_cursor = ideas_until shown, id_events = id_events st @ snd s\<rparr>))"

text \<open>\<open>IdeasLoop.tick\<close>: the number of final segments seen, since when some are pending, and whether a pass is due.\<close>

record ideas_loop =
  il_seen :: int
  il_pending :: "real option"

definition ideas_tick :: "ideas_config \<Rightarrow> int \<Rightarrow> real \<Rightarrow> ideas_loop \<Rightarrow> bool \<times> ideas_loop" where
  "ideas_tick cfg total_segments now lp =
     (let new = total_segments - il_seen lp;
          pending = (if new > 0 \<and> il_pending lp = None then Some now else il_pending lp);
          due = (new \<ge> ic_min_new cfg \<or> new \<ge> 1 \<and> (case pending of None \<Rightarrow> False | Some t \<Rightarrow> now - t \<ge> ic_interval_s cfg))
      in (due, if due then \<lparr>il_seen = total_segments, il_pending = None\<rparr> else lp\<lparr>il_pending := pending\<rparr>))"

text \<open>A new segment is looked at within the interval: if it has been pending that long, the tick is due.\<close>

lemma ideas_tick_due:
  assumes "il_seen lp < total_segments" "ideas_tick cfg total_segments now lp = (False, lp')" "now + ic_interval_s cfg \<le> now'"
    "total_segments \<le> total'" "0 \<le> ic_interval_s cfg" "\<And>t. il_pending lp = Some t \<Longrightarrow> t \<le> now"
  shows "fst (ideas_tick cfg total' now' lp')"
  using assms by (auto simp: ideas_tick_def Let_def split: if_splits option.splits)

text \<open>A pass that got an answer has moved the cursor to the end of everything it showed.\<close>

lemma ideas_until_ge: "x \<in> set lines \<Longrightarrow> ln_end x \<le> ideas_until lines"
proof -
  have mono: "m \<le> fold (\<lambda>x m. max m (ln_end x)) xs m" for m xs
    by (induction xs arbitrary: m) (auto intro: order_trans [OF max.cobounded1])
  have "y \<in> set xs \<Longrightarrow> ln_end y \<le> fold (\<lambda>x m. max m (ln_end x)) xs m" for y m xs
  proof (induction xs arbitrary: m)
    case (Cons z xs)
    then show ?case using order_trans [OF max.cobounded2 mono] by auto
  qed simp
  with mono show "x \<in> set lines \<Longrightarrow> ln_end x \<le> ideas_until lines"
    by (cases lines) (auto simp: ideas_until_def)
qed

text \<open>
  An item that has its 40 sources: a newly cited line is merged in and another dropped, but the number
  is what it was, so the change is not reported and nothing is stored.
\<close>

lemma full_sources_unreported:
  assumes "length (wi_sources it) = MAX_SOURCES" "distinct (map ws_segment (wi_sources it))" "wi_state it = OPEN"
    "up_ref up = Some (wi_ref it)" "put_texts allow up (it, []) = (it, [])"
    "new_sources (wi_sources it) (cited line_refs up) = new" "new \<noteq> []"
  shows "ideas_apply allow [it] [up] line_refs =
     ([it\<lparr>wi_sources := take MAX_SOURCES (sort_key (\<lambda>s. (ws_start s, ws_end s)) (wi_sources it @ new))\<rparr>], [])"
    and "store_changes new_id [\<lparr>wr_item = it, wr_version = v\<rparr>] items [] = ([\<lparr>wr_item = it, wr_version = v\<rparr>], [])"
proof -
  have "card (set (map ws_segment (wi_sources it))) = MAX_SOURCES"
    using assms(1,2) distinct_card by fastforce
  then have "merge_sources (cited line_refs up) (it, []) =
      (it\<lparr>wi_sources := take MAX_SOURCES (sort_key (\<lambda>s. (ws_start s, ws_end s)) (wi_sources it @ new))\<rparr>, [])"
    using assms(1,6,7) by (simp add: merge_sources_def Let_def)
  then show "ideas_apply allow [it] [up] line_refs =
     ([it\<lparr>wi_sources := take MAX_SOURCES (sort_key (\<lambda>s. (ws_start s, ws_end s)) (wi_sources it @ new))\<rparr>], [])"
    using assms(3-5) by (simp add: ideas_apply_def apply_upsert_def Let_def text_or_empty_def find_ref_def update_item_def
        put_item_def)
qed (simp add: store_changes_def)

end
