(* ===== verification/Asks.thy ===== *)
theory Asks
  imports Protocol PyText
begin

text \<open>
  Hold to ask: \<open>voice/ask.py\<close> (the audio an ask is cut from, the text a reply is spoken as, and the guard against
  Jarvis hearing itself) and \<open>voice/desk.py\<close> (one session's door for asks). A task of the desk is a value; what it
  waits for and what the runner answers are arguments of its steps.
\<close>

section \<open>The audio of an ask\<close>

definition MAX_WINDOWS :: nat where "MAX_WINDOWS = 32"

record aframe =
  af_t :: int
  af_pos :: int
  af_pcm :: bytes

definition audio_ms :: "bytes \<Rightarrow> int" where
  "audio_ms pcm = int (length pcm div BYTES_PER_MS)"

definition end_t :: "aframe \<Rightarrow> int" where
  "end_t f = af_t f + audio_ms (af_pcm f)"

definition end_pos :: "aframe \<Rightarrow> int" where
  "end_pos f = af_pos f + audio_ms (af_pcm f)"

record voice_clip =
  cl_id :: string
  cl_pcm :: bytes
  cl_start :: int
  cl_end :: int

record held =
  he_id :: string
  he_begin_t :: int
  he_start_pos :: int
  he_end_t :: "int option"

record ask_audio =
  aa_preroll :: int
  aa_max :: int
  aa_frames :: "aframe list"
  aa_pos :: int
  aa_held :: "held option"
  aa_windows :: "(int \<times> int) list"


definition keep_from :: "ask_audio \<Rightarrow> int" where
  "keep_from a = (case aa_held a of Some h \<Rightarrow> he_begin_t h - aa_preroll a | None \<Rightarrow> end_t (last (aa_frames a)) - aa_preroll a)"

definition trim :: "ask_audio \<Rightarrow> ask_audio" where
  "trim a = (if aa_frames a = [] then a
     else a\<lparr>aa_frames := dropWhile (\<lambda>f. end_t f \<le> keep_from a) (aa_frames a)\<rparr>)"

definition audio_feed :: "int \<Rightarrow> bytes \<Rightarrow> ask_audio \<Rightarrow> ask_audio" where
  "audio_feed t pcm a =
     (let f = \<lparr>af_t = t, af_pos = aa_pos a, af_pcm = pcm\<rparr>
      in trim (a\<lparr>aa_pos := end_pos f, aa_frames := aa_frames a @ [f]\<rparr>))"

definition audio_begin :: "string \<Rightarrow> int \<Rightarrow> ask_audio \<Rightarrow> ask_audio" where
  "audio_begin i t a =
     (let from_t = t - aa_preroll a;
          start = (case find (\<lambda>f. end_t f > from_t) (aa_frames a) of Some f \<Rightarrow> af_pos f | None \<Rightarrow> aa_pos a)
      in trim (a\<lparr>aa_held := Some \<lparr>he_id = i, he_begin_t = t, he_start_pos = start, he_end_t = None\<rparr>\<rparr>))"

definition holds :: "string \<Rightarrow> ask_audio \<Rightarrow> bool" where
  "holds i a \<longleftrightarrow> (case aa_held a of None \<Rightarrow> False | Some h \<Rightarrow> he_id h = i)"

definition audio_end :: "string \<Rightarrow> int \<Rightarrow> ask_audio \<Rightarrow> bool \<times> ask_audio" where
  "audio_end i t a = (case aa_held a of None \<Rightarrow> (False, a)
     | Some h \<Rightarrow> if he_id h \<noteq> i then (False, a)
         else (True, a\<lparr>aa_held := Some (h\<lparr>he_end_t := Some (min (max t (he_begin_t h)) (he_begin_t h + aa_max a))\<rparr>)\<rparr>))"

definition held_until :: "ask_audio \<Rightarrow> held \<Rightarrow> int" where
  "held_until a h = (case he_end_t h of Some e \<Rightarrow> e | None \<Rightarrow> he_begin_t h + aa_max a)"

definition audio_complete :: "string \<Rightarrow> ask_audio \<Rightarrow> bool" where
  "audio_complete i a = (case aa_held a of None \<Rightarrow> False
     | Some h \<Rightarrow> he_id h = i \<and> aa_frames a \<noteq> [] \<and> end_t (last (aa_frames a)) \<ge> held_until a h)"

definition push_window :: "(int \<times> int) \<Rightarrow> (int \<times> int) list \<Rightarrow> (int \<times> int) list" where
  "push_window w ws = drop (length ws + 1 - MAX_WINDOWS) (ws @ [w])"

definition audio_take :: "string \<Rightarrow> ask_audio \<Rightarrow> voice_clip option \<times> ask_audio" where
  "audio_take i a = (case aa_held a of None \<Rightarrow> (None, a)
     | Some h \<Rightarrow> if he_id h \<noteq> i then (None, a)
         else (let until_t = held_until a h; from_t = he_begin_t h - aa_preroll a;
                   frames = filter (\<lambda>f. end_t f > from_t \<and> af_t f < until_t) (aa_frames a);
                   end_p = (if frames = [] then he_start_pos h else end_pos (last frames));
                   a' = trim (a\<lparr>aa_held := None, aa_windows := push_window (he_start_pos h, end_p) (aa_windows a)\<rparr>)
               in (if frames = [] then None
                   else Some \<lparr>cl_id = i, cl_pcm = concat (map af_pcm frames), cl_start = af_pos (hd frames), cl_end = end_p\<rparr>, a')))"

definition audio_drop :: "string \<Rightarrow> ask_audio \<Rightarrow> ask_audio" where
  "audio_drop i a = (if holds i a then snd (audio_take i a) else a)"

definition windows :: "ask_audio \<Rightarrow> (int \<times> int option) list" where
  "windows a = map (\<lambda>(s, e). (s, Some e)) (aa_windows a) @
     (case aa_held a of None \<Rightarrow> [] | Some h \<Rightarrow> [(he_start_pos h, None)])"

definition buffered_ms :: "ask_audio \<Rightarrow> nat" where
  "buffered_ms a = sum_list (map (length \<circ> af_pcm) (aa_frames a)) div BYTES_PER_MS"

section \<open>What is spoken\<close>

definition nl :: char where "nl = char_of (10 :: nat)"

text \<open>\<open>\s*[-]\s+\<close> at the start of a text: what is left, and whether a newline was the last character taken.\<close>

definition bullet :: "string \<Rightarrow> (bool \<times> string) option" where
  "bullet s = (case dropWhile is_space s of [] \<Rightarrow> None
     | c # r \<Rightarrow> (let sp = takeWhile is_space r in
          if c = CHR ''-'' \<and> sp \<noteq> [] then Some (last sp = nl, dropWhile is_space r) else None))"

lemma bullet_shorter: "bullet s = Some (b, r) \<Longrightarrow> length r < length s"
proof -
  assume a: "bullet s = Some (b, r)"
  then obtain c q where q: "dropWhile is_space s = c # q" "r = dropWhile is_space q"
    by (auto simp: bullet_def Let_def split: list.splits if_splits)
  have "length (c # q) \<le> length s" using q(1) by (metis length_dropWhile_le)
  then show ?thesis using length_dropWhile_le [of is_space q] by (simp add: q(2))
qed

function sub_bullets :: "bool \<Rightarrow> string \<Rightarrow> string" where
  "sub_bullets bol s = (case (if bol then bullet s else None) of
       Some (b, r) \<Rightarrow> CHR '' '' # sub_bullets b r
     | None \<Rightarrow> (case s of [] \<Rightarrow> [] | c # cs \<Rightarrow> c # sub_bullets (c = nl) cs))"
  by auto
termination
  by (relation "measure (length \<circ> snd)") (auto dest: bullet_shorter split: if_splits)

declare sub_bullets.simps [simp del]

definition strip_markup :: "string \<Rightarrow> string" where
  "strip_markup = filter (\<lambda>c. c \<notin> set ''*_`#>'')"

definition ends_sentence :: "string \<Rightarrow> bool" where
  "ends_sentence w \<longleftrightarrow> w \<noteq> [] \<and> last w \<in> set ''.!?''"

definition spoken_words :: "string \<Rightarrow> string list" where
  "spoken_words text = split_ws (strip_markup (sub_bullets True text))"

definition spoken :: "string \<Rightarrow> nat \<Rightarrow> string" where
  "spoken text max_words =
     (let words = spoken_words text; kept = take max_words words
      in if length words \<le> max_words then join '' '' words
         else if \<exists>w \<in> set kept. ends_sentence w
         then join '' '' (rev (dropWhile (\<lambda>w. \<not> ends_sentence w) (rev kept)))
         else rstrip_of '',;:'' (join '' '' kept) @ ''.'')"

section \<open>Jarvis heard by a mic\<close>

definition word_char :: "char \<Rightarrow> bool" where
  "word_char c \<longleftrightarrow> is_digit c \<or> (97 \<le> code c \<and> code c \<le> 122) \<or> code c = 39"

text \<open>\<open>_WORD.findall\<close>: the maximal runs of word characters.\<close>

function find_words :: "string \<Rightarrow> string list" where
  "find_words s = (case dropWhile (\<lambda>c. \<not> word_char c) s of [] \<Rightarrow> []
     | c # cs \<Rightarrow> (c # takeWhile word_char cs) # find_words (dropWhile word_char cs))"
  by auto
termination
proof (relation "measure length")
  fix s c cs
  assume "dropWhile (\<lambda>c. \<not> word_char c) s = c # cs"
  then have "length (c # cs) \<le> length s" using length_dropWhile_le [of "\<lambda>c. \<not> word_char c" s] by simp
  then show "(dropWhile word_char cs, s) \<in> measure length"
    using length_dropWhile_le [of word_char cs] by simp
qed simp

declare find_words.simps [simp del]

definition NUMBERS :: "string list" where
  "NUMBERS = [''zero'', ''one'', ''two'', ''three'', ''four'', ''five'', ''six'', ''seven'', ''eight'', ''nine'', ''ten'',
     ''eleven'', ''twelve'', ''thirteen'', ''fourteen'', ''fifteen'', ''sixteen'', ''seventeen'', ''eighteen'', ''nineteen'', ''twenty'']"

definition ORDINALS :: "string list" where
  "ORDINALS = [''zeroth'', ''first'', ''second'', ''third'', ''fourth'', ''fifth'', ''sixth'', ''seventh'', ''eighth'', ''ninth'', ''tenth'',
     ''eleventh'', ''twelfth'', ''thirteenth'', ''fourteenth'', ''fifteenth'', ''sixteenth'', ''seventeenth'', ''eighteenth'',
     ''nineteenth'', ''twentieth'']"

definition NUMBER :: "string \<Rightarrow> string option" where
  "NUMBER = map_of (zip NUMBERS (map dec_str [0..<21]) @ zip ORDINALS (map dec_str [0..<21]))"

definition quote :: char where "quote = char_of (39 :: nat)"

definition CONTRACTION :: "string \<Rightarrow> string option" where
  "CONTRACTION = map_of [(''s'', ''is''), (''re'', ''are''), (''ll'', ''will''), (''ve'', ''have''), (''m'', ''am''), (''d'', ''would'')]"

definition NOT_STEM :: "string \<Rightarrow> string option" where
  "NOT_STEM = map_of [(''ca'', ''can''), (''wo'', ''will''), (''sha'', ''shall'')]"

definition or_else :: "string option \<Rightarrow> string \<Rightarrow> string" where
  "or_else x d = (case x of None \<Rightarrow> d | Some v \<Rightarrow> v)"

definition split_word :: "string \<Rightarrow> string list" where
  "split_word w =
     (if startswith (rev w) [CHR ''t'', quote, CHR ''n'']
      then (let stem = take (length w - 3) w in [or_else (NOT_STEM stem) stem, ''not''])
      else (let stem = takeWhile (\<lambda>c. c \<noteq> quote) w; rest = drop 1 (dropWhile (\<lambda>c. c \<noteq> quote) w)
            in case CONTRACTION rest of Some r \<Rightarrow> [stem, r] | None \<Rightarrow> [stem]))"

text \<open>\<open>(\d+)(?:st|nd|rd|th)\<close> replaced by its digits, everywhere.\<close>

function ordinal_digits :: "string \<Rightarrow> string" where
  "ordinal_digits [] = []"
| "ordinal_digits (c # cs) =
     (if \<not> is_digit c then c # ordinal_digits cs
      else let r = dropWhile is_digit cs
           in (c # takeWhile is_digit cs) @
              (if take 2 r \<in> {''st'', ''nd'', ''rd'', ''th''} then ordinal_digits (drop 2 r) else ordinal_digits r))"
  by pat_completeness auto
termination
  by (relation "measure length")
    (use length_dropWhile_le [of is_digit] in \<open>auto simp: less_Suc_eq_le intro: le_trans [OF diff_le_self]\<close>)

declare ordinal_digits.simps [simp del]

definition tokens :: "string \<Rightarrow> string set" where
  "tokens text = (\<lambda>w. or_else (NUMBER w) (ordinal_digits w)) `
     set (filter (\<lambda>w. w \<noteq> []) (concat (map split_word (find_words (lower text)))))"

record played =
  py_start :: int
  py_end :: "int option"
  py_words :: "string set"

record echo_guard =
  eg_pad :: int
  eg_tail :: int
  eg_threshold :: real
  eg_played :: "played list"

definition SPEAKER_TAIL_MS :: int where "SPEAKER_TAIL_MS = 200"

definition echo_add :: "int \<Rightarrow> int option \<Rightarrow> string \<Rightarrow> echo_guard \<Rightarrow> echo_guard" where
  "echo_add start end_ms text g = g\<lparr>eg_played :=
     drop (length (eg_played g) + 1 - MAX_WINDOWS) (eg_played g @ [\<lparr>py_start = start, py_end = end_ms, py_words = tokens text\<rparr>])\<rparr>"

definition echo_close :: "int \<Rightarrow> echo_guard \<Rightarrow> echo_guard" where
  "echo_close end_ms g = g\<lparr>eg_played :=
     map (\<lambda>p. if py_end p = None then p\<lparr>py_end := Some (max end_ms (py_start p))\<rparr> else p) (eg_played g)\<rparr>"

definition word_share :: "string set \<Rightarrow> string set \<Rightarrow> real" where
  "word_share ws reply = real (card (ws \<inter> reply)) / real (card ws)"

definition echo_of :: "echo_guard \<Rightarrow> int \<Rightarrow> int \<Rightarrow> string set \<Rightarrow> played \<Rightarrow> bool" where
  "echo_of g start end_ms ws p \<longleftrightarrow>
     \<not> end_ms \<le> py_start p - eg_pad g \<and>
     (if (case py_end p of None \<Rightarrow> True | Some e \<Rightarrow> start < e) then word_share ws (py_words p) \<ge> eg_threshold g
      else start < the (py_end p) + eg_pad g + eg_tail g \<and> word_share ws (py_words p) = 1)"

definition is_echo :: "echo_guard \<Rightarrow> int \<Rightarrow> int \<Rightarrow> string \<Rightarrow> bool" where
  "is_echo g start end_ms text =
     (let ws = tokens text in ws \<noteq> {} \<and> (\<exists>p \<in> set (eg_played g). echo_of g start end_ms ws p))"

section \<open>What a clip holds\<close>





lemma trim_same [simp]: "aa_held (trim a) = aa_held a" "aa_preroll (trim a) = aa_preroll a" "aa_pos (trim a) = aa_pos a"
  "aa_max (trim a) = aa_max a"
  by (simp_all add: trim_def)








section \<open>What the guard drops\<close>

lemma finite_tokens: "finite (tokens text)"
  by (simp add: tokens_def)

text \<open>
  Speech over Jarvis is kept. A segment is dropped as an echo only if it meets the time of a reply (padded,
  and after the end by the speaker's tail) and enough of its words are the reply's; once the reply is
  done, only if all of them are. Whatever is nothing but a reply's words inside its time is dropped.
\<close>

theorem echo_only_of_reply:
  assumes "eg_threshold g \<le> 1"
  shows "(is_echo g start end_ms text \<longrightarrow> (\<exists>p \<in> set (eg_played g). py_start p - eg_pad g < end_ms \<and>
       (case py_end p of None \<Rightarrow> word_share (tokens text) (py_words p) \<ge> eg_threshold g
        | Some e \<Rightarrow> (start < e \<and> word_share (tokens text) (py_words p) \<ge> eg_threshold g) \<or>
            (start < e + eg_pad g + eg_tail g \<and> tokens text \<subseteq> py_words p)))) \<and>
    (\<forall>p \<in> set (eg_played g). tokens text \<noteq> {} \<and> tokens text \<subseteq> py_words p \<and> py_start p - eg_pad g < end_ms \<and>
       (case py_end p of None \<Rightarrow> True | Some e \<Rightarrow> start < e) \<longrightarrow> is_echo g start end_ms text)"
proof -
  have one: "word_share ws r = 1 \<longleftrightarrow> ws \<subseteq> r" if "finite ws" "ws \<noteq> {}" for ws r
  proof -
    have "card ws = card (ws \<inter> r) \<longleftrightarrow> ws \<inter> r = ws"
      using that(1) by (metis card_subset_eq inf_le1)
    then show ?thesis using that by (simp add: word_share_def Int_absorb2 le_iff_inf card_gt_0_iff)
  qed
  note sub = one [OF finite_tokens, of "text"]
  have "\<exists>p \<in> set (eg_played g). py_start p - eg_pad g < end_ms \<and>
       (case py_end p of None \<Rightarrow> word_share (tokens text) (py_words p) \<ge> eg_threshold g
        | Some e \<Rightarrow> (start < e \<and> word_share (tokens text) (py_words p) \<ge> eg_threshold g) \<or>
            (start < e + eg_pad g + eg_tail g \<and> tokens text \<subseteq> py_words p))" if echo: "is_echo g start end_ms text"
  proof -
    obtain p where p: "p \<in> set (eg_played g)" "echo_of g start end_ms (tokens text) p" "tokens text \<noteq> {}"
      using echo by (auto simp: is_echo_def Let_def)
    then show ?thesis
      using sub [of "py_words p"] by (intro bexI [OF _ p(1)]) (cases "py_end p"; simp add: echo_of_def split: if_splits)
  qed
  moreover have "is_echo g start end_ms text"
    if "p \<in> set (eg_played g)" "tokens text \<noteq> {}" "tokens text \<subseteq> py_words p" "py_start p - eg_pad g < end_ms"
      "case py_end p of None \<Rightarrow> True | Some e \<Rightarrow> start < e" for p
  proof -
    have "word_share (tokens text) (py_words p) = 1" using sub that(2,3) by blast
    then have "echo_of g start end_ms (tokens text) p" using that(4,5) assms by (simp add: echo_of_def)
    then show ?thesis using that(1,2) by (auto simp: is_echo_def Let_def)
  qed
  ultimately show ?thesis by blast
qed

definition demo_guard :: echo_guard where
  "demo_guard = echo_add 1000 None ''It is ready'' \<lparr>eg_pad = 300, eg_tail = SPEAKER_TAIL_MS, eg_threshold = 3 / 5, eg_played = []\<rparr>"

lemma demo_tokens: "tokens ''it is ready'' = {''it'', ''is'', ''ready''}" "tokens ''It is ready'' = {''it'', ''is'', ''ready''}"
  by (simp_all only: tokens_def, code_simp+)

theorem echo_only_of_reply_witness:
  "is_echo demo_guard 1100 1500 ''it is ready''"
proof -
  have g: "eg_threshold demo_guard \<le> 1" "eg_played demo_guard = [\<lparr>py_start = 1000, py_end = None, py_words = {''it'', ''is'', ''ready''}\<rparr>]"
    "eg_pad demo_guard = 300"
    by (simp_all add: demo_guard_def echo_add_def demo_tokens MAX_WINDOWS_def)
  let ?p = "\<lparr>py_start = 1000, py_end = None, py_words = {''it'', ''is'', ''ready''}\<rparr>"
  have "?p \<in> set (eg_played demo_guard)" "tokens ''it is ready'' \<noteq> {}" "tokens ''it is ready'' \<subseteq> py_words ?p"
    "py_start ?p - eg_pad demo_guard < 1500" "case py_end ?p of None \<Rightarrow> True | Some e \<Rightarrow> 1100 < e"
    by (simp_all add: g demo_tokens)
  with echo_only_of_reply [OF g(1), of 1100 1500 "''it is ready''"] show ?thesis by blast
qed

section \<open>The desk\<close>

text \<open>
  One session's asks. A task waits for its audio, takes it, asks the runner and publishes the reply; it may be
  cancelled in between. \<open>dk_replies\<close> is the row and the text of each reply, \<open>dk_out\<close> what was published.
\<close>

datatype desk_task = Waiting string | Asking string "voice_clip option"

record desk =
  dk_audio :: ask_audio
  dk_echo :: echo_guard
  dk_held :: "string option"
  dk_task :: "desk_task option"
  dk_replies :: "string \<Rightarrow> (int option \<times> string) option"
  dk_out :: "(string \<times> string) list"

definition desk_finish :: "string \<Rightarrow> desk \<Rightarrow> desk" where
  "desk_finish i d = d\<lparr>dk_held := None, dk_task := Some (Waiting i)\<rparr>"

definition desk_cancel :: "desk \<Rightarrow> desk" where
  "desk_cancel d = (case dk_held d of None \<Rightarrow> d\<lparr>dk_task := None\<rparr>
     | Some i \<Rightarrow> d\<lparr>dk_audio := audio_drop i (dk_audio d), dk_held := None, dk_task := None\<rparr>)"

definition desk_feed :: "int \<Rightarrow> bytes \<Rightarrow> desk \<Rightarrow> desk" where
  "desk_feed t pcm d =
     (let d1 = d\<lparr>dk_audio := audio_feed t pcm (dk_audio d)\<rparr>
      in case dk_held d1 of Some i \<Rightarrow> if audio_complete i (dk_audio d1) then desk_finish i d1 else d1 | None \<Rightarrow> d1)"

definition desk_begin :: "string \<Rightarrow> int \<Rightarrow> desk \<Rightarrow> desk" where
  "desk_begin i t d =
     (let d1 = desk_cancel d in d1\<lparr>dk_audio := audio_begin i t (dk_audio d1), dk_held := Some i\<rparr>)"

definition desk_end :: "string \<Rightarrow> int \<Rightarrow> desk \<Rightarrow> desk" where
  "desk_end i t d =
     (let (ok, a) = audio_end i t (dk_audio d); d1 = d\<lparr>dk_audio := a\<rparr> in if ok then desk_finish i d1 else d1)"

definition desk_played :: "string \<Rightarrow> played_state \<Rightarrow> int \<Rightarrow> desk \<Rightarrow> desk" where
  "desk_played i st position d =
     (let reply = (case dk_replies d i of None \<Rightarrow> [] | Some r \<Rightarrow> snd r)
      in d\<lparr>dk_echo := (if st = Started then echo_add position None reply (dk_echo d) else echo_close position (dk_echo d))\<rparr>)"

text \<open>The task of \<open>_answer\<close>: it stops waiting when the audio is complete or its time is up.\<close>

definition desk_take :: "bool \<Rightarrow> desk \<Rightarrow> desk" where
  "desk_take time_up d = (case dk_task d of
       Some (Waiting i) \<Rightarrow>
         if audio_complete i (dk_audio d) \<or> time_up
         then (let (cl, a) = audio_take i (dk_audio d) in d\<lparr>dk_audio := a, dk_task := Some (Asking i cl)\<rparr>) else d
     | _ \<Rightarrow> d)"

definition desk_answered :: "(voice_clip \<Rightarrow> (int option \<times> string) option) \<Rightarrow> desk \<Rightarrow> desk" where
  "desk_answered runner d = (case dk_task d of
       Some (Asking i cl) \<Rightarrow>
         (let r = (case cl of None \<Rightarrow> (None, []) | Some c \<Rightarrow>
                     (case runner c of None \<Rightarrow> (None, ''Sorry, something went wrong.'') | Some r \<Rightarrow> r))
          in d\<lparr>dk_task := None, dk_replies := (dk_replies d)(i \<mapsto> r), dk_out := dk_out d @ [(i, snd r)]\<rparr>)
     | _ \<Rightarrow> d)"

text \<open>
  An ask whose key is up but whose last audio has not come is replaced by the next one: its task is cancelled
  before it takes the audio, and its window is never remembered, although \<open>windows\<close> promises those of recent asks.
\<close>

lemma trim_windows [simp]: "aa_windows (trim a) = aa_windows a"
  by (simp add: trim_def)

lemma replaced_ask_forgotten:
  assumes "dk_held d = None" "dk_task d = Some (Waiting i)" "aa_held (dk_audio d) = Some h" "he_id h = i"
  shows "aa_windows (dk_audio (desk_begin j t d)) = aa_windows (dk_audio d) \<and>
     (\<exists>h'. aa_held (dk_audio (desk_begin j t d)) = Some h' \<and> he_id h' = j)"
  using assms by (simp add: desk_begin_def desk_cancel_def audio_begin_def Let_def)

text \<open>An ask that is still held when the next one begins is remembered.\<close>

lemma dropped_ask_remembered:
  assumes "dk_held d = Some i" "aa_held (dk_audio d) = Some h" "he_id h = i"
  shows "\<exists>e. last (aa_windows (dk_audio (desk_begin j t d))) = (he_start_pos h, e)"
  using assms
  by (simp add: desk_begin_def desk_cancel_def audio_begin_def Let_def audio_drop_def holds_def audio_take_def push_window_def MAX_WINDOWS_def)

end
