(* ===== verification/Diarize.thy ===== *)
theory Diarize
  imports PyText "HOL-Library.Product_Lexorder" "HOL-Library.List_Lexorder" "HOL-Library.Char_ord"
begin

text \<open>
  Who spoke: \<open>diarize/align.py\<close> (the speaker of a segment), \<open>diarize/identify.py\<close> (matching voices with enrolled ones) and
  \<open>diarize/live.py\<close> with the writing part of \<open>diarize/livelabel.py\<close> (provisional speakers while a session runs).
  Floating-point numbers are real numbers here, so the statements are about exact arithmetic.
\<close>

section \<open>Aligning a segment with the turns\<close>

definition MIN_COVERAGE :: real where "MIN_COVERAGE = 3 / 10"
definition MIXED_RATIO :: real where "MIXED_RATIO = 1 / 4"

record turn =
  tn_start :: int
  tn_end :: int
  tn_speaker :: string

definition turn_covers :: "int \<Rightarrow> int \<Rightarrow> turn \<Rightarrow> int" where
  "turn_covers start end_ms t = min end_ms (tn_end t) - max start (tn_start t)"

definition overlapping :: "int \<Rightarrow> int \<Rightarrow> turn list \<Rightarrow> turn list" where
  "overlapping start end_ms turns = filter (\<lambda>t. turn_covers start end_ms t > 0) turns"

definition overlap_of :: "int \<Rightarrow> int \<Rightarrow> turn list \<Rightarrow> string \<Rightarrow> int" where
  "overlap_of start end_ms turns s =
     sum_list (map (turn_covers start end_ms) (filter (\<lambda>t. tn_speaker t = s) (overlapping start end_ms turns)))"

definition ranked :: "int \<Rightarrow> int \<Rightarrow> turn list \<Rightarrow> string list" where
  "ranked start end_ms turns =
     sort_key (\<lambda>s. (- overlap_of start end_ms turns s, s)) (remdups (map tn_speaker (overlapping start end_ms turns)))"

definition assign :: "int \<Rightarrow> int \<Rightarrow> turn list \<Rightarrow> real \<Rightarrow> real \<Rightarrow> string option \<times> bool" where
  "assign start end_ms turns mixed_ratio min_coverage =
     (let duration = end_ms - start; ov = overlap_of start end_ms turns
      in if duration \<le> 0 then (None, False)
         else case ranked start end_ms turns of
             [] \<Rightarrow> (None, False)
           | best # others \<Rightarrow>
               if ov best / duration < min_coverage then (None, False)
               else (Some best, case others of [] \<Rightarrow> False | second # _ \<Rightarrow> ov second / duration > mixed_ratio))"

lemma sum_list_pos: "\<forall>x \<in> set xs. 0 < x \<Longrightarrow> xs \<noteq> [] \<Longrightarrow> 0 < sum_list xs" for xs :: "int list"
proof (induction xs)
  case (Cons x xs)
  then show ?case by (cases xs) auto
qed simp

lemma overlap_pos: "s \<in> tn_speaker ` set (overlapping a b turns) \<Longrightarrow> 0 < overlap_of a b turns s"
  unfolding overlap_of_def by (rule sum_list_pos) (auto simp: overlapping_def filter_empty_conv)

lemma overlap_none: "s \<notin> set (map tn_speaker (overlapping a b turns)) \<Longrightarrow> overlap_of a b turns s = 0"
proof -
  assume "s \<notin> set (map tn_speaker (overlapping a b turns))"
  then have "filter (\<lambda>t. tn_speaker t = s) (overlapping a b turns) = []" by (force simp: filter_empty_conv)
  then show ?thesis by (simp add: overlap_of_def)
qed

lemma ranked_order:
  assumes "ranked a b turns = xs @ s # ys" "t \<in> set ys"
  shows "overlap_of a b turns t \<le> overlap_of a b turns s" "t \<noteq> s"
proof -
  have "sorted (map (\<lambda>s. (- overlap_of a b turns s, s)) (ranked a b turns))" "distinct (ranked a b turns)"
    by (simp_all add: ranked_def)
  with assms show "overlap_of a b turns t \<le> overlap_of a b turns s" "t \<noteq> s"
    by (auto simp: sorted_append less_eq_prod_def)
qed

text \<open>
  A segment is given the speaker whose turns cover most of it, and only if they cover
  enough; it is marked mixed exactly when another speaker covers more than the allowed share.
\<close>

theorem assign_majority:
  fixes mixed_ratio min_coverage :: real
  assumes "start < end_ms" "0 \<le> mixed_ratio" "0 < min_coverage"
  shows "case assign start end_ms turns mixed_ratio min_coverage of
     (None, mixed) \<Rightarrow> \<not> mixed \<and> (\<forall>s. overlap_of start end_ms turns s < min_coverage * (end_ms - start))
   | (Some best, mixed) \<Rightarrow> min_coverage * (end_ms - start) \<le> overlap_of start end_ms turns best \<and>
       (\<forall>s. overlap_of start end_ms turns s \<le> overlap_of start end_ms turns best) \<and>
       (mixed \<longleftrightarrow> (\<exists>s. s \<noteq> best \<and> mixed_ratio * (end_ms - start) < overlap_of start end_ms turns s))"
proof -
  define ov where "ov = overlap_of start end_ms turns"
  define d where "d = real_of_int end_ms - real_of_int start"
  have d: "0 < d" using assms(1) by (simp add: d_def)
  have mem: "set (ranked start end_ms turns) = set (map tn_speaker (overlapping start end_ms turns))" by (simp add: ranked_def)
  have zero: "ov s = 0" if "s \<notin> set (ranked start end_ms turns)" for s using overlap_none that mem by (simp add: ov_def)
  show ?thesis
  proof (cases "ranked start end_ms turns")
    case Nil
    then have "ov s = 0" for s using zero by simp
    then show ?thesis using Nil assms by (simp add: assign_def Let_def ov_def [symmetric])
  next
    case (Cons best others)
    have most: "ov s \<le> ov best" for s
    proof (cases "s \<in> set (ranked start end_ms turns)")
      case True
      then show ?thesis using ranked_order(1) [of start end_ms turns "[]" best others s] Cons by (auto simp: ov_def)
    next
      case False
      have "0 < ov best" using overlap_pos [of best start end_ms turns] Cons mem by (auto simp: ov_def)
      then show ?thesis using zero [OF False] by simp
    qed
    show ?thesis
    proof (cases "ov best / d < min_coverage")
      case True
      then have "ov best < min_coverage * d" using d by (simp add: pos_divide_less_eq)
      then have "\<forall>s. ov s < min_coverage * d" using most by (meson le_less_trans of_int_le_iff)
      then show ?thesis using True assms(1) Cons by (simp add: assign_def Let_def ov_def d_def)
    next
      case False
      then have best: "min_coverage * d \<le> ov best" using d by (simp add: not_less pos_le_divide_eq)
      have mixed: "(case others of [] \<Rightarrow> False | second # _ \<Rightarrow> ov second / d > mixed_ratio) \<longleftrightarrow> (\<exists>s. s \<noteq> best \<and> mixed_ratio * d < ov s)"
      proof (cases others)
        case Nil
        then have z: "ov s = 0" if "s \<noteq> best" for s using zero that Cons by simp
        have "0 \<le> mixed_ratio * d" using assms(2) d by simp
        with z have "\<not> (\<exists>s. s \<noteq> best \<and> mixed_ratio * d < ov s)" by (metis not_le of_int_0)
        with Nil show ?thesis by simp
      next
        case c: (Cons second rest)
        have sec: "ov s \<le> ov second" if "s \<noteq> best" for s
        proof (cases "s \<in> set (ranked start end_ms turns)")
          case True
          then show ?thesis
            using that c Cons ranked_order(1) [of start end_ms turns "[best]" second rest s] by (auto simp: ov_def)
        next
          case False
          have "0 < ov second" using overlap_pos [of second start end_ms turns] Cons c mem by (auto simp: ov_def)
          then show ?thesis using zero [OF False] by simp
        qed
        have "second \<noteq> best" using ranked_order(2) [of start end_ms turns "[]" best others second] Cons c by simp
        then show ?thesis
          using c d sec by (auto simp: pos_less_divide_eq mult.commute) (meson less_le_trans of_int_le_iff)
      qed
      have "assign start end_ms turns mixed_ratio min_coverage =
          (Some best, case others of [] \<Rightarrow> False | second # _ \<Rightarrow> ov second / d > mixed_ratio)"
        using False assms(1) Cons by (simp add: assign_def Let_def ov_def d_def split: list.split)
      then show ?thesis
        using best most mixed by (simp flip: ov_def d_def)
    qed
  qed
qed

theorem assign_majority_witness:
  "assign 0 1000 [\<lparr>tn_start = -500, tn_end = 600, tn_speaker = ''a''\<rparr>, \<lparr>tn_start = 600, tn_end = 900, tn_speaker = ''b''\<rparr>] MIXED_RATIO MIN_COVERAGE
     = (Some ''a'', True) \<and>
   MIN_COVERAGE * 1000 \<le> overlap_of 0 1000 [\<lparr>tn_start = -500, tn_end = 600, tn_speaker = ''a''\<rparr>, \<lparr>tn_start = 600, tn_end = 900, tn_speaker = ''b''\<rparr>] ''a''"
proof -
  let ?ts = "[\<lparr>tn_start = -500, tn_end = 600, tn_speaker = ''a''\<rparr>, \<lparr>tn_start = 600, tn_end = 900, tn_speaker = ''b''\<rparr>]"
  have r: "ranked 0 1000 ?ts = [''a'', ''b'']" "overlap_of 0 1000 ?ts ''a'' = 600" "overlap_of 0 1000 ?ts ''b'' = 300" by code_simp+
  have e: "assign 0 1000 ?ts MIXED_RATIO MIN_COVERAGE = (Some ''a'', True)"
    by (simp add: assign_def r Let_def MIXED_RATIO_def MIN_COVERAGE_def)
  have "(0::int) < 1000" "0 \<le> MIXED_RATIO" "0 < MIN_COVERAGE" by (simp_all add: MIXED_RATIO_def MIN_COVERAGE_def)
  from assign_majority [OF this, of ?ts] e show ?thesis by simp
qed

section \<open>Matching voices with enrolled ones\<close>

type_synonym vector = "real list"

record profile =
  pf_id :: string
  pf_vector :: vector

definition dot :: "vector \<Rightarrow> vector \<Rightarrow> real" where
  "dot a b = sum_list (map2 (*) a b)"

definition cosine :: "vector \<Rightarrow> vector \<Rightarrow> real" where
  "cosine a b = (let na = sqrt (dot a a); nb = sqrt (dot b b) in if na = 0 \<or> nb = 0 then 0 else dot a b / (na * nb))"

definition scores_of :: "vector \<Rightarrow> profile list \<Rightarrow> (real \<times> string) list" where
  "scores_of v profiles =
     rev (sort (map (\<lambda>p. (cosine v (pf_vector p), pf_id p)) (filter (\<lambda>p. length (pf_vector p) = length v) profiles)))"

definition claim_of :: "profile list \<Rightarrow> real \<Rightarrow> real \<Rightarrow> string \<times> vector \<Rightarrow> (real \<times> string \<times> string) option" where
  "claim_of profiles threshold margin cv =
     (case scores_of (snd cv) profiles of [] \<Rightarrow> None
      | (s, p) # rest \<Rightarrow>
          if s < threshold then None
          else if (case rest of [] \<Rightarrow> False | (s2, _) # _ \<Rightarrow> s - s2 < margin) then None
          else Some (s, fst cv, p))"

fun settle :: "(real \<times> string \<times> string) list \<Rightarrow> string set \<Rightarrow> (string \<times> string) list" where
  "settle [] taken = []"
| "settle ((s, cluster, p) # cs) taken =
     (if p \<in> taken then settle cs taken else (cluster, p) # settle cs (insert p taken))"

definition match_voices :: "(string \<times> vector) list \<Rightarrow> profile list \<Rightarrow> real \<Rightarrow> real \<Rightarrow> (string \<times> string) list" where
  "match_voices clusters profiles threshold margin =
     settle (rev (sort (List.map_filter (claim_of profiles threshold margin) clusters))) {}"

definition merge_vectors :: "vector \<Rightarrow> nat \<Rightarrow> vector \<Rightarrow> nat \<Rightarrow> vector" where
  "merge_vectors old old_n new new_n = map2 (\<lambda>a b. (a * old_n + b * new_n) / (old_n + new_n)) old new"

lemma scores_sorted: "sorted (rev (scores_of v profiles))"
  by (simp add: scores_of_def)

lemma set_scores: "set (scores_of v profiles) =
    (\<lambda>p. (cosine v (pf_vector p), pf_id p)) ` {p \<in> set profiles. length (pf_vector p) = length v}"
  by (auto simp: scores_of_def)

lemma claim_sound:
  assumes "claim_of profiles threshold margin (c, v) = Some (s, c', p)" "distinct (map pf_id profiles)" "0 \<le> margin"
  shows "c' = c \<and> threshold \<le> s \<and> (\<exists>f \<in> set profiles. pf_id f = p \<and> length (pf_vector f) = length v \<and> s = cosine v (pf_vector f)) \<and>
     (\<forall>g \<in> set profiles. length (pf_vector g) = length v \<and> pf_id g \<noteq> p \<longrightarrow> margin \<le> s - cosine v (pf_vector g))"
proof -
  obtain rest where sc: "scores_of v profiles = (s, p) # rest" "threshold \<le> s" "c' = c"
    "case rest of [] \<Rightarrow> True | (s2, _) # _ \<Rightarrow> margin \<le> s - s2"
    using assms(1) by (auto simp: claim_of_def split: list.splits if_splits)
  have in1: "(s, p) \<in> set (scores_of v profiles)" by (simp add: sc(1))
  then obtain f where f: "f \<in> set profiles" "pf_id f = p" "length (pf_vector f) = length v" "s = cosine v (pf_vector f)"
    by (auto simp: set_scores)
  have "margin \<le> s - cosine v (pf_vector g)" if g: "g \<in> set profiles" "length (pf_vector g) = length v" "pf_id g \<noteq> p" for g
  proof -
    have "(cosine v (pf_vector g), pf_id g) \<in> set rest" using g sc(1) set_scores [of v profiles] by force
    then obtain s2 q rs where r: "rest = (s2, q) # rs" by (cases rest) auto
    have "(cosine v (pf_vector g), pf_id g) \<le> (s2, q)"
      using \<open>_ \<in> set rest\<close> scores_sorted [of v profiles] by (auto simp: sc(1) r sorted_append)
    then have "cosine v (pf_vector g) \<le> s2" by (auto simp: less_eq_prod_def)
    then show ?thesis using sc(4) by (simp add: r)
  qed
  then show ?thesis using sc f by blast
qed

lemma settle_sound:
  "(c, p) \<in> set (settle cs taken) \<Longrightarrow> p \<notin> taken \<and> (\<exists>s. (s, c, p) \<in> set cs)"
  by (induction cs taken rule: settle.induct) (auto split: if_splits)

lemma settle_distinct: "distinct (map snd (settle cs taken))"
  by (induction cs taken rule: settle.induct) (auto dest: settle_sound)

lemma settle_wins:
  "(s, c, p) \<in> set cs \<Longrightarrow> sorted (rev cs) \<Longrightarrow> p \<notin> taken \<Longrightarrow> \<exists>s' c'. (s', c', p) \<in> set cs \<and> (c', p) \<in> set (settle cs taken) \<and> s \<le> s'"
proof (induction cs taken rule: settle.induct)
  case (2 s1 c1 p1 cs taken)
  have srt: "sorted (rev cs)" "\<forall>x \<in> set cs. x \<le> (s1, c1, p1)" using 2(4) by (auto simp: sorted_append)
  show ?case
  proof (cases "p1 = p")
    case True
    have "s \<le> s1" using 2(3) srt(2) by (auto simp: less_eq_prod_def)
    then show ?thesis using True 2(5) by (intro exI [of _ s1] exI [of _ c1]) simp
  next
    case False
    then have m: "(s, c, p) \<in> set cs" using 2(3) by auto
    show ?thesis
    proof (cases "p1 \<in> taken")
      case True
      then show ?thesis using 2(1) [OF True m srt(1) 2(5)] by auto
    next
      case f: False
      then show ?thesis using 2(2) [OF f m srt(1)] 2(5) False by auto
    qed
  qed
qed simp

text \<open>
  Nobody is guessed. A voice is named only by a profile whose score reaches the threshold and beats every other
  profile of the same size by the margin; no profile names two voices; and a voice that clearly matched a profile but
  did not get it lost to one at least as close.
\<close>

theorem match_sound:
  assumes "distinct (map pf_id profiles)" "0 \<le> margin" "(c, p) \<in> set (match_voices clusters profiles threshold margin)"
  shows "distinct (map snd (match_voices clusters profiles threshold margin)) \<and>
     (\<exists>v s. (c, v) \<in> set clusters \<and> threshold \<le> s \<and>
        (\<exists>f \<in> set profiles. pf_id f = p \<and> length (pf_vector f) = length v \<and> s = cosine v (pf_vector f)) \<and>
        (\<forall>g \<in> set profiles. length (pf_vector g) = length v \<and> pf_id g \<noteq> p \<longrightarrow> margin \<le> s - cosine v (pf_vector g))) \<and>
     (\<forall>c2 v2 s2. (c2, v2) \<in> set clusters \<and> claim_of profiles threshold margin (c2, v2) = Some (s2, c2, p) \<longrightarrow>
        (\<exists>s' c' v'. (c', p) \<in> set (match_voices clusters profiles threshold margin) \<and> s2 \<le> s' \<and>
           (c', v') \<in> set clusters \<and> claim_of profiles threshold margin (c', v') = Some (s', c', p)))"
proof -
  define claims where "claims = rev (sort (List.map_filter (claim_of profiles threshold margin) clusters))"
  have m: "match_voices clusters profiles threshold margin = settle claims {}" by (simp add: match_voices_def claims_def)
  have claims: "x \<in> set claims \<longleftrightarrow> (\<exists>cv \<in> set clusters. claim_of profiles threshold margin cv = Some x)" for x
    by (cases x) (auto simp: claims_def List.map_filter_def image_iff split: option.splits, metis option.sel)
  obtain s where "(s, c, p) \<in> set claims" using settle_sound assms(3) unfolding m by blast
  then obtain c0 v where cv: "(c0, v) \<in> set clusters" "claim_of profiles threshold margin (c0, v) = Some (s, c, p)"
    using claims by fastforce
  note snd = claim_sound [OF cv(2) assms(1,2)]
  have "\<exists>s' c' v'. (c', p) \<in> set (settle claims {}) \<and> s2 \<le> s' \<and> (c', v') \<in> set clusters \<and>
      claim_of profiles threshold margin (c', v') = Some (s', c', p)"
    if c2: "(c2, v2) \<in> set clusters" "claim_of profiles threshold margin (c2, v2) = Some (s2, c2, p)" for c2 v2 s2
  proof -
    have "(s2, c2, p) \<in> set claims" using c2 claims by blast
    moreover have "sorted (rev claims)" by (simp add: claims_def)
    ultimately obtain s' c' where w: "(s', c', p) \<in> set claims" "(c', p) \<in> set (settle claims {})" "s2 \<le> s'"
      using settle_wins [of s2 c2 p claims "{}"] by auto
    then obtain e v' where e: "(e, v') \<in> set clusters" "claim_of profiles threshold margin (e, v') = Some (s', c', p)"
      using claims by fastforce
    moreover have "c' = e" using claim_sound [OF e(2) assms(1,2)] by blast
    ultimately show ?thesis using w by blast
  qed
  then show ?thesis unfolding m using settle_distinct snd cv(1) by blast
qed

lemma unit_cosine: "cosine [1] [1] = 1"
  by (simp add: cosine_def dot_def)

theorem match_sound_witness:
  "(''x'', ''p'') \<in> set (match_voices [(''x'', [1])] [\<lparr>pf_id = ''p'', pf_vector = [1]\<rparr>] (1 / 2) (1 / 10)) \<and>
   distinct (map snd (match_voices [(''x'', [1])] [\<lparr>pf_id = ''p'', pf_vector = [1]\<rparr>] (1 / 2) (1 / 10)))"
proof -
  have "(''x'', ''p'') \<in> set (match_voices [(''x'', [1])] [\<lparr>pf_id = ''p'', pf_vector = [1]\<rparr>] (1 / 2) (1 / 10))"
    by (simp add: match_voices_def List.map_filter_def claim_of_def scores_of_def unit_cosine)
  from match_sound [OF _ _ this] this show ?thesis by simp
qed

section \<open>Voices of a running session\<close>

record profile_ref =
  pr_id :: string
  pr_label :: string
  pr_owner :: bool
  pr_model :: string
  pr_vector :: vector

record live_voice =
  lv_id :: string
  lv_channel :: string
  lv_model :: string
  lv_embedding :: vector
  lv_n :: nat
  lv_label :: "string option"
  lv_profile :: "string option"
  lv_owner :: bool

text \<open>A voice object is named by its channel and its place in the channel's list.\<close>

record live_speakers =
  ls_profiles :: "profile_ref list"
  ls_cluster :: real
  ls_match :: real
  ls_margin :: real
  ls_voices :: "string \<Rightarrow> live_voice list"
  ls_by_profile :: "string \<times> string \<Rightarrow> nat option"

definition live_id :: "string \<Rightarrow> nat \<Rightarrow> string" where
  "live_id channel n = ''live_'' @ channel @ ''_'' @ dec_str n"

definition hit_of :: "live_speakers \<Rightarrow> vector \<Rightarrow> string \<Rightarrow> string option" where
  "hit_of ls v model =
     map_of (match_voices [(''x'', v)] (map (\<lambda>p. \<lparr>pf_id = pr_id p, pf_vector = pr_vector p\<rparr>)
       (filter (\<lambda>p. pr_model p = model) (ls_profiles ls))) (ls_match ls) (ls_margin ls)) ''x''"

text \<open>\<open>max(..., key=score, default=None)\<close>: the first of the best.\<close>

definition best_voice :: "vector \<Rightarrow> string \<Rightarrow> live_voice list \<Rightarrow> (real \<times> nat) option" where
  "best_voice v model voices =
     fold (\<lambda>(i, w) b. if lv_profile w = None \<and> lv_model w = model \<and> length (lv_embedding w) = length v
            then (case b of None \<Rightarrow> Some (cosine v (lv_embedding w), i)
                  | Some (s, j) \<Rightarrow> if s < cosine v (lv_embedding w) then Some (cosine v (lv_embedding w), i) else b)
            else b)
       (zip [0..<length voices] voices) None"

definition add_voice :: "string \<Rightarrow> live_voice \<Rightarrow> live_speakers \<Rightarrow> live_speakers" where
  "add_voice channel w ls = ls\<lparr>ls_voices := (ls_voices ls)(channel := ls_voices ls channel @ [w])\<rparr>"

definition new_voice :: "string \<Rightarrow> vector \<Rightarrow> string \<Rightarrow> live_speakers \<Rightarrow> live_voice" where
  "new_voice channel v model ls = \<lparr>lv_id = live_id channel (length (ls_voices ls channel)), lv_channel = channel, lv_model = model,
     lv_embedding = v, lv_n = 1, lv_label = None, lv_profile = None, lv_owner = False\<rparr>"

definition live_assign :: "string \<Rightarrow> vector \<Rightarrow> string \<Rightarrow> live_speakers \<Rightarrow> (nat \<times> bool) option \<times> live_speakers" where
  "live_assign channel v model ls =
     (if \<forall>x \<in> set v. x = 0 then (None, ls)
      else (let voices = ls_voices ls channel; n = length voices
            in case hit_of ls v model of
                 Some p \<Rightarrow>
                   (case ls_by_profile ls (channel, p) of
                      Some i \<Rightarrow> (Some (i, False), ls)
                    | None \<Rightarrow>
                        (case find (\<lambda>r. pr_id r = p) (ls_profiles ls) of None \<Rightarrow> (None, ls)
                         | Some r \<Rightarrow>
                             (Some (n, True),
                              (add_voice channel ((new_voice channel v model ls)
                                 \<lparr>lv_label := Some (pr_label r), lv_profile := Some (pr_id r), lv_owner := pr_owner r\<rparr>) ls)
                              \<lparr>ls_by_profile := (ls_by_profile ls)((channel, p) \<mapsto> n)\<rparr>)))
               | None \<Rightarrow>
                   (case (case best_voice v model voices of Some (s, i) \<Rightarrow> if s \<ge> ls_cluster ls then Some i else None | None \<Rightarrow> None) of
                      Some i \<Rightarrow>
                        (Some (i, False),
                         ls\<lparr>ls_voices := (ls_voices ls)(channel := voices[i := (voices ! i)
                            \<lparr>lv_embedding := merge_vectors (lv_embedding (voices ! i)) (lv_n (voices ! i)) v 1,
                             lv_n := lv_n (voices ! i) + 1\<rparr>])\<rparr>)
                    | None \<Rightarrow> (Some (n, True), add_voice channel (new_voice channel v model ls) ls))))"

text \<open>
  What a running session keeps: the ids of a channel's voices are numbered in the order they were heard, a profile
  has one voice per channel, and the index of voices by profile names exactly those.
\<close>

definition live_inv :: "live_speakers \<Rightarrow> bool" where
  "live_inv ls \<longleftrightarrow> (\<forall>c. map lv_id (ls_voices ls c) = map (live_id c) [0..<length (ls_voices ls c)] \<and>
     (\<forall>i p. i < length (ls_voices ls c) \<and> lv_profile (ls_voices ls c ! i) = Some p \<longleftrightarrow> ls_by_profile ls (c, p) = Some i))"

lemma best_voice_sound:
  assumes "best_voice v model voices = Some (s, i)"
  shows "i < length voices \<and> lv_profile (voices ! i) = None"
proof -
  define step where "step = (\<lambda>(i :: nat, w :: live_voice) b. if lv_profile w = None \<and> lv_model w = model \<and> length (lv_embedding w) = length v
            then (case b of None \<Rightarrow> Some (cosine v (lv_embedding w), i)
                  | Some (s, j) \<Rightarrow> if s < cosine v (lv_embedding w) then Some (cosine v (lv_embedding w), i) else b)
            else b)"
  define ok where "ok b \<longleftrightarrow> (\<forall>s i. b = Some (s :: real, i) \<longrightarrow> i < length voices \<and> lv_profile (voices ! i) = None)" for b
  have "ok (step x b)" if "x \<in> set (zip [0..<length voices] voices)" "ok b" for x b
  proof -
    from that(1) obtain j where "x = (j, voices ! j)" "j < length voices" by (auto simp: set_zip)
    then show ?thesis using that(2) by (cases b) (auto simp: step_def ok_def split: if_splits)
  qed
  then have "ok (fold step xs b)" if "set xs \<subseteq> set (zip [0..<length voices] voices)" "ok b" for xs b
    using that by (induction xs arbitrary: b) auto
  from this [of "zip [0..<length voices] voices" None] assms show ?thesis
    unfolding best_voice_def step_def [symmetric] by (simp add: ok_def)
qed

lemma add_voice_inv:
  assumes "live_inv ls" "lv_id w = live_id c (length (ls_voices ls c))"
    "lv_profile w = None \<and> by' = ls_by_profile ls \<or>
     (\<exists>p. lv_profile w = Some p \<and> ls_by_profile ls (c, p) = None \<and> by' = (ls_by_profile ls)((c, p) \<mapsto> length (ls_voices ls c)))"
  shows "live_inv (add_voice c w ls\<lparr>ls_by_profile := by'\<rparr>)"
  unfolding live_inv_def
proof (intro allI conjI)
  fix d
  show "map lv_id (ls_voices (add_voice c w ls\<lparr>ls_by_profile := by'\<rparr>) d) =
      map (live_id d) [0..<length (ls_voices (add_voice c w ls\<lparr>ls_by_profile := by'\<rparr>) d)]"
    using assms(1,2) by (simp add: live_inv_def add_voice_def)
  fix i p
  have old: "i < length (ls_voices ls d) \<and> lv_profile (ls_voices ls d ! i) = Some p \<longleftrightarrow> ls_by_profile ls (d, p) = Some i" for i p d
    using assms(1) by (simp add: live_inv_def)
  then have none: "ls_by_profile ls (c, p) \<noteq> Some (length (ls_voices ls c))" for p by (metis less_irrefl)
  show "i < length (ls_voices (add_voice c w ls\<lparr>ls_by_profile := by'\<rparr>) d) \<and>
      lv_profile (ls_voices (add_voice c w ls\<lparr>ls_by_profile := by'\<rparr>) d ! i) = Some p \<longleftrightarrow>
      ls_by_profile (add_voice c w ls\<lparr>ls_by_profile := by'\<rparr>) (d, p) = Some i"
    using assms(3) old [of i d p] none [of p]
    by (auto simp: add_voice_def nth_append less_Suc_eq split: if_splits)
qed

lemma live_assign_cases:
  assumes "live_assign c v model ls = (r, ls')"
  obtains (same) "ls' = ls" "\<forall>i new. r = Some (i, new) \<longrightarrow> \<not> new \<and> (\<exists>p. ls_by_profile ls (c, p) = Some i)"
  | (known) w p where "r = Some (length (ls_voices ls c), True)" "ls_by_profile ls (c, p) = None" "lv_profile w = Some p"
      "lv_id w = live_id c (length (ls_voices ls c))"
      "ls' = add_voice c w ls\<lparr>ls_by_profile := (ls_by_profile ls)((c, p) \<mapsto> length (ls_voices ls c))\<rparr>"
  | (heard) i w where "r = Some (i, False)" "i < length (ls_voices ls c)" "lv_profile (ls_voices ls c ! i) = None"
      "lv_id w = lv_id (ls_voices ls c ! i)" "lv_profile w = None" "ls' = ls\<lparr>ls_voices := (ls_voices ls)(c := (ls_voices ls c)[i := w])\<rparr>"
  | (fresh) w where "r = Some (length (ls_voices ls c), True)" "lv_profile w = None" "lv_id w = live_id c (length (ls_voices ls c))"
      "ls' = add_voice c w ls"
proof (cases "\<forall>x \<in> set v. x = 0")
  case True
  then show thesis using assms by (intro same) (auto simp: live_assign_def)
next
  case nz: False
  show thesis
  proof (cases "hit_of ls v model")
    case (Some p)
    show thesis
    proof (cases "ls_by_profile ls (c, p)")
      case (Some i)
      then show thesis using assms nz \<open>hit_of ls v model = Some p\<close> by (intro same) (auto simp: live_assign_def)
    next
      case none: None
      show thesis
      proof (cases "find (\<lambda>r. pr_id r = p) (ls_profiles ls)")
        case None
        then show thesis using assms nz \<open>hit_of ls v model = Some p\<close> none by (intro same) (auto simp: live_assign_def)
      next
        case (Some q)
        then have "pr_id q = p" by (auto simp: find_Some_iff)
        then show thesis
          using assms nz \<open>hit_of ls v model = Some p\<close> none Some
          by (intro known [of p "(new_voice c v model ls)\<lparr>lv_label := Some (pr_label q), lv_profile := Some (pr_id q), lv_owner := pr_owner q\<rparr>"])
            (auto simp: live_assign_def Let_def new_voice_def)
      qed
    qed
  next
    case None
    show thesis
    proof (cases "case best_voice v model (ls_voices ls c) of Some (s, i) \<Rightarrow> if s \<ge> ls_cluster ls then Some i else None | None \<Rightarrow> None")
      case bn: None
      then show thesis using assms nz None by (intro fresh [of "new_voice c v model ls"]) (auto simp: live_assign_def Let_def new_voice_def)
    next
      case (Some i)
      then obtain s where "best_voice v model (ls_voices ls c) = Some (s, i)" by (auto split: option.splits if_splits)
      note b = best_voice_sound [OF this]
      define u where "u = ls_voices ls c ! i"
      show thesis
        using assms nz None Some b
        by (intro heard [of i "u\<lparr>lv_embedding := merge_vectors (lv_embedding u) (lv_n u) v 1, lv_n := lv_n u + 1\<rparr>"])
          (auto simp: live_assign_def Let_def u_def)
    qed
  qed
qed

text \<open>
  C34: the voices of a running session. Assigning a segment keeps the numbering of each channel's voices and gives
  every enrolled profile at most one voice per channel; the voice returned exists, and it is said
  to be new exactly when it was added at the end.
\<close>

theorem live_voices_inv:
  assumes "live_inv ls" "live_assign c v model ls = (r, ls')"
  shows "live_inv ls' \<and> (\<forall>i new. r = Some (i, new) \<longrightarrow> i < length (ls_voices ls' c) \<and>
     (if new then i = length (ls_voices ls c) \<and> length (ls_voices ls' c) = Suc i
      else length (ls_voices ls' c) = length (ls_voices ls c)))"
  using assms(2)
proof (cases rule: live_assign_cases)
  case same
  have "i < length (ls_voices ls c)" if "ls_by_profile ls (c, p) = Some i" for i p
    using assms(1) that unfolding live_inv_def by (elim allE [of _ c] conjE allE [of _ i] allE [of _ p]) simp
  then show ?thesis using same assms(1) by fastforce
next
  case (known w p)
  then show ?thesis using add_voice_inv [OF assms(1), of w c] by (simp add: add_voice_def)
next
  case (heard i w)
  have "map lv_id ((ls_voices ls c)[i := w]) = map lv_id (ls_voices ls c)"
    using heard(2,4) by (metis list_update_id map_update nth_map)
  moreover have "(j < length (ls_voices ls c) \<and> lv_profile ((ls_voices ls c)[i := w] ! j) = Some p) \<longleftrightarrow>
      (j < length (ls_voices ls c) \<and> lv_profile (ls_voices ls c ! j) = Some p)" for j p
    using heard by (cases "j = i") auto
  ultimately show ?thesis using assms(1) heard by (auto simp: live_inv_def)
next
  case (fresh w)
  then show ?thesis using add_voice_inv [OF assms(1), of w c "ls_by_profile ls"] by (simp add: add_voice_def)
qed

definition quiet_speakers :: live_speakers where
  "quiet_speakers = \<lparr>ls_profiles = [\<lparr>pr_id = ''p'', pr_label = ''Ann'', pr_owner = False, pr_model = ''m'', pr_vector = [1]\<rparr>],
     ls_cluster = 1 / 2, ls_match = 1 / 2, ls_margin = 1 / 10, ls_voices = (\<lambda>_. []), ls_by_profile = (\<lambda>_. None)\<rparr>"

theorem live_voices_inv_witness:
  "\<exists>ls'. live_assign ''mic'' [1] ''m'' quiet_speakers = (Some (0, True), ls') \<and> live_inv ls' \<and>
     map lv_id (ls_voices ls' ''mic'') = [''live_mic_0'']"
proof -
  have d: "dec_str 0 = ''0''" by code_simp
  have "match_voices [(''x'', [1])] [\<lparr>pf_id = ''p'', pf_vector = [1]\<rparr>] (1 / 2) (1 / 10) = [(''x'', ''p'')]"
    by (simp add: match_voices_def List.map_filter_def claim_of_def scores_of_def unit_cosine)
  then have h: "hit_of quiet_speakers [1] ''m'' = Some ''p''" by (simp add: hit_of_def quiet_speakers_def)
  define w where "w = (new_voice ''mic'' [1] ''m'' quiet_speakers)\<lparr>lv_label := Some ''Ann'', lv_profile := Some ''p'', lv_owner := False\<rparr>"
  define ls' where "ls' = add_voice ''mic'' w quiet_speakers\<lparr>ls_by_profile := (\<lambda>_. None)((''mic'', ''p'') \<mapsto> 0)\<rparr>"
  have q: "ls_by_profile quiet_speakers = (\<lambda>_. None)" "ls_voices quiet_speakers = (\<lambda>_. [])"
    "find (\<lambda>r. pr_id r = ''p'') (ls_profiles quiet_speakers) = Some \<lparr>pr_id = ''p'', pr_label = ''Ann'', pr_owner = False, pr_model = ''m'', pr_vector = [1]\<rparr>"
    by (simp_all add: quiet_speakers_def)
  have nz: "\<not> (\<forall>x \<in> set [1 :: real]. x = 0)" by simp
  have l: "live_assign ''mic'' [1] ''m'' quiet_speakers = (Some (0, True), ls')"
    unfolding live_assign_def if_not_P [OF nz] Let_def h q option.case by (simp add: ls'_def w_def)
  have ids: "map lv_id (ls_voices ls' ''mic'') = [''live_mic_0'']"
    by (simp add: ls'_def w_def add_voice_def new_voice_def q(2) live_id_def d)
  have "live_inv quiet_speakers" by (simp add: live_inv_def quiet_speakers_def)
  note inv = live_voices_inv [OF this l]
  show ?thesis by (rule exI [of _ ls'], intro conjI) (rule l, rule conjunct1 [OF inv], rule ids)
qed

end
