(* ===== verification/Trigger.thy ===== *)
theory Trigger
  imports Complex_Main
begin

text \<open>
  The desktop client's keys (linux/src/jarvis_desktop/trigger.py): the dictation trigger with its three modes, the
  hold-to-ask trigger, and \<open>Keys\<close>, which routes one keyboard to both. Times are seconds on one clock; the source's
  floats are read as real numbers. The locale \<open>lone_hold\<close> states what the two triggers have in common (a press, other
  input that spoils it, the threshold that begins it); it is interpreted on both.
\<close>

section \<open>Actions, modes and keys\<close>

datatype key_action = BEGIN | COMMIT | CANCEL | TOGGLE | TAP | DOUBLE_TAP | ASK_BEGIN | ASK_END

datatype trigger_mode = MODE_HOLD | MODE_TAP | MODE_DOUBLE_TAP

datatype trigger_key = KEY_OFF | RIGHT_CTRL | RIGHT_ALT | RIGHT_SHIFT | RIGHT_META

fun key_code :: "trigger_key \<Rightarrow> int option" where
  "key_code KEY_OFF = None"
| "key_code RIGHT_CTRL = Some 97"
| "key_code RIGHT_ALT = Some 100"
| "key_code RIGHT_SHIFT = Some 54"
| "key_code RIGHT_META = Some 126"

definition default_trigger_key :: trigger_key where
  "default_trigger_key = RIGHT_CTRL"

definition HOLD_THRESHOLD :: real where "HOLD_THRESHOLD = 2 / 10"
definition TAP_MAX_DURATION :: real where "TAP_MAX_DURATION = 35 / 100"
definition DOUBLE_TAP_GAP :: real where "DOUBLE_TAP_GAP = 4 / 10"
definition TOLERANCE :: real where "TOLERANCE = 1 / 100"

section \<open>The dictation trigger\<close>

record dictation_trigger =
  dt_key :: trigger_key
  dt_mode :: trigger_mode
  dt_pressed :: "real option"
  dt_chorded :: bool
  dt_began :: bool
  dt_last_tap :: "real option"

definition new_dictation :: "trigger_key \<Rightarrow> trigger_mode \<Rightarrow> dictation_trigger" where
  "new_dictation k m = \<lparr>dt_key = k, dt_mode = m, dt_pressed = None, dt_chorded = False, dt_began = False, dt_last_tap = None\<rparr>"

definition dt_is_pressed :: "dictation_trigger \<Rightarrow> bool" where
  "dt_is_pressed d \<longleftrightarrow> dt_pressed d \<noteq> None"

definition dt_key_down :: "real \<Rightarrow> dictation_trigger \<Rightarrow> key_action option \<times> dictation_trigger" where
  "dt_key_down t d = (if dt_key d = KEY_OFF \<or> dt_pressed d \<noteq> None then (None, d)
     else (None, d\<lparr>dt_pressed := Some t, dt_chorded := False, dt_began := False\<rparr>))"

definition dt_tick :: "real \<Rightarrow> dictation_trigger \<Rightarrow> key_action option \<times> dictation_trigger" where
  "dt_tick t d = (case dt_pressed d of
       None \<Rightarrow> (None, d)
     | Some p \<Rightarrow>
         if dt_mode d \<noteq> MODE_HOLD \<or> dt_chorded d \<or> dt_began d \<or> t - p < HOLD_THRESHOLD - TOLERANCE then (None, d)
         else (Some BEGIN, d\<lparr>dt_began := True\<rparr>))"

definition dt_key_up :: "real \<Rightarrow> dictation_trigger \<Rightarrow> key_action option \<times> dictation_trigger" where
  "dt_key_up t d = (case dt_pressed d of
       None \<Rightarrow> (None, d)
     | Some p \<Rightarrow>
         (let e = d\<lparr>dt_pressed := None\<rparr>;
              lone_tap = (\<not> dt_chorded d \<and> t - p \<le> TAP_MAX_DURATION)
          in case dt_mode d of
               MODE_HOLD \<Rightarrow> (if dt_began d then Some COMMIT else None, e\<lparr>dt_began := False\<rparr>)
             | MODE_TAP \<Rightarrow> (if lone_tap then Some TOGGLE else None, e)
             | MODE_DOUBLE_TAP \<Rightarrow>
                 if \<not> lone_tap then (None, e\<lparr>dt_last_tap := None\<rparr>)
                 else if (case dt_last_tap d of None \<Rightarrow> False | Some l \<Rightarrow> p - l \<le> DOUBLE_TAP_GAP)
                 then (Some DOUBLE_TAP, e\<lparr>dt_last_tap := None\<rparr>)
                 else (Some TAP, e\<lparr>dt_last_tap := Some t\<rparr>)))"

definition dt_other_input :: "dictation_trigger \<Rightarrow> key_action option \<times> dictation_trigger" where
  "dt_other_input d =
     (let e = d\<lparr>dt_last_tap := None\<rparr>
      in if dt_pressed d = None then (None, e)
         else if \<not> dt_began d then (None, e\<lparr>dt_chorded := True\<rparr>)
         else (Some CANCEL, e\<lparr>dt_chorded := True, dt_began := False\<rparr>))"

definition dt_escape :: "dictation_trigger \<Rightarrow> key_action option \<times> dictation_trigger" where
  "dt_escape d = (Some CANCEL, snd (dt_other_input d))"

section \<open>The ask trigger\<close>

record ask_trigger =
  at_key :: trigger_key
  at_pressed :: "real option"
  at_chorded :: bool
  at_began :: bool

definition new_ask :: "trigger_key \<Rightarrow> ask_trigger" where
  "new_ask k = \<lparr>at_key = k, at_pressed = None, at_chorded = False, at_began = False\<rparr>"

definition default_ask_key :: "trigger_key \<Rightarrow> trigger_key" where
  "default_ask_key dictation = (if dictation = RIGHT_ALT then RIGHT_META else RIGHT_ALT)"

definition at_is_pressed :: "ask_trigger \<Rightarrow> bool" where
  "at_is_pressed a \<longleftrightarrow> at_pressed a \<noteq> None"

definition at_key_down :: "real \<Rightarrow> ask_trigger \<Rightarrow> key_action option \<times> ask_trigger" where
  "at_key_down t a = (if at_key a = KEY_OFF \<or> at_pressed a \<noteq> None then (None, a)
     else (None, a\<lparr>at_pressed := Some t, at_chorded := False, at_began := False\<rparr>))"

definition at_tick :: "real \<Rightarrow> ask_trigger \<Rightarrow> key_action option \<times> ask_trigger" where
  "at_tick t a = (case at_pressed a of
       None \<Rightarrow> (None, a)
     | Some p \<Rightarrow>
         if at_chorded a \<or> at_began a \<or> t - p < HOLD_THRESHOLD - TOLERANCE then (None, a)
         else (Some ASK_BEGIN, a\<lparr>at_began := True\<rparr>))"

definition at_key_up :: "real \<Rightarrow> ask_trigger \<Rightarrow> key_action option \<times> ask_trigger" where
  "at_key_up t a = (if at_pressed a = None then (None, a)
     else (if at_began a then Some ASK_END else None, a\<lparr>at_pressed := None, at_began := False\<rparr>))"

definition at_other_input :: "ask_trigger \<Rightarrow> key_action option \<times> ask_trigger" where
  "at_other_input a = (None, if at_pressed a \<noteq> None \<and> \<not> at_began a then a\<lparr>at_chorded := True\<rparr> else a)"

definition at_escape :: "ask_trigger \<Rightarrow> key_action option \<times> ask_trigger" where
  "at_escape a = at_other_input a"

section \<open>One keyboard\<close>

record keys =
  ks_dictation :: dictation_trigger
  ks_ask :: ask_trigger

definition new_keys :: "dictation_trigger \<Rightarrow> ask_trigger \<Rightarrow> keys" where
  "new_keys d a = \<lparr>ks_dictation = d, ks_ask = (if at_key a = dt_key d then a\<lparr>at_key := KEY_OFF\<rparr> else a)\<rparr>"

definition ks_other_input :: "keys \<Rightarrow> key_action option \<times> keys" where
  "ks_other_input k =
     (let a = snd (at_other_input (ks_ask k));
          (r, d) = dt_other_input (ks_dictation k)
      in (r, k\<lparr>ks_dictation := d, ks_ask := a\<rparr>))"

definition ks_key_down :: "int \<Rightarrow> real \<Rightarrow> keys \<Rightarrow> key_action option \<times> keys" where
  "ks_key_down code t k =
     (if key_code (dt_key (ks_dictation k)) = Some code then
        (let a = snd (at_other_input (ks_ask k));
             (r, d) = dt_key_down t (ks_dictation k)
         in (r, k\<lparr>ks_ask := a, ks_dictation := (if at_is_pressed a then snd (dt_other_input d) else d)\<rparr>))
      else if key_code (at_key (ks_ask k)) = Some code then
        (let (r, d) = dt_other_input (ks_dictation k);
             a = snd (at_key_down t (ks_ask k))
         in (r, k\<lparr>ks_dictation := d, ks_ask := (if dt_is_pressed d then snd (at_other_input a) else a)\<rparr>))
      else ks_other_input k)"

definition ks_key_up :: "int \<Rightarrow> real \<Rightarrow> keys \<Rightarrow> key_action option \<times> keys" where
  "ks_key_up code t k =
     (if key_code (dt_key (ks_dictation k)) = Some code then
        (let (r, d) = dt_key_up t (ks_dictation k) in (r, k\<lparr>ks_dictation := d\<rparr>))
      else if key_code (at_key (ks_ask k)) = Some code then
        (let (r, a) = at_key_up t (ks_ask k) in (r, k\<lparr>ks_ask := a\<rparr>))
      else (None, k))"

definition ks_tick :: "real \<Rightarrow> keys \<Rightarrow> key_action option \<times> keys" where
  "ks_tick t k =
     (let (r, a) = at_tick t (ks_ask k)
      in case r of
           Some x \<Rightarrow> (Some x, k\<lparr>ks_ask := a\<rparr>)
         | None \<Rightarrow> (let (s, d) = dt_tick t (ks_dictation k) in (s, k\<lparr>ks_ask := a, ks_dictation := d\<rparr>)))"

definition ks_escape :: "keys \<Rightarrow> key_action option \<times> keys" where
  "ks_escape k =
     (let a = snd (at_escape (ks_ask k));
          (r, d) = dt_escape (ks_dictation k)
      in (r, k\<lparr>ks_dictation := d, ks_ask := a\<rparr>))"

text \<open>What a keyboard can send, and a run of it: the actions that came back, and the state left.\<close>

datatype key_event = Down int real | Up int real | Tick real | Other | Esc

fun ks_do :: "key_event \<Rightarrow> keys \<Rightarrow> key_action option \<times> keys" where
  "ks_do (Down c t) k = ks_key_down c t k"
| "ks_do (Up c t) k = ks_key_up c t k"
| "ks_do (Tick t) k = ks_tick t k"
| "ks_do Other k = ks_other_input k"
| "ks_do Esc k = ks_escape k"

fun ks_run :: "key_event list \<Rightarrow> keys \<Rightarrow> key_action list \<times> keys" where
  "ks_run [] k = ([], k)"
| "ks_run (e # es) k =
     (let (r, k') = ks_do e k; (rs, k'') = ks_run es k'
      in ((case r of None \<Rightarrow> rs | Some x \<Rightarrow> x # rs), k''))"

section \<open>What a lone hold is\<close>

text \<open>
  A press that was \<open>spoiled\<close> by other input stays so until its key goes up: nothing begins, and the release does
  nothing. A press that began answers its release with its end. Both triggers keep these laws.
\<close>

locale lone_hold =
  fixes down up tick :: "real \<Rightarrow> 't \<Rightarrow> key_action option \<times> 't"
    and other :: "'t \<Rightarrow> key_action option \<times> 't"
    and pressed_at :: "'t \<Rightarrow> real option"
    and chorded began holds :: "'t \<Rightarrow> bool"
    and begins ends :: key_action
  assumes down_held: "pressed_at s \<noteq> None \<Longrightarrow> down t s = (None, s)"
    and down_silent: "fst (down t s) = None"
    and tick_idle: "pressed_at s = None \<or> chorded s \<or> began s \<Longrightarrow> tick t s = (None, s)"
    and tick_begins: "tick t s = (Some x, s') \<Longrightarrow> x = begins \<and> pressed_at s' = pressed_at s \<and> began s' \<and> \<not> chorded s \<and> \<not> began s"
    and other_spoils: "pressed_at s \<noteq> None \<Longrightarrow> \<not> began s \<Longrightarrow>
      fst (other s) = None \<and> pressed_at (snd (other s)) = pressed_at s \<and> chorded (snd (other s)) \<and> \<not> began (snd (other s))"
    and up_releases: "pressed_at (snd (up t s)) = None"
    and up_ends: "pressed_at s \<noteq> None \<Longrightarrow> began s \<Longrightarrow> holds s \<Longrightarrow> fst (up t s) = Some ends \<and> \<not> began (snd (up t s))"
    and up_spoiled: "chorded s \<Longrightarrow> \<not> began s \<Longrightarrow> fst (up t s) = None"
begin

definition spoiled :: "'t \<Rightarrow> bool" where
  "spoiled s \<longleftrightarrow> pressed_at s \<noteq> None \<and> chorded s \<and> \<not> began s"

lemma spoiled_down: "spoiled s \<Longrightarrow> down t s = (None, s)"
  by (simp add: spoiled_def down_held)

lemma spoiled_tick: "spoiled s \<Longrightarrow> tick t s = (None, s)"
  by (simp add: spoiled_def tick_idle)

lemma spoiled_other: "spoiled s \<Longrightarrow> fst (other s) = None \<and> spoiled (snd (other s))"
  using other_spoils [of s] by (auto simp: spoiled_def)

lemma other_makes_spoiled: "pressed_at s \<noteq> None \<Longrightarrow> \<not> began s \<Longrightarrow> spoiled (snd (other s))"
  using other_spoils [of s] by (auto simp: spoiled_def)

lemma spoiled_up: "spoiled s \<Longrightarrow> fst (up t s) = None"
  by (simp add: spoiled_def up_spoiled)

text \<open>The events of one held key: autorepeat, timer and other input. A run of them stays silent once spoiled.\<close>

fun held_run :: "(real option \<times> bool) list \<Rightarrow> 't \<Rightarrow> key_action option list \<times> 't" where
  "held_run [] s = ([], s)"
| "held_run ((at_time, repeated) # es) s =
     (let (r, s') = (case at_time of None \<Rightarrow> other s | Some t \<Rightarrow> if repeated then down t s else tick t s);
          (rs, s'') = held_run es s'
      in (r # rs, s''))"

lemma spoiled_run:
  assumes "spoiled s" "held_run es s = (rs, s')"
  shows "set rs \<subseteq> {None} \<and> spoiled s' \<and> fst (up t s') = None"
  using assms
proof (induction es s arbitrary: rs rule: held_run.induct)
  case (1 s)
  then show ?case by (simp add: spoiled_up)
next
  case (2 at_time repeated es s)
  obtain s1 where st: "(case at_time of None \<Rightarrow> other s | Some t \<Rightarrow> if repeated then down t s else tick t s) = (None, s1)"
    "spoiled s1"
    using 2(2) spoiled_down [of s] spoiled_tick [of s] spoiled_other [of s]
    by (cases "other s"; cases at_time; cases repeated) auto
  obtain rs' where rs': "held_run es s1 = (rs', s')" "rs = None # rs'"
    using 2(3) st(1) by (auto split: prod.splits)
  have "set rs' \<subseteq> {None} \<and> spoiled s' \<and> fst (up t s') = None"
    by (rule 2(1) [OF st(1) [symmetric] refl st(2) rs'(1)])
  with rs'(2) show ?case by simp
qed

end

lemmas trigger_defs = dt_key_down_def dt_key_up_def dt_tick_def dt_other_input_def dt_escape_def
  at_key_down_def at_key_up_def at_tick_def at_other_input_def at_escape_def

text \<open>The dictation trigger keeps these laws in every mode; only in hold mode does a release end what began.\<close>

interpretation dictating: lone_hold dt_key_down dt_key_up dt_tick dt_other_input dt_pressed dt_chorded dt_began
    "\<lambda>d. dt_mode d = MODE_HOLD" BEGIN COMMIT
  by unfold_locales
    (auto simp: trigger_defs Let_def split: option.splits if_splits trigger_mode.splits)

interpretation asking: lone_hold at_key_down at_key_up at_tick at_other_input at_pressed at_chorded at_began
    "\<lambda>_. True" ASK_BEGIN ASK_END
  by unfold_locales (auto simp: trigger_defs split: option.splits if_splits)

section \<open>The protocol of the keyboard's actions\<close>

text \<open>
  What a controller may rely on: at most one of a dictation and an ask is going on; a \<open>COMMIT\<close> ends a dictation that
  began, an \<open>ASK_END\<close> an ask that began, and taps come only when neither is under way. A \<open>CANCEL\<close> may come at any
  time, because Esc always cancels.
\<close>

datatype grant = Idle | Dictating | Asking

fun grant_step :: "key_action \<Rightarrow> grant \<Rightarrow> grant option" where
  "grant_step BEGIN g = (if g = Idle then Some Dictating else None)"
| "grant_step COMMIT g = (if g = Dictating then Some Idle else None)"
| "grant_step CANCEL g = Some (if g = Dictating then Idle else g)"
| "grant_step ASK_BEGIN g = (if g = Idle then Some Asking else None)"
| "grant_step ASK_END g = (if g = Asking then Some Idle else None)"
| "grant_step TOGGLE g = (if g = Idle then Some Idle else None)"
| "grant_step TAP g = (if g = Idle then Some Idle else None)"
| "grant_step DOUBLE_TAP g = (if g = Idle then Some Idle else None)"

fun grant_run :: "key_action list \<Rightarrow> grant \<Rightarrow> grant option" where
  "grant_run [] g = Some g"
| "grant_run (x # xs) g = Option.bind (grant_step x g) (grant_run xs)"

definition grant_of :: "keys \<Rightarrow> grant" where
  "grant_of k = (if at_began (ks_ask k) then Asking else if dt_began (ks_dictation k) then Dictating else Idle)"

definition keys_ok :: "keys \<Rightarrow> bool" where
  "keys_ok k \<longleftrightarrow>
     (dt_began (ks_dictation k) \<longrightarrow>
        dt_pressed (ks_dictation k) \<noteq> None \<and> \<not> dt_chorded (ks_dictation k) \<and> dt_mode (ks_dictation k) = MODE_HOLD) \<and>
     (at_began (ks_ask k) \<longrightarrow> at_pressed (ks_ask k) \<noteq> None) \<and>
     (at_pressed (ks_ask k) \<noteq> None \<longrightarrow> at_key (ks_ask k) \<noteq> KEY_OFF) \<and>
     (dt_pressed (ks_dictation k) \<noteq> None \<longrightarrow> dt_key (ks_dictation k) \<noteq> KEY_OFF) \<and>
     (dt_pressed (ks_dictation k) \<noteq> None \<and> at_pressed (ks_ask k) \<noteq> None \<longrightarrow>
        dt_chorded (ks_dictation k) \<and> (at_chorded (ks_ask k) \<or> at_began (ks_ask k))) \<and>
     (at_key (ks_ask k) = dt_key (ks_dictation k) \<longrightarrow> at_key (ks_ask k) = KEY_OFF)"

lemma new_keys_ok: "keys_ok (new_keys (new_dictation dk m) (new_ask ak))"
  by (simp add: keys_ok_def new_keys_def new_dictation_def new_ask_def)

lemma key_code_inj: "key_code a = Some c \<Longrightarrow> key_code b = Some c \<Longrightarrow> a = b"
  by (cases a; cases b) auto

definition grants :: "keys \<Rightarrow> key_action option \<times> keys \<Rightarrow> bool" where
  "grants k rk \<longleftrightarrow> keys_ok (snd rk) \<and>
     (case fst rk of None \<Rightarrow> grant_of (snd rk) = grant_of k | Some x \<Rightarrow> grant_step x (grant_of k) = Some (grant_of (snd rk)))"

lemmas keyboard_defs = ks_key_down_def ks_key_up_def ks_tick_def ks_other_input_def ks_escape_def trigger_defs
  grants_def keys_ok_def grant_of_def Let_def dt_is_pressed_def at_is_pressed_def

lemma other_grants: "keys_ok k \<Longrightarrow> grants k (ks_other_input k)"
  by (auto simp: keyboard_defs split: option.splits if_splits)

lemma down_grants:
  assumes "keys_ok k"
  shows "grants k (ks_key_down c t k)"
proof (cases k)
  case (fields d a)
  consider (own) "key_code (dt_key d) = Some c" | (ask) "key_code (dt_key d) \<noteq> Some c" "key_code (at_key a) = Some c"
    | (other) "key_code (dt_key d) \<noteq> Some c" "key_code (at_key a) \<noteq> Some c" by blast
  then show ?thesis
  proof cases
    case own
    with assms show ?thesis unfolding fields
      by (cases "dt_pressed d"; cases "at_pressed a"; cases "dt_began d"; cases "at_began a"; cases "dt_key d = KEY_OFF")
        (simp_all add: keyboard_defs)
  next
    case ask
    with assms show ?thesis unfolding fields
      by (cases "dt_pressed d"; cases "at_pressed a"; cases "dt_began d"; cases "at_began a"; cases "at_key a = KEY_OFF")
        (simp_all add: keyboard_defs)
  next
    case other
    with assms have "ks_key_down c t k = ks_other_input k" by (simp add: fields ks_key_down_def)
    with other_grants [OF assms] show ?thesis by simp
  qed
qed

lemma up_grants:
  assumes "keys_ok k"
  shows "grants k (ks_key_up c t k)"
proof (cases k)
  case (fields d a)
  consider (own) "key_code (dt_key d) = Some c" | (ask) "key_code (dt_key d) \<noteq> Some c" "key_code (at_key a) = Some c"
    | (other) "key_code (dt_key d) \<noteq> Some c" "key_code (at_key a) \<noteq> Some c" by blast
  then show ?thesis
  proof cases
    case own
    have "grants k (let (r, d') = dt_key_up t d in (r, k\<lparr>ks_dictation := d'\<rparr>))"
    proof (cases "dt_pressed d")
      case None
      with assms show ?thesis by (simp add: keyboard_defs fields)
    next
      case (Some p)
      with assms show ?thesis
        by (cases "dt_mode d"; cases "dt_began d"; cases "dt_chorded d"; cases "t - p \<le> TAP_MAX_DURATION")
          (simp_all add: keyboard_defs fields split: option.split)
    qed
    with own show ?thesis by (simp add: ks_key_up_def fields)
  next
    case ask
    with assms show ?thesis unfolding fields
      by (cases "at_pressed a"; cases "at_began a"; cases "dt_began d") (simp_all add: keyboard_defs)
  next
    case other
    with assms show ?thesis by (simp add: fields ks_key_up_def grants_def)
  qed
qed

lemma tick_grants:
  assumes "keys_ok k"
  shows "grants k (ks_tick t k)"
proof (cases k)
  case (fields d a)
  with assms show ?thesis unfolding fields
    by (cases "dt_pressed d"; cases "at_pressed a"; cases "dt_began d"; cases "at_began a"; cases "at_chorded a";
        cases "dt_chorded d") (simp_all add: keyboard_defs)
qed

lemma escape_grants: "keys_ok k \<Longrightarrow> grants k (ks_escape k)"
  by (auto simp: keyboard_defs split: option.splits if_splits)

lemma ks_do_grants: "keys_ok k \<Longrightarrow> grants k (ks_do e k)"
  by (cases e) (simp_all add: down_grants up_grants tick_grants other_grants escape_grants)

section \<open>Runs of the keyboard\<close>

lemma ks_run_append:
  "ks_run (xs @ ys) k = (fst (ks_run xs k) @ fst (ks_run ys (snd (ks_run xs k))), snd (ks_run ys (snd (ks_run xs k))))"
  by (induction xs k rule: ks_run.induct) (auto simp: Let_def split: prod.splits option.splits)

lemma ks_run_Cons:
  "fst (ks_run (e # es) k) = (case fst (ks_do e k) of None \<Rightarrow> [] | Some x \<Rightarrow> [x]) @ fst (ks_run es (snd (ks_do e k)))"
  by (simp split: prod.split option.split)

lemma ks_run_grants:
  "keys_ok k \<Longrightarrow> keys_ok (snd (ks_run es k)) \<and> grant_run (fst (ks_run es k)) (grant_of k) = Some (grant_of (snd (ks_run es k)))"
proof (induction es arbitrary: k)
  case Nil
  then show ?case by simp
next
  case (Cons e es)
  obtain r k' where e: "ks_do e k = (r, k')" by (cases "ks_do e k")
  from ks_do_grants [OF Cons.prems, of e] have ok: "keys_ok k'"
    and g: "case r of None \<Rightarrow> grant_of k' = grant_of k | Some x \<Rightarrow> grant_step x (grant_of k) = Some (grant_of k')"
    by (cases r; simp add: grants_def e)+
  from Cons.IH [OF ok] g show ?case by (cases r) (auto simp: e split: prod.splits)
qed


text \<open>The events that are other input for the dictation key.\<close>

fun spoils :: "trigger_key \<Rightarrow> key_event \<Rightarrow> bool" where
  "spoils key (Down c t) \<longleftrightarrow> key_code key \<noteq> Some c"
| "spoils key (Up c t) \<longleftrightarrow> False"
| "spoils key (Tick t) \<longleftrightarrow> False"
| "spoils key Other \<longleftrightarrow> True"
| "spoils key Esc \<longleftrightarrow> True"

fun releases :: "trigger_key \<Rightarrow> key_event \<Rightarrow> bool" where
  "releases key (Up c t) \<longleftrightarrow> key_code key = Some c"
| "releases key _ \<longleftrightarrow> False"

definition chord_actions :: "key_action set" where
  "chord_actions = {BEGIN, COMMIT, TOGGLE, TAP, DOUBLE_TAP}"

abbreviation quiet :: "key_action option \<Rightarrow> bool" where
  "quiet r \<equiv> set_option r \<inter> chord_actions = {}"

lemma dt_other_input_quiet: "quiet (fst (dt_other_input d)) \<and> dt_key (snd (dt_other_input d)) = dt_key d"
  by (simp add: dt_other_input_def chord_actions_def Let_def)

lemma dt_key_down_quiet: "fst (dt_key_down t d) = None" "dt_key (snd (dt_key_down t d)) = dt_key d"
  by (simp_all add: dt_key_down_def)

lemma dt_key_up_key: "dt_key (snd (dt_key_up t d)) = dt_key d"
  by (simp add: dt_key_up_def Let_def split: option.split trigger_mode.split)

lemma at_results:
  "at_tick t a = (r, a') \<Longrightarrow> r = None \<or> r = Some ASK_BEGIN"
  "at_key_up t a = (r, a') \<Longrightarrow> r = None \<or> r = Some ASK_END"
  by (auto simp: at_tick_def at_key_up_def split: option.splits if_splits)

lemma other_spoils_dictation:
  assumes "dt_pressed d \<noteq> None" "dt_began d \<longrightarrow> \<not> dt_chorded d"
  shows "dictating.spoiled (snd (dt_other_input d))"
  using assms by (auto simp: dictating.spoiled_def dt_other_input_def Let_def)

lemma spoiling_event:
  assumes "keys_ok k" "dt_pressed (ks_dictation k) \<noteq> None" "spoils (dt_key (ks_dictation k)) e" "ks_do e k = (r, k')"
  shows "quiet r \<and> dictating.spoiled (ks_dictation k') \<and> dt_key (ks_dictation k') = dt_key (ks_dictation k)"
proof -
  let ?d = "ks_dictation k"
  have s: "dictating.spoiled (snd (dt_other_input ?d))"
    using assms(1,2) by (intro other_spoils_dictation) (auto simp: keys_ok_def)
  show ?thesis
    using assms(3,4) s dt_other_input_quiet [of ?d]
    by (cases e; cases "dt_other_input ?d")
      (auto simp: ks_key_down_def ks_other_input_def ks_escape_def dt_escape_def chord_actions_def Let_def split: if_splits prod.splits)
qed

lemma spoiled_event:
  assumes "dictating.spoiled (ks_dictation k)" "\<not> releases (dt_key (ks_dictation k)) e" "ks_do e k = (r, k')"
  shows "quiet r \<and> dictating.spoiled (ks_dictation k') \<and> dt_key (ks_dictation k') = dt_key (ks_dictation k)"
proof -
  let ?d = "ks_dictation k"
  note laws = dictating.spoiled_down [OF assms(1)] dictating.spoiled_tick [OF assms(1)] dictating.spoiled_other [OF assms(1)]
  show ?thesis
    using assms laws dt_other_input_quiet [of ?d]
    by (cases e; cases "dt_other_input ?d")
      (auto simp: ks_key_down_def ks_key_up_def ks_tick_def ks_other_input_def ks_escape_def dt_escape_def chord_actions_def Let_def
        split: if_splits prod.splits option.splits dest!: at_results)
qed

lemma spoiled_run_quiet:
  assumes "dictating.spoiled (ks_dictation k)" "\<forall>e \<in> set es. \<not> releases (dt_key (ks_dictation k)) e"
  shows "set (fst (ks_run es k)) \<inter> chord_actions = {} \<and> dictating.spoiled (ks_dictation (snd (ks_run es k))) \<and>
    dt_key (ks_dictation (snd (ks_run es k))) = dt_key (ks_dictation k)"
  using assms
proof (induction es arbitrary: k)
  case Nil
  then show ?case by simp
next
  case (Cons e es)
  obtain r k' where e: "ks_do e k = (r, k')" by (cases "ks_do e k")
  from Cons.prems(2) have ne: "\<not> releases (dt_key (ks_dictation k)) e" by simp
  note s = spoiled_event [OF Cons.prems(1) ne e]
  with Cons.prems(2) have "\<forall>e \<in> set es. \<not> releases (dt_key (ks_dictation k')) e" by simp
  from Cons.IH [OF _ this] s show ?case by (cases r) (auto simp: e split: prod.splits)
qed

text \<open>
  A chord never dictates. Once any other key, mouse button or Esc comes while the dictation key is held, that press
  begins nothing and its release commits, toggles and taps nothing, in every mode and whatever follows until then.
\<close>

theorem chord_never_dictates:
  assumes "keys_ok k" "dt_pressed (ks_dictation k) \<noteq> None" "key_code (dt_key (ks_dictation k)) = Some c"
    and "spoils (dt_key (ks_dictation k)) e" "\<forall>e' \<in> set es. \<not> releases (dt_key (ks_dictation k)) e'"
  shows "set (fst (ks_run (e # es @ [Up c t]) k)) \<inter> chord_actions = {}"
proof -
  obtain r k1 where e: "ks_do e k = (r, k1)" by (cases "ks_do e k")
  have s: "quiet r" "dictating.spoiled (ks_dictation k1)" "dt_key (ks_dictation k1) = dt_key (ks_dictation k)"
    using spoiling_event [OF assms(1,2,4) e] by simp_all
  define k2 where "k2 = snd (ks_run es k1)"
  have run: "set (fst (ks_run es k1)) \<inter> chord_actions = {}" "dictating.spoiled (ks_dictation k2)"
    "dt_key (ks_dictation k2) = dt_key (ks_dictation k)"
    using spoiled_run_quiet [OF s(2), of es] s(3) assms(5) by (simp_all add: k2_def)
  have up: "fst (ks_do (Up c t) k2) = None"
    using dictating.spoiled_up [OF run(2), of t] run(3) assms(3)
    by (auto simp: ks_key_up_def split: prod.splits)
  have "set (fst (ks_run [Up c t] k2)) = {}" using up by (auto split: prod.splits)
  moreover have "set (fst (ks_run (e # es @ [Up c t]) k)) =
      set_option r \<union> set (fst (ks_run es k1)) \<union> set (fst (ks_run [Up c t] k2))"
    by (simp only: ks_run_Cons ks_run_append e fst_conv snd_conv k2_def set_append) (cases r; simp)
  ultimately show ?thesis using s(1) run(1) by auto
qed

definition held_keys :: keys where
  "held_keys = snd (ks_run [Down 97 1, Tick (13 / 10)] (new_keys (new_dictation RIGHT_CTRL MODE_HOLD) (new_ask RIGHT_ALT)))"

lemma held_keys:
  "ks_dictation held_keys = (new_dictation RIGHT_CTRL MODE_HOLD)\<lparr>dt_pressed := Some 1, dt_began := True\<rparr>"
  "ks_ask held_keys = new_ask RIGHT_ALT"
  by (simp_all add: held_keys_def new_keys_def new_dictation_def new_ask_def ks_key_down_def ks_tick_def trigger_defs
      HOLD_THRESHOLD_def TOLERANCE_def Let_def at_is_pressed_def)

theorem chord_never_dictates_witness:
  "set (fst (ks_run (Down 46 (14 / 10) # [Tick (15 / 10)] @ [Up 97 (16 / 10)]) held_keys)) \<inter> chord_actions = {}"
  by (rule chord_never_dictates)
    (simp_all add: held_keys keys_ok_def new_dictation_def new_ask_def)

text \<open>An ask that began is left alone by everything but its own release.\<close>

lemma asking_event:
  assumes "keys_ok k" "at_began (ks_ask k)" "\<not> releases (at_key (ks_ask k)) e" "ks_do e k = (r, k')"
  shows "(r = None \<or> r = Some CANCEL) \<and> at_began (ks_ask k') \<and> at_key (ks_ask k') = at_key (ks_ask k)"
proof -
  have ask: "at_began (ks_ask k') \<and> at_key (ks_ask k') = at_key (ks_ask k)"
    using assms by (cases e) (auto simp: ks_key_down_def ks_key_up_def ks_tick_def ks_other_input_def ks_escape_def
      at_key_down_def at_tick_def at_other_input_def at_escape_def keys_ok_def Let_def split: if_splits prod.splits option.splits)
  with ks_do_grants [OF assms(1), of e] assms(2,4) show ?thesis
    by (cases r; cases "the r") (auto simp: grants_def grant_of_def split: if_splits)
qed

lemma asking_run:
  assumes "keys_ok k" "at_began (ks_ask k)" "\<forall>e \<in> set es. \<not> releases (at_key (ks_ask k)) e"
  shows "set (fst (ks_run es k)) \<subseteq> {CANCEL} \<and> at_began (ks_ask (snd (ks_run es k))) \<and>
    at_key (ks_ask (snd (ks_run es k))) = at_key (ks_ask k)"
  using assms
proof (induction es arbitrary: k)
  case Nil
  then show ?case by simp
next
  case (Cons e es)
  obtain r k' where e: "ks_do e k = (r, k')" by (cases "ks_do e k")
  from Cons.prems(3) have ne: "\<not> releases (at_key (ks_ask k)) e" by simp
  note a = asking_event [OF Cons.prems(1,2) ne e]
  have ok: "keys_ok k'" using ks_do_grants [OF Cons.prems(1), of e] by (simp add: grants_def e)
  from a Cons.prems(3) have "\<forall>e \<in> set es. \<not> releases (at_key (ks_ask k')) e" by simp
  from Cons.IH [OF ok _ this] a show ?case by (cases r) (auto simp: e split: prod.splits)
qed

text \<open>
  An ask that began always ends with the release of its key, and with nothing else: other keys, Esc and the
  dictation key neither cancel it nor start a dictation under it.
\<close>

theorem begun_ask_ends:
  assumes "keys_ok k" "at_began (ks_ask k)" "key_code (at_key (ks_ask k)) = Some c"
    and "\<forall>e \<in> set es. \<not> releases (at_key (ks_ask k)) e"
  shows "\<exists>xs. fst (ks_run (es @ [Up c t]) k) = xs @ [ASK_END] \<and> set xs \<subseteq> {CANCEL}"
proof -
  define k1 where "k1 = snd (ks_run es k)"
  have run: "set (fst (ks_run es k)) \<subseteq> {CANCEL}" "at_began (ks_ask k1)" "at_key (ks_ask k1) = at_key (ks_ask k)"
    using asking_run [OF assms(1,2,4)] by (simp_all add: k1_def)
  have ok: "keys_ok k1" using ks_run_grants [OF assms(1), of es] by (simp add: k1_def)
  have ne: "key_code (dt_key (ks_dictation k1)) \<noteq> Some c"
    using ok run(3) assms(3) key_code_inj [of "at_key (ks_ask k1)" c "dt_key (ks_dictation k1)"] by (auto simp: keys_ok_def)
  have "fst (ks_do (Up c t) k1) = Some ASK_END"
    using asking.up_ends [of "ks_ask k1" t] ok run(2,3) ne assms(3)
    by (auto simp: ks_key_up_def keys_ok_def split: prod.splits)
  then have "fst (ks_run [Up c t] k1) = [ASK_END]" by (auto split: prod.splits)
  with run(1) show ?thesis by (simp add: ks_run_append k1_def del: ks_run.simps(2))
qed

definition held_ask :: keys where
  "held_ask = snd (ks_run [Down 100 1, Tick (13 / 10)] (new_keys (new_dictation RIGHT_CTRL MODE_TAP) (new_ask RIGHT_ALT)))"

lemma held_ask:
  "ks_dictation held_ask = new_dictation RIGHT_CTRL MODE_TAP"
  "ks_ask held_ask = (new_ask RIGHT_ALT)\<lparr>at_pressed := Some 1, at_began := True\<rparr>"
  by (simp_all add: held_ask_def new_keys_def new_dictation_def new_ask_def ks_key_down_def ks_tick_def trigger_defs
      HOLD_THRESHOLD_def TOLERANCE_def Let_def dt_is_pressed_def)

theorem begun_ask_ends_witness:
  "\<exists>xs. fst (ks_run ([Down 97 (14 / 10), Esc, Up 97 (15 / 10)] @ [Up 100 2]) held_ask) = xs @ [ASK_END] \<and> set xs \<subseteq> {CANCEL}"
  by (rule begun_ask_ends) (simp_all add: held_ask keys_ok_def new_dictation_def new_ask_def)

section \<open>Lone presses\<close>

definition long_enough :: "real \<Rightarrow> real list \<Rightarrow> bool" where
  "long_enough t0 ts \<longleftrightarrow> list_ex (\<lambda>t. HOLD_THRESHOLD - TOLERANCE \<le> t - t0) ts"

lemma hold_ticks:
  assumes "dt_pressed (ks_dictation k) = Some t0" "\<not> dt_chorded (ks_dictation k)" "dt_mode (ks_dictation k) = MODE_HOLD"
    and "at_pressed (ks_ask k) = None"
  shows "ks_run (map Tick ts) k =
    (if \<not> dt_began (ks_dictation k) \<and> long_enough t0 ts then [BEGIN] else [],
     k\<lparr>ks_dictation := (ks_dictation k)\<lparr>dt_began := dt_began (ks_dictation k) \<or> long_enough t0 ts\<rparr>\<rparr>)"
  using assms
proof (induction ts arbitrary: k)
  case Nil
  then show ?case by (simp add: long_enough_def)
next
  case (Cons t ts)
  have tick: "ks_tick t k =
     (if \<not> dt_began (ks_dictation k) \<and> long_enough t0 [t] then Some BEGIN else None,
      k\<lparr>ks_dictation := (ks_dictation k)\<lparr>dt_began := dt_began (ks_dictation k) \<or> long_enough t0 [t]\<rparr>\<rparr>)"
    using Cons.prems by (auto simp: ks_tick_def trigger_defs long_enough_def)
  have "long_enough t0 (t # ts) \<longleftrightarrow> long_enough t0 [t] \<or> long_enough t0 ts" by (simp add: long_enough_def)
  with Cons.prems show ?case by (simp add: tick Cons.IH)
qed

text \<open>
  A lone press of the dictation key in hold mode dictates exactly when the timer found it held for the threshold,
  and then begins once and commits on release; a shorter press does nothing.
\<close>

theorem lone_hold_dictates:
  assumes "keys_ok k" "dt_mode (ks_dictation k) = MODE_HOLD" "dt_pressed (ks_dictation k) = None"
    and "at_pressed (ks_ask k) = None" "key_code (dt_key (ks_dictation k)) = Some c"
  shows "fst (ks_run (Down c t0 # map Tick ts @ [Up c t1]) k) = (if long_enough t0 ts then [BEGIN, COMMIT] else [])"
proof -
  have "dt_key (ks_dictation k) \<noteq> KEY_OFF" using assms(5) by auto
  then have down: "ks_do (Down c t0) k = (None, k\<lparr>ks_dictation := (ks_dictation k)
      \<lparr>dt_pressed := Some t0, dt_chorded := False, dt_began := False\<rparr>\<rparr>)"
    using assms by (cases k) (simp add: ks_key_down_def trigger_defs at_is_pressed_def)
  define k1 where "k1 = k\<lparr>ks_dictation := (ks_dictation k)\<lparr>dt_pressed := Some t0, dt_chorded := False, dt_began := False\<rparr>\<rparr>"
  have ticks: "ks_run (map Tick ts) k1 = (if long_enough t0 ts then [BEGIN] else [],
      k1\<lparr>ks_dictation := (ks_dictation k1)\<lparr>dt_began := long_enough t0 ts\<rparr>\<rparr>)"
    using hold_ticks [of k1 t0 ts] assms(2,4) by (simp add: k1_def)
  have "fst (ks_run (Down c t0 # map Tick ts @ [Up c t1]) k) = fst (ks_run (map Tick ts @ [Up c t1]) k1)"
    unfolding ks_run_Cons by (simp only: down k1_def) simp
  also have "\<dots> = (if long_enough t0 ts then [BEGIN, COMMIT] else [])"
    using assms(2,5) by (simp add: ks_run_append ticks ks_key_up_def dt_key_up_def Let_def) (simp add: k1_def)
  finally show ?thesis .
qed

theorem lone_hold_dictates_witness:
  "fst (ks_run (Down 97 1 # map Tick [11 / 10, 13 / 10] @ [Up 97 2])
     (new_keys (new_dictation RIGHT_CTRL MODE_HOLD) (new_ask RIGHT_ALT))) = [BEGIN, COMMIT]"
proof -
  let ?k = "new_keys (new_dictation RIGHT_CTRL MODE_HOLD) (new_ask RIGHT_ALT)"
  have "fst (ks_run (Down 97 1 # map Tick [11 / 10, 13 / 10] @ [Up 97 2]) ?k) =
      (if long_enough 1 [11 / 10, 13 / 10] then [BEGIN, COMMIT] else [])"
    by (rule lone_hold_dictates [OF new_keys_ok]) (simp_all add: new_keys_def new_dictation_def new_ask_def)
  then show ?thesis by (simp add: long_enough_def HOLD_THRESHOLD_def TOLERANCE_def del: ks_run.simps)
qed

text \<open>In double-tap mode the second of two short presses close together is the double tap; any other is a tap of its own.\<close>

definition short :: "real \<Rightarrow> real \<Rightarrow> bool" where
  "short p u \<longleftrightarrow> u - p \<le> TAP_MAX_DURATION"

lemma two_taps:
  assumes "dt_mode (ks_dictation k) = MODE_DOUBLE_TAP" "dt_pressed (ks_dictation k) = None" "dt_last_tap (ks_dictation k) = None"
    and "at_pressed (ks_ask k) = None" "key_code (dt_key (ks_dictation k)) = Some c"
  shows "fst (ks_run [Down c p1, Up c u1, Down c p2, Up c u2] k) =
    (if short p1 u1 then [TAP] else []) @
    (if short p2 u2 then if short p1 u1 \<and> p2 - u1 \<le> DOUBLE_TAP_GAP then [DOUBLE_TAP] else [TAP] else [])"
  using assms by (cases "dt_key (ks_dictation k) = KEY_OFF")
    (auto simp: ks_key_down_def ks_key_up_def trigger_defs Let_def at_is_pressed_def short_def)

end
