(* ===== verification/Tiers.thy ===== *)
theory Tiers
  imports PyText
begin

text \<open>
  The Whisper tiers (server/src/jarvis_live/stt/tiers.py): parsing \<open>WHISPER_TIERS\<close>, the health probes, and requests
  that fall through the tiers in order. The HTTP client is a parameter: \<open>get\<close> answers a probe's url, \<open>post\<close> a
  transcription request; clock readings are arguments. A call is one step: calls of different sessions do not interleave.
\<close>

section \<open>The tier list\<close>

record tier =
  ti_name :: string
  ti_endpoint :: string
  ti_model :: string

datatype tier_error = Bad_Fields nat | Bad_Endpoint nat | Duplicate_Tier nat

text \<open>\<open>s.splitlines()\<close>: the characters below 256 that end a line, carriage return and line feed being one end.\<close>

definition is_break :: "char \<Rightarrow> bool" where
  "is_break c \<longleftrightarrow> (let n = of_char c :: nat in n = 133 \<or> 10 \<le> n \<and> n \<le> 13 \<or> 28 \<le> n \<and> n \<le> 30)"

fun lines_go :: "string \<Rightarrow> string \<Rightarrow> string list" where
  "lines_go acc [] = (if acc = [] then [] else [rev acc])"
| "lines_go acc (c # cs) =
     (if is_break c
      then rev acc # (case cs of [] \<Rightarrow> [] | d # ds \<Rightarrow>
             if c = char_of (13 :: nat) \<and> d = char_of (10 :: nat) then lines_go [] ds else lines_go [] (d # ds))
      else lines_go (c # acc) cs)"

definition splitlines :: "string \<Rightarrow> string list" where
  "splitlines s = lines_go [] s"

definition is_http :: "string \<Rightarrow> bool" where
  "is_http e \<longleftrightarrow> startswith e ''http://'' \<or> startswith e ''https://''"

fun parse_lines :: "nat \<Rightarrow> tier list \<Rightarrow> string list \<Rightarrow> tier_error + tier list" where
  "parse_lines n tiers [] = Inr tiers"
| "parse_lines n tiers (raw # rest) =
     (let line = strip raw in
      if line = [] \<or> startswith line ''#'' then parse_lines (Suc n) tiers rest
      else case split_ws line of
        [name, endpoint, model] \<Rightarrow>
          if \<not> is_http endpoint then Inl (Bad_Endpoint n)
          else if name \<in> set (map ti_name tiers) then Inl (Duplicate_Tier n)
          else parse_lines (Suc n) (tiers @ [\<lparr>ti_name = name, ti_endpoint = rstrip_of ''/'' endpoint, ti_model = model\<rparr>]) rest
      | _ \<Rightarrow> Inl (Bad_Fields n))"

definition parse_tiers :: "string \<Rightarrow> tier_error + tier list" where
  "parse_tiers spec = parse_lines 1 [] (splitlines spec)"

section \<open>The pool\<close>

record pool =
  tp_tiers :: "tier list"
  tp_healthy :: "string \<Rightarrow> bool"
  tp_probed :: bool
  tp_exhausted :: bool
  tp_answering :: bool
  tp_fault :: "(real \<times> real) option"

definition new_pool :: "tier list \<Rightarrow> pool" where
  "new_pool tiers = \<lparr>tp_tiers = tiers, tp_healthy = (\<lambda>_. False), tp_probed = False, tp_exhausted = False,
     tp_answering = False, tp_fault = None\<rparr>"

definition current_tier :: "pool \<Rightarrow> string option" where
  "current_tier p = map_option ti_name (find (\<lambda>t. tp_healthy p (ti_name t)) (tp_tiers p))"

definition fault_s :: "pool \<Rightarrow> real" where
  "fault_s p = (case tp_fault p of None \<Rightarrow> 0 | Some (first, latest) \<Rightarrow> latest - first)"

text \<open>\<open>get url\<close> is \<open>None\<close> for an \<open>HTTPError\<close>, else whether the answer is a success.\<close>

definition removesuffix :: "string \<Rightarrow> string \<Rightarrow> string" where
  "removesuffix suf s = (if suf \<noteq> [] \<and> length suf \<le> length s \<and> drop (length s - length suf) s = suf
     then take (length s - length suf) s else s)"

definition probe_urls :: "tier \<Rightarrow> string list" where
  "probe_urls t = [ti_endpoint t @ ''/models'', ti_endpoint t @ ''/health'', removesuffix ''/v1'' (ti_endpoint t) @ ''/health'']"

definition probe :: "(string \<Rightarrow> bool option) \<Rightarrow> tier \<Rightarrow> bool" where
  "probe get t = list_ex (\<lambda>u. get u = Some True) (probe_urls t)"

fun set_health :: "(string \<Rightarrow> bool option) \<Rightarrow> tier list \<Rightarrow> (string \<Rightarrow> bool) \<Rightarrow> string \<Rightarrow> bool" where
  "set_health get [] h = h"
| "set_health get (t # ts) h = set_health get ts (h(ti_name t := probe get t))"

definition probe_all :: "(string \<Rightarrow> bool option) \<Rightarrow> pool \<Rightarrow> pool" where
  "probe_all get p =
     (let answering = list_ex (probe get) (tp_tiers p)
      in p\<lparr>tp_healthy := set_health get (tp_tiers p) (tp_healthy p), tp_probed := True, tp_exhausted := False,
           tp_answering := answering, tp_fault := (if answering then tp_fault p else None)\<rparr>)"

text \<open>What a transcription request comes to. \<open>Not_An_Object\<close> is a JSON answer that cannot be indexed by a key.\<close>

datatype response = Http_Error | Not_Json | Not_An_Object | Missing_Text | Text_Not_String | Said string

datatype stt_attempt = Failed | Raised | Text string

record post =
  po_url :: string
  po_model :: string
  po_prompt :: "string option"
  po_wav :: "nat list"

definition request :: "(post \<Rightarrow> response) \<Rightarrow> tier \<Rightarrow> nat list \<Rightarrow> string \<Rightarrow> stt_attempt" where
  "request http t wav prompt =
     (case http \<lparr>po_url = ti_endpoint t @ ''/audio/transcriptions'', po_model = ti_model t,
                 po_prompt = (if prompt = [] then None else Some prompt), po_wav = wav\<rparr> of
        Said text \<Rightarrow> Text (strip text)
      | Not_An_Object \<Rightarrow> Raised
      | _ \<Rightarrow> Failed)"

datatype served = Served string string | Unavailable | Type_Error

definition fail_tier :: "tier \<Rightarrow> pool \<Rightarrow> pool" where
  "fail_tier t p = p\<lparr>tp_healthy := (tp_healthy p)(ti_name t := False)\<rparr>"

text \<open>The loop over the tiers; with the result, the tiers that were asked.\<close>

fun try_tiers :: "(tier \<Rightarrow> stt_attempt) \<Rightarrow> real \<Rightarrow> tier list \<Rightarrow> pool \<Rightarrow> served \<times> tier list \<times> pool" where
  "try_tiers req now [] p =
     (Unavailable, [],
      (if tp_answering p
       then p\<lparr>tp_exhausted := True, tp_fault := Some (case tp_fault p of None \<Rightarrow> now | Some (first, _) \<Rightarrow> first, now)\<rparr>
       else p\<lparr>tp_exhausted := True\<rparr>))"
| "try_tiers req now (t # ts) p =
     (case req t of
        Text text \<Rightarrow> (Served text (ti_name t), [t], p\<lparr>tp_fault := None\<rparr>)
      | Raised \<Rightarrow> (Type_Error, [t], p)
      | Failed \<Rightarrow> (let (r, asked, p') = try_tiers req now ts (fail_tier t p) in (r, t # asked, p')))"

definition healthy_tiers :: "pool \<Rightarrow> tier list" where
  "healthy_tiers p = filter (\<lambda>t. tp_healthy p (ti_name t)) (tp_tiers p)"

definition stt_transcribe ::
  "(string \<Rightarrow> bool option) \<Rightarrow> (post \<Rightarrow> response) \<Rightarrow> nat list \<Rightarrow> string \<Rightarrow> real \<Rightarrow> pool \<Rightarrow> served \<times> tier list \<times> pool" where
  "stt_transcribe get http wav prompt now p0 =
     (let p = (if tp_probed p0 then p0 else probe_all get p0);
          healthy = healthy_tiers p
      in if healthy = [] \<and> tp_exhausted p then (Unavailable, [], p)
         else try_tiers (\<lambda>t. request http t wav prompt) now (if healthy = [] then tp_tiers p else healthy) p)"

section \<open>Parsing\<close>

definition render_tier :: "tier \<Rightarrow> string" where
  "render_tier t = join '' '' [ti_name t, ti_endpoint t, ti_model t]"

definition render_tiers :: "tier list \<Rightarrow> string" where
  "render_tiers ts = join [char_of (10 :: nat)] (map render_tier ts)"

definition good_tier :: "tier \<Rightarrow> bool" where
  "good_tier t \<longleftrightarrow> is_token (ti_name t) \<and> is_token (ti_endpoint t) \<and> is_token (ti_model t) \<and>
     hd (ti_name t) \<noteq> CHR ''#'' \<and> is_http (ti_endpoint t) \<and> rstrip_of ''/'' (ti_endpoint t) = ti_endpoint t"

lemma break_is_space: "is_break c \<Longrightarrow> is_space c"
  by (auto simp: is_break_def is_space_def Let_def)

lemma lf_break: "is_break (char_of (10 :: nat))" "char_of (10 :: nat) \<noteq> (char_of (13 :: nat) :: char)"
  by (simp_all add: is_break_def of_char_of char_of_eq_iff)

lemma lines_go_last: "\<forall>c \<in> set w. \<not> is_break c \<Longrightarrow> lines_go acc w = (if acc @ w = [] then [] else [rev acc @ w])"
  by (induction w arbitrary: acc) auto

lemma lines_go_lf:
  "\<forall>c \<in> set w. \<not> is_break c \<Longrightarrow> lines_go acc (w @ char_of (10 :: nat) # rest) = (rev acc @ w) # lines_go [] rest"
  using lf_break by (induction w arbitrary: acc) (auto split: list.split)

lemma splitlines_join:
  assumes "\<forall>w \<in> set ws. w \<noteq> [] \<and> (\<forall>c \<in> set w. \<not> is_break c)"
  shows "splitlines (join [char_of (10 :: nat)] ws) = ws"
  using assms unfolding splitlines_def
  by (induction ws rule: induct_list012) (auto simp: lines_go_last lines_go_lf)

lemma token_ends: "is_token w \<Longrightarrow> w \<noteq> [] \<and> \<not> is_space (hd w) \<and> \<not> is_space (last w)"
  by (simp add: is_token_def)

lemma strip_same: "s \<noteq> [] \<Longrightarrow> \<not> is_space (hd s) \<Longrightarrow> \<not> is_space (last s) \<Longrightarrow> strip s = s"
proof -
  assume s: "s \<noteq> []" "\<not> is_space (hd s)" "\<not> is_space (last s)"
  then have l: "dropWhile is_space s = s" by (cases s) auto
  have "dropWhile is_space (rev s) = rev s" using s by (cases s rule: rev_cases) auto
  then show "strip s = s" unfolding strip_def l by simp
qed

lemma render_tier_line:
  assumes "good_tier t"
  shows "render_tier t \<noteq> []" "\<forall>c \<in> set (render_tier t). \<not> is_break c" "strip (render_tier t) = render_tier t"
    "\<not> startswith (render_tier t) ''#''" "split_ws (render_tier t) = [ti_name t, ti_endpoint t, ti_model t]"
proof -
  have t: "is_token (ti_name t)" "is_token (ti_endpoint t)" "is_token (ti_model t)" "hd (ti_name t) \<noteq> CHR ''#''"
    using assms by (simp_all add: good_tier_def)
  note e = token_ends [OF t(1)] token_ends [OF t(3)]
  show ne: "render_tier t \<noteq> []" using e by (simp add: render_tier_def)
  have h: "hd (render_tier t) = hd (ti_name t)" using e by (simp add: render_tier_def)
  have l: "last (render_tier t) = last (ti_model t)" using e by (simp add: render_tier_def)
  show "strip (render_tier t) = render_tier t" using strip_same [OF ne] h l e by simp
  have "\<not> is_break CHR '' ''" by (simp add: is_break_def)
  with t show "\<forall>c \<in> set (render_tier t). \<not> is_break c"
    using break_is_space by (fastforce simp: render_tier_def is_token_def)
  show "\<not> startswith (render_tier t) ''#''" using ne h t(4) by (cases "render_tier t") auto
  show "split_ws (render_tier t) = [ti_name t, ti_endpoint t, ti_model t]"
    unfolding render_tier_def using t by (intro split_join) auto
qed

lemma parse_rendered:
  assumes "\<forall>t \<in> set ts. good_tier t" "distinct (map ti_name (seen @ ts))"
  shows "parse_lines n seen (map render_tier ts) = Inr (seen @ ts)"
  using assms
proof (induction ts arbitrary: n seen)
  case Nil
  then show ?case by simp
next
  case (Cons t ts)
  have g: "good_tier t" using Cons.prems by simp
  have "parse_lines (Suc n) (seen @ [t]) (map render_tier ts) = Inr ((seen @ [t]) @ ts)"
    by (rule Cons.IH) (use Cons.prems in auto)
  moreover have "ti_name t \<notin> set (map ti_name seen)" using Cons.prems(2) by auto
  moreover have "is_http (ti_endpoint t)" "rstrip_of ''/'' (ti_endpoint t) = ti_endpoint t"
    using g by (simp_all add: good_tier_def)
  ultimately show ?case using render_tier_line [OF g] by (cases t) (simp add: Let_def)
qed

text \<open>
  The tier list survives being written out: any tiers with distinct names, endpoints over http(s) and without a
  final slash parse back from their lines, in their order of priority.
\<close>

theorem parse_tiers_render:
  assumes "\<forall>t \<in> set ts. good_tier t" "distinct (map ti_name ts)"
  shows "parse_tiers (render_tiers ts) = Inr ts"
proof -
  have "splitlines (render_tiers ts) = map render_tier ts"
    unfolding render_tiers_def using assms(1) render_tier_line by (intro splitlines_join) auto
  with parse_rendered [of ts "[]" 1] assms show ?thesis by (simp add: parse_tiers_def)
qed

definition demo_tiers :: "tier list" where
  "demo_tiers = [\<lparr>ti_name = ''gpu'', ti_endpoint = ''http://gpu:8000/v1'', ti_model = ''large''\<rparr>,
     \<lparr>ti_name = ''nas'', ti_endpoint = ''http://nas:8080'', ti_model = ''base''\<rparr>]"

lemma demo_tiers_good: "\<forall>t \<in> set demo_tiers. good_tier t" "distinct (map ti_name demo_tiers)"
  by (simp_all add: demo_tiers_def good_tier_def is_token_def is_space_def is_http_def rstrip_of_def lstrip_of_def)

theorem parse_tiers_render_witness: "parse_tiers (render_tiers demo_tiers) = Inr demo_tiers"
  by (rule parse_tiers_render [OF demo_tiers_good])

lemma parsed_names_distinct:
  "parse_lines n seen ls = Inr ts \<Longrightarrow> distinct (map ti_name seen) \<Longrightarrow> distinct (map ti_name ts)"
  by (induction n seen ls rule: parse_lines.induct) (auto simp: Let_def split: if_splits list.splits)

text \<open>An endpoint that names no host passes the check, because the final slashes are taken off after it.\<close>

lemma hostless_endpoint: "parse_tiers ''a http:// m'' = Inr [\<lparr>ti_name = ''a'', ti_endpoint = ''http:'', ti_model = ''m''\<rparr>]"
  by code_simp

section \<open>Falling through\<close>

lemma fail_tier_sel [simp]:
  "tp_answering (fail_tier t p) = tp_answering p" "tp_tiers (fail_tier t p) = tp_tiers p"
  "tp_healthy (fail_tier t p) n \<longleftrightarrow> n \<noteq> ti_name t \<and> tp_healthy p n" "tp_probed (fail_tier t p) = tp_probed p"
  by (simp_all add: fail_tier_def)

lemma try_tiers_spec:
  assumes "try_tiers req now ts p = (r, asked, p')"
  shows "\<exists>failed rest. ts = failed @ rest \<and> (\<forall>t \<in> set failed. req t = Failed) \<and>
    (\<forall>n. tp_healthy p' n \<longleftrightarrow> tp_healthy p n \<and> n \<notin> ti_name ` set failed) \<and>
    tp_tiers p' = tp_tiers p \<and> tp_probed p' = tp_probed p \<and>
    (case rest of [] \<Rightarrow> r = Unavailable \<and> asked = failed \<and> tp_exhausted p'
     | t # _ \<Rightarrow> asked = failed @ [t] \<and>
        (case req t of Text x \<Rightarrow> r = Served x (ti_name t) \<and> tp_fault p' = None | Raised \<Rightarrow> r = Type_Error | Failed \<Rightarrow> False))"
  using assms
proof (induction ts arbitrary: p asked)
  case Nil
  then show ?case by (intro exI [of _ "[]"]) (auto split: if_splits)
next
  case (Cons t ts)
  show ?case
  proof (cases "req t")
    case Failed
    obtain asked' where "try_tiers req now ts (fail_tier t p) = (r, asked', p')" "asked = t # asked'"
      using Cons.prems Failed by (auto split: prod.splits)
    from Cons.IH [OF this(1)] this(2) obtain failed rest where f: "ts = failed @ rest" "\<forall>t \<in> set failed. req t = Failed"
      "\<forall>n. tp_healthy p' n \<longleftrightarrow> tp_healthy (fail_tier t p) n \<and> n \<notin> ti_name ` set failed"
      "tp_tiers p' = tp_tiers p" "tp_probed p' = tp_probed p"
      "case rest of [] \<Rightarrow> r = Unavailable \<and> asked' = failed \<and> tp_exhausted p'
       | t # _ \<Rightarrow> asked' = failed @ [t] \<and>
          (case req t of Text x \<Rightarrow> r = Served x (ti_name t) \<and> tp_fault p' = None | Raised \<Rightarrow> r = Type_Error | Failed \<Rightarrow> False)"
      by auto
    show ?thesis
      by (rule exI [of _ "t # failed"], rule exI [of _ rest])
        (use f Failed \<open>asked = t # asked'\<close> in \<open>auto split: list.splits\<close>)
  next
    case Raised
    with Cons.prems show ?thesis
      by (intro exI [of _ "[]"] exI [of _ "t # ts"]) auto
  next
    case (Text x)
    with Cons.prems show ?thesis
      by (intro exI [of _ "[]"] exI [of _ "t # ts"]) auto
  qed
qed

definition candidates :: "pool \<Rightarrow> tier list" where
  "candidates p = (if healthy_tiers p = [] then tp_tiers p else healthy_tiers p)"

text \<open>
  C28: a request falls through the tiers in order of priority. The tiers asked are a prefix of the candidates (the
  healthy ones, or all as a last resort); every one but the last failed and is unhealthy from now on, no other tier's
  health changes, the answer is that of the first tier that gives one, and \<open>Unavailable\<close> means all of them failed.
\<close>

theorem tiers_fall_through:
  assumes "stt_transcribe get http wav prompt now p = (r, asked, p')" "tp_probed p"
    and "\<not> (healthy_tiers p = [] \<and> tp_exhausted p)"
  shows "\<exists>failed rest. candidates p = failed @ rest \<and> (\<forall>t \<in> set failed. request http t wav prompt = Failed) \<and>
    (\<forall>n. tp_healthy p' n \<longleftrightarrow> tp_healthy p n \<and> n \<notin> ti_name ` set failed) \<and>
    (case rest of [] \<Rightarrow> r = Unavailable \<and> asked = failed \<and> tp_exhausted p'
     | t # _ \<Rightarrow> asked = failed @ [t] \<and>
        (case request http t wav prompt of
           Text x \<Rightarrow> r = Served x (ti_name t) \<and> tp_fault p' = None | Raised \<Rightarrow> r = Type_Error | Failed \<Rightarrow> False))"
proof -
  have "try_tiers (\<lambda>t. request http t wav prompt) now (candidates p) p = (r, asked, p')"
    using assms by (auto simp: stt_transcribe_def candidates_def Let_def split: if_splits)
  from try_tiers_spec [OF this] show ?thesis by (elim exE conjE) (intro exI conjI)
qed

definition gpu_down :: "post \<Rightarrow> response" where
  "gpu_down q = (if po_model q = ''base'' then Said '' hello '' else Http_Error)"

definition demo_pool :: pool where
  "demo_pool = probe_all (\<lambda>u. Some True) (new_pool demo_tiers)"

lemma demo_pool:
  "tp_probed demo_pool" "healthy_tiers demo_pool = demo_tiers" "tp_tiers demo_pool = demo_tiers"
  "\<not> tp_exhausted demo_pool" "tp_fault demo_pool = None" "tp_answering demo_pool"
  by (simp_all add: demo_pool_def probe_all_def new_pool_def healthy_tiers_def demo_tiers_def probe_def probe_urls_def Let_def)

theorem tiers_fall_through_witness:
  "\<exists>p'. stt_transcribe (\<lambda>_. None) gpu_down [] [] 5 demo_pool = (Served ''hello'' ''nas'', demo_tiers, p') \<and>
     \<not> tp_healthy p' ''gpu'' \<and> tp_healthy p' ''nas''"
proof -
  obtain r asked p' where e: "stt_transcribe (\<lambda>_. None) gpu_down [] [] 5 demo_pool = (r, asked, p')"
    by (cases "stt_transcribe (\<lambda>_. None) gpu_down [] [] 5 demo_pool")
  obtain g n where d: "demo_tiers = [g, n]" "ti_name g = ''gpu''" "ti_name n = ''nas''" "ti_model g = ''large''" "ti_model n = ''base''"
    by (simp add: demo_tiers_def)
  have req: "request gpu_down g [] [] = Failed" "request gpu_down n [] [] = Text ''hello''"
    by (simp_all add: request_def gpu_down_def d strip_def is_space_def)
  have "\<not> (healthy_tiers demo_pool = [] \<and> tp_exhausted demo_pool)" by (simp add: demo_pool)
  from tiers_fall_through [OF e demo_pool(1) this]
  obtain failed rest where f: "demo_tiers = failed @ rest" "\<forall>t \<in> set failed. request gpu_down t [] [] = Failed"
    "\<forall>m. tp_healthy p' m \<longleftrightarrow> tp_healthy demo_pool m \<and> m \<notin> ti_name ` set failed"
    "case rest of [] \<Rightarrow> r = Unavailable \<and> asked = failed \<and> tp_exhausted p'
     | t # _ \<Rightarrow> asked = failed @ [t] \<and>
        (case request gpu_down t [] [] of
           Text x \<Rightarrow> r = Served x (ti_name t) \<and> tp_fault p' = None | Raised \<Rightarrow> r = Type_Error | Failed \<Rightarrow> False)"
    by (auto simp: candidates_def demo_pool d)
  have e2: "failed @ rest = [g, n]" using f(1) d(1) by simp
  have "failed \<noteq> []"
  proof
    assume "failed = []"
    with e2 have "rest = [g, n]" by simp
    with f(4) req(1) show False by simp
  qed
  then obtain fs where fs: "failed = g # fs" "fs @ rest = [n]" using e2 by (cases failed) simp_all
  have "fs = []"
  proof (rule ccontr)
    assume "fs \<noteq> []"
    with fs(2) have "n \<in> set failed" using fs(1) by (cases fs) simp_all
    with f(2) req(2) show False by simp
  qed
  with fs have two: "failed = [g]" "rest = [n]" by simp_all
  have "tp_healthy demo_pool ''nas''"
  proof -
    have "n \<in> set (healthy_tiers demo_pool)" unfolding demo_pool(2) d(1) by simp
    then show ?thesis by (simp add: healthy_tiers_def d(3))
  qed
  moreover have "r = Served ''hello'' ''nas''" "asked = demo_tiers" using f(4) two req(2) d(1,3) by simp_all
  ultimately show ?thesis using e f(3) two(1) d(2) by auto
qed

section \<open>When Whisper is away\<close>

type_synonym stt_call = "nat list \<times> string \<times> real"

fun stt_calls :: "(string \<Rightarrow> bool option) \<Rightarrow> (post \<Rightarrow> response) \<Rightarrow> stt_call list \<Rightarrow> pool \<Rightarrow> tier list \<times> pool" where
  "stt_calls get http [] p = ([], p)"
| "stt_calls get http ((wav, prompt, now) # cs) p =
     (let (r, asked, p1) = stt_transcribe get http wav prompt now p; (more, p2) = stt_calls get http cs p1
      in (asked @ more, p2))"

definition all_fail :: "(post \<Rightarrow> response) \<Rightarrow> bool" where
  "all_fail http \<longleftrightarrow> (\<forall>t wav prompt. request http t wav prompt = Failed)"

lemma exhausted_calls:
  assumes "tp_probed p" "healthy_tiers p = []" "tp_exhausted p"
  shows "stt_calls get http cs p = ([], p)"
  using assms by (induction cs) (auto simp: stt_transcribe_def)

lemma failing_call:
  assumes "stt_transcribe get http wav prompt now p = (r, asked, p')" "tp_probed p" "all_fail http"
  shows "(asked = [] \<or> asked = candidates p) \<and> tp_probed p' \<and> healthy_tiers p' = [] \<and> tp_exhausted p'"
proof (cases "healthy_tiers p = [] \<and> tp_exhausted p")
  case True
  with assms show ?thesis by (simp add: stt_transcribe_def)
next
  case False
  have "try_tiers (\<lambda>t. request http t wav prompt) now (candidates p) p = (r, asked, p')"
    using assms(1,2) False by (auto simp: stt_transcribe_def candidates_def Let_def split: if_splits)
  from try_tiers_spec [OF this] obtain failed rest where f: "candidates p = failed @ rest"
    "\<forall>n. tp_healthy p' n \<longleftrightarrow> tp_healthy p n \<and> n \<notin> ti_name ` set failed" "tp_tiers p' = tp_tiers p" "tp_probed p' = tp_probed p"
    "case rest of [] \<Rightarrow> r = Unavailable \<and> asked = failed \<and> tp_exhausted p'
     | t # _ \<Rightarrow> asked = failed @ [t] \<and>
        (case request http t wav prompt of
           Text x \<Rightarrow> r = Served x (ti_name t) \<and> tp_fault p' = None | Raised \<Rightarrow> r = Type_Error | Failed \<Rightarrow> False)"
    by (elim exE conjE)
  have "rest = []" using f(5) assms(3) by (cases rest) (auto simp: all_fail_def)
  with f(1,5) have c: "rest = []" "asked = candidates p" "tp_exhausted p'" by simp_all
  have "healthy_tiers p' = []"
    using f(1,2) c(1) by (auto simp: healthy_tiers_def f(3) candidates_def filter_empty_conv split: if_splits)
  with c f(4) assms(2) show ?thesis by simp
qed

lemma candidates_distinct: "distinct (tp_tiers p) \<Longrightarrow> distinct (candidates p) \<and> set (candidates p) \<subseteq> set (tp_tiers p)"
  by (auto simp: candidates_def healthy_tiers_def)

text \<open>
  With Whisper away, a session's queue does not wait on dead tiers segment by segment. Between two probes, over
  any number of segments, each tier is asked at most once when every request fails.
\<close>

theorem away_asks_each_tier_once:
  assumes "tp_probed p" "all_fail http" "distinct (tp_tiers p)"
  shows "distinct (fst (stt_calls get http cs p)) \<and> set (fst (stt_calls get http cs p)) \<subseteq> set (tp_tiers p)"
proof (cases cs)
  case Nil
  then show ?thesis by simp
next
  case (Cons c rest)
  obtain wav prompt now where c: "c = (wav, prompt, now)" by (cases c)
  obtain r asked p' where e: "stt_transcribe get http wav prompt now p = (r, asked, p')"
    by (cases "stt_transcribe get http wav prompt now p")
  note f = failing_call [OF e assms(1,2)]
  then have "stt_calls get http rest p' = ([], p')" by (intro exhausted_calls) simp_all
  then have "fst (stt_calls get http cs p) = asked" by (simp add: Cons c e)
  with f candidates_distinct [OF assms(3)] show ?thesis by auto
qed

theorem away_asks_each_tier_once_witness:
  "distinct (fst (stt_calls (\<lambda>_. None) (\<lambda>_. Http_Error) [([], [], 1), ([], [], 2), ([], [], 3)] demo_pool)) \<and>
   set (fst (stt_calls (\<lambda>_. None) (\<lambda>_. Http_Error) [([], [], 1), ([], [], 2), ([], [], 3)] demo_pool)) \<subseteq> set (tp_tiers demo_pool)"
  by (rule away_asks_each_tier_once) (simp_all add: demo_pool all_fail_def request_def, simp add: demo_tiers_def)

section \<open>Faults\<close>

text \<open>A fault is only ever counted while a tier answers its probe, and it ends with the first success.\<close>

definition fault_ok :: "pool \<Rightarrow> bool" where
  "fault_ok p \<longleftrightarrow> (case tp_fault p of None \<Rightarrow> True | Some (first, latest) \<Rightarrow> first \<le> latest \<and> tp_answering p)"

lemma fail_tier_fault [simp]: "tp_fault (fail_tier t p) = tp_fault p" "fault_ok (fail_tier t p) = fault_ok p"
  by (auto simp: fail_tier_def fault_ok_def split: option.split)

lemma try_tiers_fault:
  assumes "try_tiers req now ts p = (r, asked, p')" "fault_ok p" "\<forall>a b. tp_fault p = Some (a, b) \<longrightarrow> b \<le> now"
  shows "fault_ok p' \<and> (\<forall>a b. tp_fault p' = Some (a, b) \<longrightarrow> b \<le> now)"
  using assms
proof (induction ts arbitrary: p asked)
  case Nil
  then show ?case by (auto simp: fault_ok_def split: if_splits option.splits)
next
  case (Cons t ts)
  show ?case
  proof (cases "req t")
    case Failed
    obtain asked' where "try_tiers req now ts (fail_tier t p) = (r, asked', p')"
      using Cons.prems(1) Failed by (auto split: prod.splits)
    from Cons.IH [OF this] Cons.prems(2,3) show ?thesis by simp
  qed (use Cons.prems in \<open>auto simp: fault_ok_def\<close>)
qed

lemma fault_s_nonneg: "fault_ok p \<Longrightarrow> 0 \<le> fault_s p"
  by (auto simp: fault_ok_def fault_s_def split: option.splits)

lemma probe_fault_ok: "fault_ok p \<Longrightarrow> fault_ok (probe_all get p)"
  by (auto simp: fault_ok_def probe_all_def Let_def split: option.splits)

text \<open>
  Two paths the documentation of \<open>transcribe\<close> does not describe: an answer that is JSON but not an object raises
  instead of falling through, and while a last resort is served by a lower tier, the dead tiers above it are asked
  again for every segment.
\<close>

lemma not_an_object_raises:
  "stt_transcribe (\<lambda>_. None) (\<lambda>q. if po_model q = ''large'' then Not_An_Object else Said ''hello'') [] [] 5 demo_pool =
     (Type_Error, [hd demo_tiers], demo_pool)"
proof -
  have h: "healthy_tiers demo_pool = demo_tiers" "tp_probed demo_pool" by (simp_all add: demo_pool)
  show ?thesis by (simp add: stt_transcribe_def h Let_def) (simp add: demo_tiers_def request_def)
qed

lemma last_resort_repeats:
  "map ti_name (fst (stt_calls (\<lambda>_. None) gpu_down [([], [], 1), ([], [], 2)] (probe_all (\<lambda>_. None) (new_pool demo_tiers)))) =
     [''gpu'', ''nas'', ''gpu'', ''nas'']"
  by (simp add: stt_transcribe_def probe_all_def new_pool_def demo_tiers_def request_def gpu_down_def probe_def healthy_tiers_def
      fail_tier_def strip_def is_space_def probe_urls_def Let_def)

end
