(* ===== verification/Proposals.thy ===== *)
theory Proposals
  imports Transcript "HOL-Library.List_Lexorder"
begin

text \<open>
  Action proposals (server/src/jarvis_live/actions/state.py): the payload a proposal may be shown with, the evidence it
  must cite, and the state that admits, bounds and de-duplicates proposals. The hash of a payload is a parameter
  \<open>sha\<close> (the code compares digests only), and so is \<open>wall_utc\<close>, which reads a wall time in the owner's zone (Python's
  \<open>fromisoformat\<close> and the time zone database); it may also fail because the instant is out of range.
\<close>

section \<open>Proposals\<close>

datatype kind = TASK_CREATE | VAULT_APPEND | REMINDER_SCHEDULE | GIT_PR_COMMENT | PI_SESSION

fun kind_str :: "kind \<Rightarrow> string" where
  "kind_str TASK_CREATE = ''task.create''"
| "kind_str VAULT_APPEND = ''vault.append''"
| "kind_str REMINDER_SCHEDULE = ''reminder.schedule''"
| "kind_str GIT_PR_COMMENT = ''git.pr_comment''"
| "kind_str PI_SESSION = ''pi.session''"

record evidence =
  ev_start :: int
  ev_text :: string

record proposal_in =
  pi_kind :: kind
  pi_evidence :: "evidence list"
  pi_text :: "string option"
  pi_due :: "string option"
  pi_path :: "string option"
  pi_title :: "string option"
  pi_body :: "string option"
  pi_at :: "string option"
  pi_repo :: "string option"
  pi_pr :: "int option"

datatype pvalue = PStr string | PInt int

type_synonym payload = "(string \<times> pvalue) list"

datatype instant = Not_Iso | Out_Of_Range | Instant int

record proposal_context =
  cx_now :: int
  cx_wall_utc :: "string \<Rightarrow> instant"
  cx_isoformat :: "int \<Rightarrow> string"
  cx_vault_has :: "string \<Rightarrow> bool"
  cx_repos :: "string list"

record proposal =
  pr_ref :: string
  pr_kind :: kind
  pr_payload :: payload
  pr_evidence :: "evidence list"
  pr_key :: string
  pr_sha :: string
  pr_open :: bool

definition MAX_NEW_PER_CYCLE :: nat where "MAX_NEW_PER_CYCLE = 3"
definition MAX_OPEN :: nat where "MAX_OPEN = 15"
definition MAX_TEXT :: nat where "MAX_TEXT = 500"
definition MAX_REMINDER_DAYS :: int where "MAX_REMINDER_DAYS = 90"
definition DAY_S :: int where "DAY_S = 86400"

section \<open>Text\<close>

definition or_empty :: "string option \<Rightarrow> string" where
  "or_empty t = (case t of None \<Rightarrow> [] | Some s \<Rightarrow> s)"

definition is_control :: "char \<Rightarrow> bool" where
  "is_control c \<longleftrightarrow> code c < 32 \<or> code c = 127"

definition control_to_space :: "string \<Rightarrow> string" where
  "control_to_space = map (\<lambda>c. if is_control c then CHR '' '' else c)"

definition one_line :: "string option \<Rightarrow> nat \<Rightarrow> string" where
  "one_line text n = rstrip (take n (squeeze (control_to_space (or_empty text))))"

text \<open>\<open>json.dumps(..., ensure_ascii=False)\<close> of a string, a number and a flat object with sorted keys.\<close>

definition hex_digit :: "nat \<Rightarrow> char" where
  "hex_digit n = (if n < 10 then digit_char n else char_of (87 + n))"

definition json_char :: "char \<Rightarrow> string" where
  "json_char c = (let n = code c in
     if n = 34 then [char_of (92 :: nat), c] else if n = 92 then [c, c]
     else if n = 10 then [char_of (92 :: nat), CHR ''n''] else if n = 13 then [char_of (92 :: nat), CHR ''r'']
     else if n = 9 then [char_of (92 :: nat), CHR ''t''] else if n = 8 then [char_of (92 :: nat), CHR ''b'']
     else if n = 12 then [char_of (92 :: nat), CHR ''f'']
     else if n < 32 then char_of (92 :: nat) # ''u00'' @ [hex_digit (n div 16), hex_digit (n mod 16)]
     else [c])"

definition json_str :: "string \<Rightarrow> string" where
  "json_str s = [char_of (34 :: nat)] @ concat (map json_char s) @ [char_of (34 :: nat)]"

fun json_value :: "pvalue \<Rightarrow> string" where
  "json_value (PStr s) = json_str s"
| "json_value (PInt i) = int_str i"

definition json_object :: "(string \<times> string) list \<Rightarrow> string" where
  "json_object kvs = ''{'' @ join '', '' (map (\<lambda>(k, v). json_str k @ '': '' @ v) kvs) @ ''}''"

definition sort_fields :: "payload \<Rightarrow> payload" where
  "sort_fields p = sort_key (\<lambda>kv. map code (fst kv)) p"

definition json_payload :: "payload \<Rightarrow> string" where
  "json_payload p = json_object (map (\<lambda>(k, v). (k, json_value v)) (sort_fields p))"

definition payload_sha256 :: "(string \<Rightarrow> string) \<Rightarrow> kind \<Rightarrow> payload \<Rightarrow> string" where
  "payload_sha256 sha k p = sha (json_object [(''kind'', json_str (kind_str k)), (''payload'', json_payload p)])"

definition norm_payload :: "payload \<Rightarrow> string" where
  "norm_payload p = squeeze (lower (json_payload p))"

definition dedupe_key :: "(string \<Rightarrow> string) \<Rightarrow> kind \<Rightarrow> payload \<Rightarrow> string" where
  "dedupe_key sha k p = sha (kind_str k @ ''|'' @ norm_payload p)"

section \<open>Payloads\<close>

text \<open>\<open>PurePosixPath\<close>: the parts of a relative path, and the suffix of its name.\<close>

definition path_parts :: "string \<Rightarrow> string list" where
  "path_parts p = filter (\<lambda>x. x \<noteq> [] \<and> x \<noteq> ''.'') (split_on (CHR ''/'') p)"

definition path_suffix :: "string \<Rightarrow> string" where
  "path_suffix p =
     (let name = (if path_parts p = [] then [] else last (path_parts p));
          ext = takeWhile (\<lambda>c. c \<noteq> CHR ''.'') (rev name)
      in if CHR ''.'' \<in> set name \<and> ext \<noteq> [] \<and> Suc (length ext) < length name then CHR ''.'' # rev ext else [])"

definition is_absolute :: "string \<Rightarrow> bool" where
  "is_absolute p \<longleftrightarrow> startswith p ''/''"

definition EXCLUDED_DIRS :: "string list" where
  "EXCLUDED_DIRS = [''Personal Vault'', ''40 Archives'', ''.obsidian'', ''.git'']"

definition is_excluded :: "string list \<Rightarrow> bool" where
  "is_excluded parts \<longleftrightarrow> list_ex (\<lambda>p. p \<in> set EXCLUDED_DIRS \<or> startswith p ''_Pending Deletion'') parts"

definition vault_path_ok :: "proposal_context \<Rightarrow> string \<Rightarrow> bool" where
  "vault_path_ok cx path \<longleftrightarrow> path_suffix path = ''.md'' \<and> \<not> is_absolute path \<and> ''..'' \<notin> set (path_parts path) \<and>
     \<not> is_excluded (path_parts path) \<and> cx_vault_has cx path"

datatype built = No_Payload | Overflow_Error | Payload payload

definition reminder_payload :: "proposal_context \<Rightarrow> proposal_in \<Rightarrow> string \<Rightarrow> built" where
  "reminder_payload cx p title =
     (case pi_at p of None \<Rightarrow> No_Payload | Some raw \<Rightarrow>
        if raw = [] then No_Payload else case cx_wall_utc cx raw of
          Not_Iso \<Rightarrow> No_Payload
        | Out_Of_Range \<Rightarrow> Overflow_Error
        | Instant when \<Rightarrow>
            if when \<le> cx_now cx \<or> when > cx_now cx + MAX_REMINDER_DAYS * DAY_S then No_Payload
            else (let body = one_line (pi_body p) MAX_TEXT
                  in Payload ([(''title'', PStr title), (''at'', PStr (cx_isoformat cx when))] @
                       (if body = [] then [] else [(''body'', PStr body)]))))"

definition build_payload :: "proposal_in \<Rightarrow> proposal_context \<Rightarrow> built" where
  "build_payload p cx = (case pi_kind p of
     TASK_CREATE \<Rightarrow>
       (let text = one_line (pi_text p) MAX_TEXT; due = one_line (pi_due p) 10
        in if text = [] then No_Payload
           else Payload ([(''text'', PStr text)] @ (if due = [] then [] else [(''due'', PStr due)])))
   | VAULT_APPEND \<Rightarrow>
       (let path = strip (or_empty (pi_path p)); text = strip (or_empty (pi_text p))
        in if text = [] \<or> \<not> vault_path_ok cx path then No_Payload
           else Payload [(''path'', PStr path), (''text'', PStr (take (MAX_TEXT * 4) text))])
   | REMINDER_SCHEDULE \<Rightarrow>
       (let title = one_line (pi_title p) 120
        in if title = [] then No_Payload else reminder_payload cx p title)
   | GIT_PR_COMMENT \<Rightarrow>
       (let body = strip (or_empty (pi_body p))
        in case (pi_pr p, pi_repo p) of
             (Some pr, Some repo) \<Rightarrow>
               if body = [] \<or> pr < 1 \<or> repo \<notin> set (cx_repos cx) then No_Payload
               else Payload [(''repo'', PStr repo), (''pr'', PInt pr), (''body'', PStr (take (MAX_TEXT * 4) body))]
           | _ \<Rightarrow> No_Payload)
   | PI_SESSION \<Rightarrow>
       (let title = one_line (pi_title p) 120; text = strip (or_empty (pi_text p))
        in if title = [] \<or> text = [] then No_Payload
           else Payload [(''title'', PStr title), (''text'', PStr (take (MAX_TEXT * 8) text))]))"

section \<open>Repeats\<close>

definition NUMBER_WORDS :: "string list" where
  "NUMBER_WORDS = [''one'', ''two'', ''three'', ''four'', ''five'', ''six'', ''seven'', ''eight'', ''nine'', ''ten'', ''eleven'',
    ''twelve'', ''thirteen'', ''fourteen'', ''fifteen'', ''sixteen'', ''seventeen'', ''eighteen'', ''nineteen'',
    ''twenty'', ''thirty'', ''first'', ''second'', ''third'', ''fourth'', ''fifth'', ''sixth'', ''seventh'',
    ''eighth'', ''ninth'', ''tenth'', ''eleventh'', ''twelfth'', ''thirteenth'', ''fourteenth'', ''fifteenth'',
    ''sixteenth'', ''seventeenth'', ''eighteenth'', ''nineteenth'', ''twentieth'', ''thirtieth'']"

definition WHEN_WORDS :: "string list" where
  "WHEN_WORDS = [''monday'', ''tuesday'', ''wednesday'', ''thursday'', ''friday'', ''saturday'', ''sunday'', ''today'',
    ''tonight'', ''tomorrow'', ''yesterday'', ''january'', ''february'', ''march'', ''april'', ''may'', ''june'',
    ''july'', ''august'', ''september'', ''october'', ''november'', ''december'', ''noon'', ''midnight'',
    ''morning'', ''afternoon'', ''evening'', ''night''] @
    [''o'' @ [char_of (39 :: nat)] @ ''clock''] @
    [''minute'', ''minutes'', ''hour'', ''hours'', ''day'', ''days'', ''week'', ''weeks'', ''weekend'', ''month'',
    ''months'', ''year''] @ NUMBER_WORDS"

definition word_here :: "string list \<Rightarrow> string \<Rightarrow> bool" where
  "word_here ws s \<longleftrightarrow> list_ex (\<lambda>w. startswith (lower s) w \<and>
     (case drop (length w) s of [] \<Rightarrow> True | d # _ \<Rightarrow> \<not> is_word d)) ws"

text \<open>\<open>in_word\<close> tells whether the character before is a word character.\<close>

fun when_search :: "bool \<Rightarrow> string \<Rightarrow> bool" where
  "when_search in_word [] = False"
| "when_search in_word (c # cs) =
     (is_digit c \<or> \<not> in_word \<and> word_here WHEN_WORDS (c # cs) \<or> when_search (is_word c) cs)"

definition says_when :: "string \<Rightarrow> bool" where
  "says_when said = when_search False said"

definition casefold :: "string \<Rightarrow> string" where
  "casefold s = concat (map (\<lambda>c. if code c = 223 then ''ss'' else [lower_char c]) s)"

definition plain :: "string \<Rightarrow> string" where
  "plain text = rstrip_of ''.!?,;:'' (squeeze (casefold text))"

fun same_value :: "pvalue \<Rightarrow> pvalue \<Rightarrow> bool" where
  "same_value (PStr a) (PStr b) = (plain a = plain b)"
| "same_value a b = (a = b)"

definition DATE_FIELDS :: "string list" where
  "DATE_FIELDS = [''due'', ''at'']"

definition adds_nothing :: "payload \<Rightarrow> payload \<Rightarrow> bool \<Rightarrow> bool" where
  "adds_nothing payload stored when_said \<longleftrightarrow>
     list_all (\<lambda>(k, v). (case map_of stored k of None \<Rightarrow> False | Some s \<Rightarrow> same_value v s) \<or>
                         k \<in> set DATE_FIELDS \<and> \<not> when_said) payload"

section \<open>Evidence\<close>

definition EVIDENCE_SLACK_MS :: int where "EVIDENCE_SLACK_MS = 2000"
definition MAX_EVIDENCE :: nat where "MAX_EVIDENCE = 3"

definition near_lines :: "tline list \<Rightarrow> evidence \<Rightarrow> tline list" where
  "near_lines lines e = filter (\<lambda>x. ln_start x - EVIDENCE_SLACK_MS \<le> ev_start e \<and> ev_start e \<le> ln_end x + EVIDENCE_SLACK_MS) lines"

text \<open>\<open>min(near, key=...)\<close>: the first of the lines with the least distance.\<close>

fun nearest :: "int \<Rightarrow> tline \<Rightarrow> tline list \<Rightarrow> tline" where
  "nearest at_ms best [] = best"
| "nearest at_ms best (x # xs) =
     nearest at_ms (if \<bar>ln_start x - at_ms\<bar> < \<bar>ln_start best - at_ms\<bar> then x else best) xs"

fun found_lines :: "tline list \<Rightarrow> evidence list \<Rightarrow> evidence list \<Rightarrow> evidence list" where
  "found_lines lines found [] = found"
| "found_lines lines found (e # es) =
     (case near_lines lines e of
        [] \<Rightarrow> found_lines lines found es
      | x # xs \<Rightarrow>
          (let best = nearest (ev_start e) x xs in
           if ln_start best \<in> set (map ev_start found) then found_lines lines found es
           else found_lines lines (found @ [\<lparr>ev_start = ln_start best, ev_text = ln_text best\<rparr>]) es))"

definition ground :: "proposal_in list \<Rightarrow> tline list \<Rightarrow> proposal_in list" where
  "ground incoming lines =
     map (\<lambda>p. p\<lparr>pi_evidence := take MAX_EVIDENCE (found_lines lines [] (pi_evidence p))\<rparr>)
       (filter (\<lambda>p. found_lines lines [] (pi_evidence p) \<noteq> []) incoming)"

section \<open>The state\<close>

record proposal_state =
  ps_proposals :: "proposal list"
  ps_next :: nat

definition open_proposals :: "proposal_state \<Rightarrow> nat" where
  "open_proposals st = length (filter pr_open (ps_proposals st))"

definition repeats :: "kind \<Rightarrow> payload \<Rightarrow> bool \<Rightarrow> proposal_state \<Rightarrow> bool" where
  "repeats k payload when_said st \<longleftrightarrow>
     list_ex (\<lambda>x. pr_kind x = k \<and> adds_nothing payload (pr_payload x) when_said) (ps_proposals st)"

definition new_proposal :: "(string \<Rightarrow> string) \<Rightarrow> proposal_in \<Rightarrow> payload \<Rightarrow> nat \<Rightarrow> proposal" where
  "new_proposal sha p payload n =
     \<lparr>pr_ref = ''p'' @ dec_str n, pr_kind = pi_kind p, pr_payload = payload, pr_evidence = pi_evidence p,
      pr_key = dedupe_key sha (pi_kind p) payload, pr_sha = payload_sha256 sha (pi_kind p) payload, pr_open = True\<rparr>"

text \<open>The loop; \<open>None\<close> when it raised, with the proposals admitted before left in the state.\<close>

fun admit_loop ::
  "(string \<Rightarrow> string) \<Rightarrow> proposal_context \<Rightarrow> string option \<Rightarrow> string set \<Rightarrow> proposal list \<Rightarrow> proposal_in list \<Rightarrow> proposal_state \<Rightarrow>
     proposal list option \<times> proposal_state" where
  "admit_loop sha cx said known admitted [] st = (Some admitted, st)"
| "admit_loop sha cx said known admitted (p # ps) st =
     (if length admitted \<ge> MAX_NEW_PER_CYCLE then (Some admitted, st)
      else if open_proposals st \<ge> MAX_OPEN \<or> pi_evidence p = [] then admit_loop sha cx said known admitted ps st
      else case build_payload p cx of
        No_Payload \<Rightarrow> admit_loop sha cx said known admitted ps st
      | Overflow_Error \<Rightarrow> (None, st)
      | Payload payload \<Rightarrow>
          (let key = dedupe_key sha (pi_kind p) payload in
           if key \<in> known \<or>
              (case said of None \<Rightarrow> False | Some s \<Rightarrow> repeats (pi_kind p) payload (says_when s) st)
           then admit_loop sha cx said known admitted ps st
           else (let prop = new_proposal sha p payload (ps_next st)
                 in admit_loop sha cx said (insert key known) (admitted @ [prop]) ps
                      (st\<lparr>ps_next := Suc (ps_next st), ps_proposals := ps_proposals st @ [prop]\<rparr>))))"

definition apply_proposals ::
  "(string \<Rightarrow> string) \<Rightarrow> proposal_in list \<Rightarrow> proposal_context \<Rightarrow> string option \<Rightarrow> proposal_state \<Rightarrow> proposal list option \<times> proposal_state" where
  "apply_proposals sha incoming cx said st =
     admit_loop sha cx said (set (map pr_key (ps_proposals st))) [] incoming st"

definition ref_numbers :: "proposal list \<Rightarrow> nat list" where
  "ref_numbers ps = map (\<lambda>p. dec_val (tl (pr_ref p)))
     (filter (\<lambda>p. tl (pr_ref p) \<noteq> [] \<and> list_all is_digit (tl (pr_ref p))) ps)"

definition restore_proposals :: "proposal list \<Rightarrow> proposal_state" where
  "restore_proposals ps = \<lparr>ps_proposals = ps, ps_next = foldr max (ref_numbers ps) 0 + 1\<rparr>"

definition close_proposal :: "string \<Rightarrow> proposal_state \<Rightarrow> proposal_state" where
  "close_proposal ref st = st\<lparr>ps_proposals := map (\<lambda>p. if pr_ref p = ref then p\<lparr>pr_open := False\<rparr> else p) (ps_proposals st)\<rparr>"

section \<open>The queue's door\<close>

text \<open>
  \<open>SessionProposals.propose\<close>: \<open>rows\<close> are the stored proposals; \<open>admit\<close> stores those admitted and returns the rows it
  stored, or \<open>None\<close> when it raises. The state is built on first use and kept for the session. \<open>Inl\<close> is an exception.
\<close>

definition propose ::
  "(string \<Rightarrow> string) \<Rightarrow> proposal_context \<Rightarrow> proposal list \<Rightarrow> (proposal list \<Rightarrow> nat option) \<Rightarrow> proposal_in list \<Rightarrow> tline list \<Rightarrow>
     string option \<Rightarrow> proposal_state option \<Rightarrow> (unit + nat) \<times> proposal_state option" where
  "propose sha cx rows admit incoming lines said mem =
     (let grounded = ground incoming lines in
      if grounded = [] then (Inr 0, mem)
      else (let state = (case mem of None \<Rightarrow> restore_proposals rows | Some st \<Rightarrow> st)
            in case apply_proposals sha grounded cx said state of
                 (None, st) \<Rightarrow> (Inl (), Some st)
               | (Some admitted, st) \<Rightarrow>
                   if admitted = [] then (Inr 0, Some st)
                   else case admit admitted of
                     None \<Rightarrow> (Inl (), Some st)
                   | Some stored \<Rightarrow> (Inr stored, if stored \<noteq> length admitted then None else Some st)))"

section \<open>What may be shown\<close>

definition line_fits :: "nat \<Rightarrow> string \<Rightarrow> bool" where
  "line_fits n s \<longleftrightarrow> s \<noteq> [] \<and> length s \<le> n \<and> (\<forall>c \<in> set s. \<not> is_control c)"

definition block_ok :: "nat \<Rightarrow> string \<Rightarrow> bool" where
  "block_ok n s \<longleftrightarrow> s \<noteq> [] \<and> length s \<le> n"

text \<open>The payloads a reviewer may see, kind by kind.\<close>

fun reviewable :: "proposal_context \<Rightarrow> kind \<Rightarrow> payload \<Rightarrow> bool" where
  "reviewable cx TASK_CREATE pl \<longleftrightarrow>
     (\<exists>text due. pl = [(''text'', PStr text)] @ due \<and> line_fits 500 text \<and>
        (due = [] \<or> (\<exists>d. due = [(''due'', PStr d)] \<and> line_fits 10 d)))"
| "reviewable cx VAULT_APPEND pl \<longleftrightarrow>
     (\<exists>path text. pl = [(''path'', PStr path), (''text'', PStr text)] \<and> block_ok 2000 text \<and> vault_path_ok cx path)"
| "reviewable cx REMINDER_SCHEDULE pl \<longleftrightarrow>
     (\<exists>title when body. pl = [(''title'', PStr title), (''at'', PStr (cx_isoformat cx when))] @ body \<and> line_fits 120 title \<and>
        cx_now cx < when \<and> when \<le> cx_now cx + 90 * 86400 \<and>
        (body = [] \<or> (\<exists>b. body = [(''body'', PStr b)] \<and> line_fits 500 b)))"
| "reviewable cx GIT_PR_COMMENT pl \<longleftrightarrow>
     (\<exists>repo pr body. pl = [(''repo'', PStr repo), (''pr'', PInt pr), (''body'', PStr body)] \<and>
        repo \<in> set (cx_repos cx) \<and> 1 \<le> pr \<and> block_ok 2000 body)"
| "reviewable cx PI_SESSION pl \<longleftrightarrow>
     (\<exists>title text. pl = [(''title'', PStr title), (''text'', PStr text)] \<and> line_fits 120 title \<and> block_ok 4000 text)"

lemma set_rstrip: "set (rstrip s) \<subseteq> set s"
  by (auto simp: rstrip_def dest: set_dropWhileD)

lemma length_rstrip: "length (rstrip s) \<le> length s"
  using length_dropWhile_le [of is_space "rev s"] by (simp add: rstrip_def)

lemma squeeze_chars: "set (squeeze s) \<subseteq> insert (CHR '' '') (set s)"
  using set_join [of "'' ''" "split_ws s"] split_ws_chars [of _ s] by (fastforce simp: squeeze_def)

lemma one_line_ok: "one_line t n \<noteq> [] \<Longrightarrow> line_fits n (one_line t n)"
proof -
  assume ne: "one_line t n \<noteq> []"
  define u where "u = squeeze (control_to_space (or_empty t))"
  have sp: "\<not> is_control CHR '' ''" by (simp add: is_control_def)
  then have "\<forall>c \<in> set u. \<not> is_control c"
    using squeeze_chars [of "control_to_space (or_empty t)"] by (auto simp: u_def control_to_space_def)
  moreover have "set (one_line t n) \<subseteq> set u"
    using set_rstrip [of "take n u"] set_take_subset [of n u] by (auto simp: one_line_def u_def)
  moreover have "length (one_line t n) \<le> n"
    using length_rstrip [of "take n u"] by (simp add: one_line_def u_def)
  ultimately show ?thesis using ne by (auto simp: line_fits_def)
qed

lemma block_take: "s \<noteq> [] \<Longrightarrow> 0 < n \<Longrightarrow> block_ok n (take n s)"
  by (simp add: block_ok_def)

lemma build_payload_reviewable:
  assumes "build_payload p cx = Payload pl"
  shows "reviewable cx (pi_kind p) pl"
proof (cases "pi_kind p")
  case TASK_CREATE
  with assms one_line_ok [of "pi_text p" MAX_TEXT] one_line_ok [of "pi_due p" 10] show ?thesis
    by (auto simp: build_payload_def MAX_TEXT_def Let_def split: if_splits)
next
  case VAULT_APPEND
  with assms block_take [of "strip (or_empty (pi_text p))" 2000] show ?thesis
    by (auto simp: build_payload_def MAX_TEXT_def Let_def split: if_splits)
next
  case REMINDER_SCHEDULE
  define title body where "title = one_line (pi_title p) 120" and "body = one_line (pi_body p) 500"
  have title: "title \<noteq> []" and r: "reminder_payload cx p title = Payload pl"
    using assms REMINDER_SCHEDULE by (auto simp: build_payload_def title_def Let_def split: if_splits)
  from r obtain due where due: "cx_now cx < due" "due \<le> cx_now cx + 90 * 86400"
    "pl = [(''title'', PStr title), (''at'', PStr (cx_isoformat cx due))] @ (if body = [] then [] else [(''body'', PStr body)])"
    by (auto simp: reminder_payload_def body_def MAX_TEXT_def MAX_REMINDER_DAYS_def DAY_S_def Let_def not_le not_less
        split: if_splits option.splits instant.splits)
  have "line_fits 120 title" "body \<noteq> [] \<Longrightarrow> line_fits 500 body"
    using title one_line_ok [of "pi_title p" 120] one_line_ok [of "pi_body p" 500] by (auto simp: title_def body_def)
  with due show ?thesis unfolding REMINDER_SCHEDULE reviewable.simps
    by (intro exI [of _ title] exI [of _ due] exI [of _ "if body = [] then [] else [(''body'', PStr body)]"]) auto
next
  case GIT_PR_COMMENT
  with assms block_take [of "strip (or_empty (pi_body p))" 2000] show ?thesis
    by (auto simp: build_payload_def MAX_TEXT_def Let_def split: if_splits option.splits)
next
  case PI_SESSION
  with assms one_line_ok [of "pi_title p" 120] block_take [of "strip (or_empty (pi_text p))" 4000] show ?thesis
    by (auto simp: build_payload_def MAX_TEXT_def Let_def split: if_splits)
qed

section \<open>Evidence is the transcript's\<close>

definition backed :: "tline list \<Rightarrow> evidence list \<Rightarrow> evidence \<Rightarrow> bool" where
  "backed lines cited e \<longleftrightarrow> (\<exists>x \<in> set lines. \<exists>c \<in> set cited. ev_start e = ln_start x \<and> ev_text e = ln_text x \<and>
     ln_start x - EVIDENCE_SLACK_MS \<le> ev_start c \<and> ev_start c \<le> ln_end x + EVIDENCE_SLACK_MS)"

lemma nearest_in: "nearest t b xs \<in> insert b (set xs)"
proof (induction xs arbitrary: b)
  case (Cons a xs)
  from Cons.IH [of a] Cons.IH [of b] show ?case by auto
qed simp

lemma nearest_min: "\<forall>x \<in> insert b (set xs). \<bar>ln_start (nearest t b xs) - t\<bar> \<le> \<bar>ln_start x - t\<bar>"
proof (induction xs arbitrary: b)
  case (Cons a xs)
  show ?case using Cons.IH [of a] Cons.IH [of b] by fastforce
qed simp

lemma backed_mono: "backed lines cs e \<Longrightarrow> set cs \<subseteq> set ds \<Longrightarrow> backed lines ds e"
  by (auto simp: backed_def)

lemma found_backed:
  assumes "\<forall>e \<in> set found. backed lines cited e" "set es \<subseteq> set cited"
  shows "\<forall>e \<in> set (found_lines lines found es). backed lines cited e"
  using assms
proof (induction es arbitrary: found)
  case Nil
  then show ?case by simp
next
  case 2: (Cons e es)
  note IH = 2(1)
  show ?case
  proof (cases "near_lines lines e")
    case Nil
    with 2 show ?thesis by simp
  next
    case (Cons x xs)
    define best where "best = nearest (ev_start e) x xs"
    have "best \<in> set (near_lines lines e)" using nearest_in [of "ev_start e" x xs] by (simp add: best_def Cons)
    moreover have "e \<in> set cited" using 2(3) by simp
    ultimately have b: "backed lines cited \<lparr>ev_start = ln_start best, ev_text = ln_text best\<rparr>"
      unfolding backed_def by (intro bexI [of _ best] bexI [of _ e]) (simp_all add: near_lines_def)
    define found' where "found' = (if ln_start best \<in> set (map ev_start found) then found
      else found @ [\<lparr>ev_start = ln_start best, ev_text = ln_text best\<rparr>])"
    have step: "found_lines lines found (e # es) = found_lines lines found' es"
      by (simp add: Cons found'_def Let_def flip: best_def)
    have f': "\<forall>e \<in> set found'. backed lines cited e" using 2(2) b by (auto simp: found'_def)
    have es: "set es \<subseteq> set cited" using 2(3) by simp
    show ?thesis unfolding step by (rule IH [OF f' es])
  qed
qed

lemma ground_sound:
  assumes "p \<in> set (ground incoming lines)"
  shows "\<exists>q \<in> set incoming. p = q\<lparr>pi_evidence := pi_evidence p\<rparr> \<and> pi_evidence p \<noteq> [] \<and> length (pi_evidence p) \<le> 3 \<and>
    (\<forall>e \<in> set (pi_evidence p). backed lines (pi_evidence q) e)"
proof -
  obtain q where q: "q \<in> set incoming" "found_lines lines [] (pi_evidence q) \<noteq> []"
    "p = q\<lparr>pi_evidence := take MAX_EVIDENCE (found_lines lines [] (pi_evidence q))\<rparr>"
    using assms by (auto simp: ground_def)
  have "\<forall>e \<in> set (found_lines lines [] (pi_evidence q)). backed lines (pi_evidence q) e"
    by (rule found_backed) simp_all
  then have "\<forall>e \<in> set (pi_evidence p). backed lines (pi_evidence q) e" using q(3) by (auto dest: in_set_takeD)
  with q show ?thesis by (intro bexI [of _ q]) (simp_all add: MAX_EVIDENCE_def)
qed

section \<open>Admission\<close>

definition ref_of :: "nat \<Rightarrow> string" where "ref_of n = ''p'' @ dec_str n"

definition ps_wf :: "proposal_state \<Rightarrow> bool" where
  "ps_wf st \<longleftrightarrow> distinct (map pr_key (ps_proposals st)) \<and>
     (\<exists>ns. map pr_ref (ps_proposals st) = map ref_of ns \<and> distinct ns \<and> (\<forall>n \<in> set ns. n < ps_next st))"

lemma ref_of_inj [simp]: "ref_of m = ref_of n \<longleftrightarrow> m = n"
  by (simp add: ref_of_def)

lemma ps_wf_refs: "ps_wf st \<Longrightarrow> distinct (map pr_ref (ps_proposals st))"
proof -
  assume "ps_wf st"
  then obtain ns where ns: "map pr_ref (ps_proposals st) = map ref_of ns" "distinct ns" by (auto simp: ps_wf_def)
  from ns(2) have "distinct (map ref_of ns)" by (simp add: distinct_map inj_on_def)
  with ns(1) show ?thesis by simp
qed

lemma ps_wf_add:
  assumes "ps_wf st" "pr_key q \<notin> set (map pr_key (ps_proposals st))" "pr_ref q = ref_of (ps_next st)"
  shows "ps_wf (st\<lparr>ps_next := Suc (ps_next st), ps_proposals := ps_proposals st @ [q]\<rparr>)"
proof -
  obtain ns where ns: "map pr_ref (ps_proposals st) = map ref_of ns" "distinct ns" "\<forall>n \<in> set ns. n < ps_next st"
    using assms(1) by (auto simp: ps_wf_def)
  have "\<exists>ms. map pr_ref (ps_proposals st @ [q]) = map ref_of ms \<and> distinct ms \<and> (\<forall>n \<in> set ms. n < Suc (ps_next st))"
    by (rule exI [of _ "ns @ [ps_next st]"]) (use ns assms(3) in auto)
  with assms(1,2) show ?thesis by (auto simp: ps_wf_def)
qed

text \<open>An admitted proposal is one of those offered, with evidence, an open state and a payload that was built for it.\<close>

definition admitted_from :: "proposal_context \<Rightarrow> proposal_in list \<Rightarrow> proposal \<Rightarrow> bool" where
  "admitted_from cx offered q \<longleftrightarrow> (\<exists>p \<in> set offered. pr_kind q = pi_kind p \<and> pr_evidence q = pi_evidence p \<and>
     pi_evidence p \<noteq> [] \<and> pr_open q \<and> build_payload p cx = Payload (pr_payload q))"

definition admits :: "proposal_context \<Rightarrow> proposal_in list \<Rightarrow> proposal list \<Rightarrow> proposal_state \<Rightarrow> proposal list option \<Rightarrow> proposal_state \<Rightarrow> bool" where
  "admits cx offered adm st r st' \<longleftrightarrow> (\<exists>new. ps_proposals st' = ps_proposals st @ new \<and> ps_wf st' \<and>
     length adm + length new \<le> 3 \<and> (new \<noteq> [] \<longrightarrow> open_proposals st' \<le> 15) \<and>
     (\<forall>q \<in> set new. admitted_from cx offered q) \<and> (case r of None \<Rightarrow> True | Some a \<Rightarrow> a = adm @ new))"

lemma admits_same: "ps_wf st \<Longrightarrow> length adm \<le> 3 \<Longrightarrow> (r = None \<or> r = Some adm) \<Longrightarrow> admits cx offered adm st r st"
  unfolding admits_def by (rule exI [of _ "[]"]) auto

lemma admits_weaken: "admits cx ps adm st r st' \<Longrightarrow> admits cx (p # ps) adm st r st'"
  unfolding admits_def admitted_from_def by auto

lemma open_proposals_add:
  "pr_open q \<Longrightarrow> open_proposals (st\<lparr>ps_next := n, ps_proposals := ps_proposals st @ [q]\<rparr>) = Suc (open_proposals st)"
  by (simp add: open_proposals_def)

lemma admits_add:
  assumes "admits cx ps (adm @ [q]) (st\<lparr>ps_next := n, ps_proposals := ps_proposals st @ [q]\<rparr>) r st'"
    and "admitted_from cx (p # ps) q" "open_proposals st < 15"
  shows "admits cx (p # ps) adm st r st'"
proof -
  obtain new where n: "ps_proposals st' = (ps_proposals st @ [q]) @ new" "ps_wf st'" "length (adm @ [q]) + length new \<le> 3"
    "new \<noteq> [] \<longrightarrow> open_proposals st' \<le> 15" "\<forall>x \<in> set new. admitted_from cx ps x"
    "case r of None \<Rightarrow> True | Some a \<Rightarrow> a = (adm @ [q]) @ new"
    using assms(1) by (auto simp: admits_def)
  have "open_proposals st' \<le> 15"
  proof (cases "new = []")
    case True
    with n(1) assms(2,3) show ?thesis by (auto simp: open_proposals_def admitted_from_def)
  qed (use n(4) in simp)
  moreover have "\<forall>x \<in> set (q # new). admitted_from cx (p # ps) x"
    using n(5) assms(2) by (auto simp: admitted_from_def)
  ultimately show ?thesis unfolding admits_def using n
    by (intro exI [of _ "q # new"]) (auto split: option.splits)
qed

lemma admit_loop_spec:
  assumes "admit_loop sha cx said known adm ps st = (r, st')" "ps_wf st" "length adm \<le> 3"
    and "set (map pr_key (ps_proposals st)) \<subseteq> known"
  shows "admits cx ps adm st r st'"
  using assms
proof (induction sha cx said known adm ps st rule: admit_loop.induct)
  case (1 sha cx said known adm st)
  then show ?case by (auto intro: admits_same)
next
  case (2 sha cx said known adm p ps st)
  note prems = 2(5-8)
  show ?case
  proof (cases "length adm \<ge> MAX_NEW_PER_CYCLE")
    case True
    with prems show ?thesis by (auto intro: admits_same)
  next
    case few: False
    show ?thesis
    proof (cases "open_proposals st \<ge> MAX_OPEN \<or> pi_evidence p = []")
      case True
      have "admit_loop sha cx said known adm ps st = (r, st')" using prems(1) few True by simp
      from 2(1) [OF few True this prems(2-4)] show ?thesis by (rule admits_weaken)
    next
      case room: False
      show ?thesis
      proof (cases "build_payload p cx")
        case No_Payload
        have "admit_loop sha cx said known adm ps st = (r, st')" using prems(1) few room No_Payload by simp
        from 2(2) [OF few room No_Payload this prems(2-4)] show ?thesis by (rule admits_weaken)
      next
        case Overflow_Error
        with prems few room show ?thesis by (auto intro: admits_same)
      next
        case (Payload payload)
        define key where "key = dedupe_key sha (pi_kind p) payload"
        define seen where "seen \<longleftrightarrow> key \<in> known \<or>
          (case said of None \<Rightarrow> False | Some s \<Rightarrow> repeats (pi_kind p) payload (says_when s) st)"
        show ?thesis
        proof (cases seen)
          case True
          have "admit_loop sha cx said known adm ps st = (r, st')"
            using prems(1) few room Payload True by (simp add: seen_def key_def Let_def)
          from 2(3) [OF few room Payload key_def True [unfolded seen_def] this prems(2-4)]
          show ?thesis by (rule admits_weaken)
        next
          case False
          define q where "q = new_proposal sha p payload (ps_next st)"
          let ?st = "st\<lparr>ps_next := Suc (ps_next st), ps_proposals := ps_proposals st @ [q]\<rparr>"
          have run: "admit_loop sha cx said (insert key known) (adm @ [q]) ps ?st = (r, st')"
            using prems(1) few room Payload False by (simp add: seen_def key_def q_def Let_def)
          have fresh: "pr_key q \<notin> set (map pr_key (ps_proposals st))"
            using False prems(4) by (auto simp: seen_def q_def new_proposal_def key_def)
          have wf: "ps_wf ?st" by (rule ps_wf_add [OF prems(2) fresh]) (simp add: q_def new_proposal_def ref_of_def)
          have len: "length (adm @ [q]) \<le> 3" using few by (simp add: MAX_NEW_PER_CYCLE_def)
          have known: "set (map pr_key (ps_proposals ?st)) \<subseteq> insert key known"
            using prems(4) by (auto simp: q_def new_proposal_def key_def)
          have adm: "admitted_from cx (p # ps) q"
            using room Payload by (auto simp: admitted_from_def q_def new_proposal_def)
          have room': "open_proposals st < 15" using room by (simp add: MAX_OPEN_def)
          from 2(4) [OF few room Payload key_def False [unfolded seen_def] q_def run wf len known]
          show ?thesis by (rule admits_add [OF _ adm room'])
        qed
      qed
    qed
  qed
qed

lemma apply_admits:
  assumes "apply_proposals sha incoming cx said st = (r, st')" "ps_wf st"
  shows "admits cx incoming [] st r st'"
  using admit_loop_spec [OF assms(1) [unfolded apply_proposals_def] assms(2)] by simp

text \<open>
  C30: proposals stay few and new. One call admits at most three, never takes the open ones past fifteen, only adds to
  what is known, and keeps references and dedupe keys unique, so nothing known is proposed again under either.
\<close>

theorem proposals_bounded:
  assumes "apply_proposals sha incoming cx said st = (r, st')" "ps_wf st"
  shows "\<exists>new. ps_proposals st' = ps_proposals st @ new \<and> (r = Some new \<or> r = None) \<and> length new \<le> 3 \<and>
    (new \<noteq> [] \<longrightarrow> open_proposals st' \<le> 15) \<and>
    distinct (map pr_ref (ps_proposals st')) \<and> distinct (map pr_key (ps_proposals st')) \<and> ps_wf st'"
proof -
  obtain new where n: "ps_proposals st' = ps_proposals st @ new" "ps_wf st'" "length new \<le> 3"
    "new \<noteq> [] \<longrightarrow> open_proposals st' \<le> 15" "case r of None \<Rightarrow> True | Some a \<Rightarrow> a = new"
    using apply_admits [OF assms] unfolding admits_def list.size add_0 append_Nil by (elim exE conjE)
  then have "r = Some new \<or> r = None" by (cases r) simp_all
  moreover have "distinct (map pr_key (ps_proposals st'))" using n(2) by (simp add: ps_wf_def)
  ultimately show ?thesis using n ps_wf_refs [OF n(2)] by (intro exI [of _ new]) simp
qed

definition demo_cx :: proposal_context where
  "demo_cx = \<lparr>cx_now = 0, cx_wall_utc = (\<lambda>s. if s = ''0001-01-01'' then Out_Of_Range else Not_Iso), cx_isoformat = (\<lambda>_. ''''),
     cx_vault_has = (\<lambda>p. p = ''Notes/Today.md''), cx_repos = [''me/repo'']\<rparr>"

definition offer :: "kind \<Rightarrow> string \<Rightarrow> int \<Rightarrow> proposal_in" where
  "offer k text at_ms = \<lparr>pi_kind = k, pi_evidence = [\<lparr>ev_start = at_ms, ev_text = []\<rparr>], pi_text = Some text, pi_due = None,
     pi_path = Some ''Notes/Today.md'', pi_title = None, pi_body = None, pi_at = None, pi_repo = None, pi_pr = None\<rparr>"

definition empty_state :: proposal_state where
  "empty_state = \<lparr>ps_proposals = [], ps_next = 1\<rparr>"

lemma empty_state_wf: "ps_wf empty_state"
  by (simp add: empty_state_def ps_wf_def)

lemma empty_restored: "restore_proposals [] = empty_state"
  by (simp add: restore_proposals_def empty_state_def ref_numbers_def)

theorem proposals_bounded_witness:
  "\<exists>new. ps_proposals (snd (apply_proposals id [offer TASK_CREATE ''buy milk'' 0] demo_cx None empty_state)) = new \<and> length new \<le> 3"
proof -
  obtain r st' where e: "apply_proposals id [offer TASK_CREATE ''buy milk'' 0] demo_cx None empty_state = (r, st')"
    by (cases "apply_proposals id [offer TASK_CREATE ''buy milk'' 0] demo_cx None empty_state")
  from proposals_bounded [OF e empty_state_wf] obtain new where "ps_proposals st' = new" "length new \<le> 3"
    by (auto simp: empty_state_def)
  with e show ?thesis by simp
qed

text \<open>
  C11: nothing is proposed that may not be shown. Whatever the model offers and however the store answers, every
  proposal that enters a session's queue has a payload its reviewer may see (one line where a line is meant, a path the
  vault indexes, a time in the coming ninety days, an allowlisted repository) and quotes only lines of the transcript.
\<close>

theorem proposed_backed_reviewable:
  assumes "propose sha cx rows admit incoming lines said mem = (r, Some st')"
    and "st = (case mem of None \<Rightarrow> restore_proposals rows | Some s \<Rightarrow> s)" "ps_wf st" "mem \<noteq> None \<or> ground incoming lines \<noteq> []"
  shows "\<exists>new. ps_proposals st' = ps_proposals st @ new \<and>
    (\<forall>q \<in> set new. reviewable cx (pr_kind q) (pr_payload q) \<and> pr_evidence q \<noteq> [] \<and> length (pr_evidence q) \<le> 3 \<and>
       (\<forall>e \<in> set (pr_evidence q). \<exists>x \<in> set lines. ev_start e = ln_start x \<and> ev_text e = ln_text x))"
proof (cases "ground incoming lines = []")
  case True
  with assms(1,2,4) have "st' = st" by (cases mem) (simp_all add: propose_def)
  then show ?thesis by (intro exI [of _ "[]"]) simp
next
  case False
  obtain r' where e: "apply_proposals sha (ground incoming lines) cx said st = (r', st')"
    using assms(1) False unfolding propose_def
    by (auto simp: Let_def assms(2) [symmetric] split: prod.splits option.splits if_splits)
  obtain new where n: "ps_proposals st' = ps_proposals st @ new" "\<forall>q \<in> set new. admitted_from cx (ground incoming lines) q"
    using apply_admits [OF e assms(3)] by (auto simp: admits_def)
  have "reviewable cx (pr_kind q) (pr_payload q) \<and> pr_evidence q \<noteq> [] \<and> length (pr_evidence q) \<le> 3 \<and>
      (\<forall>e \<in> set (pr_evidence q). \<exists>x \<in> set lines. ev_start e = ln_start x \<and> ev_text e = ln_text x)"
    if q: "q \<in> set new" for q
  proof -
    obtain p where p: "p \<in> set (ground incoming lines)" "pr_kind q = pi_kind p" "pr_evidence q = pi_evidence p"
      "build_payload p cx = Payload (pr_payload q)"
      using n(2) q by (auto simp: admitted_from_def)
    from ground_sound [OF p(1)] build_payload_reviewable [OF p(4)] p(2,3) show ?thesis
      by (auto simp: backed_def)
  qed
  with n(1) show ?thesis by (intro exI [of _ new]) simp
qed

definition said_line :: tline where
  "said_line = \<lparr>ln_start = 1000, ln_end = 2000, ln_speaker = ''You'', ln_text = ''buy some milk'', ln_segment = None, ln_label = None\<rparr>"

theorem proposed_backed_reviewable_witness:
  "\<exists>st' new. propose id demo_cx [] (\<lambda>_. Some 1) [offer TASK_CREATE ''buy milk'' 0] [said_line] None (Some empty_state) = (Inr 1, Some st') \<and>
     ps_proposals st' = new \<and> new \<noteq> [] \<and> reviewable demo_cx (pr_kind (hd new)) (pr_payload (hd new))"
proof -
  let ?p = "propose id demo_cx [] (\<lambda>_. Some 1) [offer TASK_CREATE ''buy milk'' 0] [said_line] None (Some empty_state)"
  have run: "fst ?p = Inr 1 \<and> map_option (\<lambda>s. map pr_ref (ps_proposals s)) (snd ?p) = Some [''p1'']"
    by code_simp
  then obtain st' where e: "?p = (Inr 1, Some st')" "ps_proposals st' \<noteq> []" by (cases ?p) auto
  from proposed_backed_reviewable [OF e(1) refl] empty_state_wf obtain new where
    "ps_proposals st' = ps_proposals empty_state @ new" "\<forall>q \<in> set new. reviewable demo_cx (pr_kind q) (pr_payload q)"
    by auto
  with e show ?thesis by (auto simp: empty_state_def)
qed

section \<open>Restoring and closing\<close>

lemma le_foldr_max: "n \<in> set ns \<Longrightarrow> n \<le> foldr max ns (0 :: nat)"
  by (induction ns) auto

lemma ref_numbers_refs:
  assumes "map pr_ref ps = map ref_of ns"
  shows "ref_numbers ps = ns"
  using assms
proof (induction ps arbitrary: ns)
  case Nil
  then show ?case by (simp add: ref_numbers_def)
next
  case (Cons p ps)
  then obtain m ms where ns: "ns = m # ms" "pr_ref p = ref_of m" "map pr_ref ps = map ref_of ms" by (cases ns) auto
  have "list_all is_digit (dec_str m)" using dec_str_digits by (auto simp: list_all_iff)
  with ns Cons.IH [OF ns(3)] show ?case by (simp add: ref_numbers_def ref_of_def)
qed

text \<open>A state rebuilt from its stored proposals is well formed, and issues no reference that was issued before.\<close>

lemma restore_wf:
  assumes "ps_wf st"
  shows "ps_wf (restore_proposals (ps_proposals st))"
proof -
  obtain ns where ns: "map pr_ref (ps_proposals st) = map ref_of ns" "distinct ns" using assms by (auto simp: ps_wf_def)
  have "\<forall>n \<in> set ns. n < ps_next (restore_proposals (ps_proposals st))"
    using le_foldr_max [of _ ns] by (auto simp: restore_proposals_def ref_numbers_refs [OF ns(1)] less_Suc_eq_le)
  moreover have "ps_proposals (restore_proposals (ps_proposals st)) = ps_proposals st" by (simp add: restore_proposals_def)
  moreover have "distinct (map pr_key (ps_proposals st))" using assms by (simp add: ps_wf_def)
  ultimately show ?thesis using ns unfolding ps_wf_def by auto
qed

lemma close_wf: "ps_wf st \<Longrightarrow> ps_wf (close_proposal ref st)"
proof -
  assume wf: "ps_wf st"
  have "map pr_key (ps_proposals (close_proposal ref st)) = map pr_key (ps_proposals st)"
    "map pr_ref (ps_proposals (close_proposal ref st)) = map pr_ref (ps_proposals st)"
    "ps_next (close_proposal ref st) = ps_next st"
    by (simp_all add: close_proposal_def)
  with wf show ?thesis unfolding ps_wf_def by simp
qed

lemma same_value_refl: "same_value v v"
  by (cases v) simp_all

lemma adds_nothing_refl: "distinct (map fst p) \<Longrightarrow> adds_nothing p p when_said"
  by (auto simp: adds_nothing_def list_all_iff same_value_refl)

text \<open>
  The state keeps what it admitted even when storing it failed: the proposal is then known, never shown, and never
  proposed again until the process restarts. And a wall time at the edge of the calendar raises instead of being dropped.
\<close>

lemma failed_admit_forgets:
  "(let p = [offer TASK_CREATE ''buy milk'' 0]; (r1, m1) = propose id demo_cx [] (\<lambda>_. None) p [said_line] None None;
        (r2, m2) = propose id demo_cx [] (\<lambda>a. Some (length a)) p [said_line] None m1
    in (r1, r2)) = (Inl (), Inr 0)"
  by code_simp

lemma edge_of_calendar_raises:
  "build_payload ((offer REMINDER_SCHEDULE [] 0)\<lparr>pi_title := Some ''call'', pi_at := Some ''0001-01-01''\<rparr>) demo_cx = Overflow_Error"
  by code_simp

lemma when_examples:
  "says_when ''on May'' \<and> says_when ''at 5'' \<and> \<not> says_when ''Mays''"
  by code_simp

end
