(* ===== verification/Actions.thy ===== *)
theory Actions
  imports Proposals
begin

text \<open>
  The review queue (\<open>actions/service.py\<close>): the rows of \<open>action_proposals\<close>, the audit log, and \<open>ActionService\<close>, which
  stores proposals, takes the owner's edits, rejections, approvals and retries, and runs what was approved. Each
  operation is a function on the two tables. A request that reads a row and writes later is two functions, so that the
  step relation can put other requests between them. The executors, SHA-256 and the clock are parameters.
\<close>

section \<open>Rows and the audit log\<close>

datatype action_state = Proposed | Approved | Executing | Succeeded | Failed | Rejected | Expired

fun state_name :: "action_state \<Rightarrow> string" where
  "state_name Proposed = ''proposed''"
| "state_name Approved = ''approved''"
| "state_name Executing = ''executing''"
| "state_name Succeeded = ''succeeded''"
| "state_name Failed = ''failed''"
| "state_name Rejected = ''rejected''"
| "state_name Expired = ''expired''"

datatype actor_kind = Web | Device | System

record actor =
  ac_user :: nat
  ac_kind :: actor_kind

record action_row =
  aw_id :: nat
  aw_session :: nat
  aw_user :: nat
  aw_ref :: string
  aw_position :: nat
  aw_kind :: kind
  aw_payload :: payload
  aw_sha :: string
  aw_key :: string
  aw_evidence :: "evidence list"
  aw_state :: action_state
  aw_proposed_by :: string
  aw_approved_by :: "nat option"
  aw_approved_at :: "int option"
  aw_result :: "payload option"
  aw_executed_at :: "int option"
  aw_version :: nat
  aw_created_at :: int
  aw_updated_at :: int

datatype audit =
    Ev_Proposed string string
  | Ev_Edited payload payload string
  | Ev_Rejected
  | Ev_Approved string
  | Ev_Retry string
  | Ev_Started
  | Ev_Succeeded payload
  | Ev_Failed payload
  | Ev_Expired
  | Ev_Reminder_Sent
  | Ev_Reminder_Failed string

record audit_row =
  au_proposal :: nat
  au_actor :: "actor option"
  au_event :: audit

record action_db =
  ad_rows :: "action_row list"
  ad_log :: "audit_row list"

definition EDITABLE :: "kind \<Rightarrow> string list" where
  "EDITABLE k = (case k of
     TASK_CREATE \<Rightarrow> [''text'', ''due'']
   | VAULT_APPEND \<Rightarrow> [''text'']
   | REMINDER_SCHEDULE \<Rightarrow> [''title'', ''body'', ''at'']
   | GIT_PR_COMMENT \<Rightarrow> [''body'']
   | PI_SESSION \<Rightarrow> [''title'', ''text''])"

definition WEB_APPROVAL_KINDS :: "kind list" where "WEB_APPROVAL_KINDS = [PI_SESSION]"

text \<open>\<open>ActionError\<close>, or any other exception by its class.\<close>

datatype action_fault = Refused nat string | Raised string

section \<open>Statements\<close>

definition row_of :: "action_db \<Rightarrow> nat \<Rightarrow> action_row option" where
  "row_of db pid = find (\<lambda>r. aw_id r = pid) (ad_rows db)"

definition log_event :: "nat \<Rightarrow> audit \<Rightarrow> actor option \<Rightarrow> action_db \<Rightarrow> action_db" where
  "log_event pid e actor db = db\<lparr>ad_log := ad_log db @ [\<lparr>au_proposal = pid, au_actor = actor, au_event = e\<rparr>]\<rparr>"

text \<open>\<open>UPDATE ... SET ..., version = version + 1, updated_at = now() WHERE P\<close>: what it returns, and the table after it.\<close>

definition touched :: "int \<Rightarrow> action_row \<Rightarrow> action_row" where
  "touched now r = r\<lparr>aw_version := aw_version r + 1, aw_updated_at := now\<rparr>"

definition update_where :: "int \<Rightarrow> (action_row \<Rightarrow> bool) \<Rightarrow> (action_row \<Rightarrow> action_row) \<Rightarrow> action_db \<Rightarrow> nat list \<times> action_db" where
  "update_where now P f db =
     (map aw_id (filter P (ad_rows db)), db\<lparr>ad_rows := map (\<lambda>r. if P r then f (touched now r) else r) (ad_rows db)\<rparr>)"

definition cas :: "int \<Rightarrow> nat \<Rightarrow> action_state \<Rightarrow> (action_row \<Rightarrow> action_row) \<Rightarrow> action_db \<Rightarrow> bool \<times> action_db" where
  "cas now pid expect f db =
     (let (ids, db') = update_where now (\<lambda>r. aw_id r = pid \<and> aw_state r = expect) f db in (ids \<noteq> [], db'))"

definition own :: "action_db \<Rightarrow> nat \<Rightarrow> nat \<Rightarrow> action_fault + action_row" where
  "own db pid user = (case row_of db pid of
     None \<Rightarrow> Inl (Refused 404 ''no such action'')
   | Some r \<Rightarrow> if aw_user r \<noteq> user then Inl (Refused 404 ''no such action'') else Inr r)"

section \<open>Proposing\<close>

text \<open>
  \<open>admit\<close>: one transaction; \<open>ON CONFLICT (session_id, dedupe_key) DO NOTHING\<close>, and a clash on another unique
  index raises, which rolls everything back (\<open>None\<close>). \<open>uuids\<close> are the ids drawn, one per proposal.
\<close>

definition last_position :: "nat \<Rightarrow> action_db \<Rightarrow> nat" where
  "last_position sid db = foldr max (map aw_position (filter (\<lambda>r. aw_session r = sid) (ad_rows db))) 0"

definition stored_row :: "int \<Rightarrow> nat \<Rightarrow> nat \<Rightarrow> string \<Rightarrow> nat \<Rightarrow> nat \<Rightarrow> proposal \<Rightarrow> action_row" where
  "stored_row now sid user author position new_id p =
     \<lparr>aw_id = new_id, aw_session = sid, aw_user = user, aw_ref = pr_ref p, aw_position = position + 1,
      aw_kind = pr_kind p, aw_payload = pr_payload p, aw_sha = pr_sha p, aw_key = pr_key p,
      aw_evidence = pr_evidence p, aw_state = Proposed, aw_proposed_by = author, aw_approved_by = None,
      aw_approved_at = None, aw_result = None, aw_executed_at = None, aw_version = 1, aw_created_at = now,
      aw_updated_at = now\<rparr>"

fun admit_rows :: "int \<Rightarrow> nat \<Rightarrow> nat \<Rightarrow> string \<Rightarrow> nat \<Rightarrow> (nat \<times> proposal) list \<Rightarrow> action_db \<Rightarrow> (nat list \<times> action_db) option" where
  "admit_rows now sid user author position [] db = Some ([], db)"
| "admit_rows now sid user author position ((new_id, p) # ps) db =
     (if \<exists>r \<in> set (ad_rows db). aw_session r = sid \<and> aw_key r = pr_key p
      then admit_rows now sid user author position ps db
      else if \<exists>r \<in> set (ad_rows db). aw_id r = new_id \<or> aw_session r = sid \<and> aw_ref r = pr_ref p then None
      else (let row = stored_row now sid user author position new_id p;
                db1 = log_event new_id (Ev_Proposed author (pr_sha p)) None (db\<lparr>ad_rows := ad_rows db @ [row]\<rparr>)
            in case admit_rows now sid user author (position + 1) ps db1 of
                 None \<Rightarrow> None
               | Some (ids, db') \<Rightarrow> Some (new_id # ids, db')))"

definition admit :: "int \<Rightarrow> nat \<Rightarrow> nat \<Rightarrow> string \<Rightarrow> nat list \<Rightarrow> proposal list \<Rightarrow> action_db \<Rightarrow> (nat list \<times> action_db) option" where
  "admit now sid user author uuids ps db = admit_rows now sid user author (last_position sid db) (zip uuids ps) db"

section \<open>Reviewing\<close>

text \<open>
  \<open>changes\<close> is JSON from the client. \<open>merged_str\<close> and \<open>merged_int\<close> are what \<open>ProposalIn(**merged)\<close> makes of a field of
  \<open>{**row.payload, **changes}\<close>: \<open>None\<close> when pydantic refuses the value.
\<close>

datatype json_change = Ch_Value pvalue | Ch_Null | Ch_Other

definition merged_field :: "payload \<Rightarrow> (string \<times> json_change) list \<Rightarrow> string \<Rightarrow> json_change" where
  "merged_field old changes f = (case map_of changes f of
     Some c \<Rightarrow> c
   | None \<Rightarrow> (case map_of old f of Some v \<Rightarrow> Ch_Value v | None \<Rightarrow> Ch_Null))"

fun merged_str :: "json_change \<Rightarrow> string option option" where
  "merged_str (Ch_Value (PStr s)) = Some (Some s)"
| "merged_str Ch_Null = Some None"
| "merged_str _ = None"

fun merged_int :: "json_change \<Rightarrow> int option option" where
  "merged_int (Ch_Value (PInt i)) = Some (Some i)"
| "merged_int Ch_Null = Some None"
| "merged_int _ = None"

definition proposal_from :: "kind \<Rightarrow> evidence list \<Rightarrow> (string \<Rightarrow> json_change) \<Rightarrow> proposal_in option" where
  "proposal_from k evidence field =
     (case (merged_str (field ''text''), merged_str (field ''due''), merged_str (field ''path''), merged_str (field ''title''),
            merged_str (field ''body''), merged_str (field ''at''), merged_str (field ''repo''), merged_int (field ''pr'')) of
        (Some text, Some due, Some path, Some title, Some body, Some at_, Some repo, Some pr) \<Rightarrow>
          Some \<lparr>pi_kind = k, pi_evidence = evidence, pi_text = text, pi_due = due, pi_path = path, pi_title = title,
                pi_body = body, pi_at = at_, pi_repo = repo, pi_pr = pr\<rparr>
      | _ \<Rightarrow> None)"

text \<open>\<open>edit\<close> up to its statement: the refusals of what was read, and the new payload.\<close>

definition edit_payload :: "proposal_context \<Rightarrow> action_row \<Rightarrow> (string \<times> json_change) list \<Rightarrow> action_fault + payload" where
  "edit_payload cx row changes =
     (if aw_state row \<noteq> Proposed
      then Inl (Refused 409 (''the action is '' @ state_name (aw_state row) @ '', not proposed''))
      else (let bad = sort_key (map code) (remdups (filter (\<lambda>f. f \<notin> set (EDITABLE (aw_kind row))) (map fst changes)))
            in if bad \<noteq> [] then Inl (Refused 400 (''cannot edit '' @ join '', '' bad))
            else (let evidence = (if aw_evidence row = [] then [\<lparr>ev_start = 0, ev_text = ''-''\<rparr>] else aw_evidence row)
                  in case proposal_from (aw_kind row) evidence (merged_field (aw_payload row) changes) of
                       None \<Rightarrow> Inl (Raised ''ValidationError'')
                     | Some p \<Rightarrow> (case build_payload p cx of
                         No_Payload \<Rightarrow> Inl (Refused 422 ''that is not a valid action'')
                       | Overflow_Error \<Rightarrow> Inl (Raised ''OverflowError'')
                       | Payload new \<Rightarrow> Inr new))))"

definition with_payload :: "(string \<Rightarrow> string) \<Rightarrow> kind \<Rightarrow> payload \<Rightarrow> action_row \<Rightarrow> action_row" where
  "with_payload sha k new r = r\<lparr>aw_payload := new, aw_sha := payload_sha256 sha k new, aw_key := dedupe_key sha k new\<rparr>"

text \<open>The statement, its log entry and the commit; the unique index on (session, key) refuses a payload another row has.\<close>

definition edit_write ::
  "(string \<Rightarrow> string) \<Rightarrow> int \<Rightarrow> actor \<Rightarrow> action_row \<Rightarrow> payload \<Rightarrow> action_db \<Rightarrow> (action_fault + action_row) \<times> action_db" where
  "edit_write sha now actor row new db =
     (let pid = aw_id row; k = aw_kind row; (changed, db1) = cas now pid Proposed (with_payload sha k new) db
      in if \<not> changed then (Inl (Refused 409 ''the action changed; reload it''), db)
      else if \<exists>r \<in> set (ad_rows db). aw_id r \<noteq> pid \<and> aw_session r = aw_session row \<and> aw_key r = dedupe_key sha k new
      then (Inl (Refused 409 ''an identical action already exists''), db)
      else (let db2 = log_event pid (Ev_Edited (aw_payload row) new (payload_sha256 sha k new)) (Some actor) db1
            in (own db2 pid (ac_user actor), db2)))"

definition edit ::
  "(string \<Rightarrow> string) \<Rightarrow> int \<Rightarrow> proposal_context \<Rightarrow> nat \<Rightarrow> actor \<Rightarrow> (string \<times> json_change) list \<Rightarrow> action_db \<Rightarrow>
     (action_fault + action_row) \<times> action_db" where
  "edit sha now cx pid actor changes db = (case own db pid (ac_user actor) of
     Inl e \<Rightarrow> (Inl e, db)
   | Inr row \<Rightarrow> (case edit_payload cx row changes of
       Inl e \<Rightarrow> (Inl e, db)
     | Inr new \<Rightarrow> edit_write sha now actor row new db))"

definition reject_write :: "int \<Rightarrow> actor \<Rightarrow> action_row \<Rightarrow> action_db \<Rightarrow> (action_fault + action_row) \<times> action_db" where
  "reject_write now actor row db =
     (if aw_state row = Rejected then (Inr row, db)
      else (let (changed, db1) = cas now (aw_id row) Proposed (\<lambda>r. r\<lparr>aw_state := Rejected\<rparr>) db
            in if \<not> changed then (Inl (Refused 409 (''the action is '' @ state_name (aw_state row) @ '', not proposed'')), db)
            else (let db2 = log_event (aw_id row) Ev_Rejected (Some actor) db1
                  in (own db2 (aw_id row) (ac_user actor), db2))))"


datatype approval = Approval_Approved | Approval_Already | Approval_Stale | Approval_Not_Open | Approval_Not_Found | Approval_Needs_Web

definition may_approve :: "nat \<Rightarrow> actor \<Rightarrow> nat \<Rightarrow> string \<Rightarrow> action_row \<Rightarrow> bool" where
  "may_approve sid actor pid seen_sha r \<longleftrightarrow>
     aw_id r = pid \<and> aw_session r = sid \<and> aw_user r = ac_user actor \<and> aw_state r = Proposed \<and> aw_sha r = seen_sha \<and>
     (ac_kind actor = Web \<or> aw_kind r \<notin> set WEB_APPROVAL_KINDS)"

definition granted :: "int \<Rightarrow> actor \<Rightarrow> action_row \<Rightarrow> action_row" where
  "granted now actor r = r\<lparr>aw_state := Approved, aw_approved_by := Some (ac_user actor), aw_approved_at := Some now\<rparr>"

definition refused_approval :: "nat \<Rightarrow> actor \<Rightarrow> nat \<Rightarrow> action_db \<Rightarrow> approval" where
  "refused_approval sid actor pid db = (case row_of db pid of
     None \<Rightarrow> Approval_Not_Found
   | Some r \<Rightarrow>
       if aw_user r \<noteq> ac_user actor \<or> aw_session r \<noteq> sid then Approval_Not_Found
       else if aw_state r \<in> {Rejected, Expired} then Approval_Not_Open
       else if aw_state r = Proposed \<and> ac_kind actor \<noteq> Web \<and> aw_kind r \<in> set WEB_APPROVAL_KINDS then Approval_Needs_Web
       else if aw_state r = Proposed then Approval_Stale
       else Approval_Already)"

definition approve_item :: "int \<Rightarrow> nat \<Rightarrow> actor \<Rightarrow> nat \<times> string \<Rightarrow> action_db \<Rightarrow> approval \<times> action_db" where
  "approve_item now sid actor item db =
     (let (pid, seen_sha) = item;
          (ids, db1) = update_where now (may_approve sid actor pid seen_sha) (granted now actor) db
      in if ids \<noteq> [] then (Approval_Approved, log_event pid (Ev_Approved seen_sha) (Some actor) db1)
      else (refused_approval sid actor pid db, db))"

fun approve :: "int \<Rightarrow> nat \<Rightarrow> actor \<Rightarrow> (nat \<times> string) list \<Rightarrow> action_db \<Rightarrow> (nat \<times> approval) list \<times> action_db" where
  "approve now sid actor [] db = ([], db)"
| "approve now sid actor (item # items) db =
     (let (out, db1) = approve_item now sid actor item db; (outs, db2) = approve now sid actor items db1
      in ((fst item, out) # outs, db2))"

definition retry_write :: "int \<Rightarrow> actor \<Rightarrow> action_row \<Rightarrow> action_db \<Rightarrow> (action_fault + action_row) \<times> action_db" where
  "retry_write now actor row db =
     (if aw_kind row \<in> set WEB_APPROVAL_KINDS \<and> ac_kind actor \<noteq> Web
      then (Inl (Refused 403 ''retry this from the dashboard sign-in, not a device token''), db)
      else (let (changed, db1) = cas now (aw_id row) Failed (granted now actor) db
            in if \<not> changed then (Inl (Refused 409 (''the action is '' @ state_name (aw_state row) @ '', not failed'')), db)
            else (let db2 = log_event (aw_id row) (Ev_Retry (aw_sha row)) (Some actor) db1
                  in (own db2 (aw_id row) (ac_user actor), db2))))"

definition retry :: "int \<Rightarrow> nat \<Rightarrow> actor \<Rightarrow> action_db \<Rightarrow> (action_fault + action_row) \<times> action_db" where
  "retry now pid actor db = (case own db pid (ac_user actor) of
     Inl e \<Rightarrow> (Inl e, db) | Inr row \<Rightarrow> retry_write now actor row db)"

section \<open>Executing\<close>

datatype exec_result = Exec_Done payload | Exec_Error string | Exec_Raised string

text \<open>\<open>_next_approved\<close>, the two halves of \<open>_run\<close> (the claim, and what the executor's outcome writes) and \<open>_finish\<close>.\<close>

definition next_approved :: "nat \<Rightarrow> action_db \<Rightarrow> nat option" where
  "next_approved sid db = (case filter (\<lambda>r. aw_session r = sid \<and> aw_state r = Approved) (ad_rows db) of
     [] \<Rightarrow> None
   | r # rs \<Rightarrow> Some (aw_id (foldl (\<lambda>b x. if aw_position x < aw_position b then x else b) r rs)))"

definition claim_action :: "int \<Rightarrow> nat \<Rightarrow> action_db \<Rightarrow> action_row option \<times> action_db" where
  "claim_action now pid db =
     (let (claimed, db1) = cas now pid Approved (\<lambda>r. r\<lparr>aw_state := Executing\<rparr>) db
      in if \<not> claimed then (None, db)
      else (let db2 = log_event pid Ev_Started None db1 in (row_of db2 pid, db2)))"

definition finish_action :: "int \<Rightarrow> nat \<Rightarrow> action_state \<Rightarrow> payload \<Rightarrow> action_db \<Rightarrow> action_db" where
  "finish_action now pid state result db =
     log_event pid (if state = Succeeded then Ev_Succeeded result else Ev_Failed result) None
       (snd (cas now pid Executing (\<lambda>r. r\<lparr>aw_state := state, aw_result := Some result, aw_executed_at := Some now\<rparr>) db))"

definition error_of :: "string \<Rightarrow> payload" where "error_of text = [(''error'', PStr text)]"

text \<open>\<open>Exec_Raised\<close> carries the text \<open>type(e).__name__: e\<close>. Without an executor the outcome is an \<open>ExecutionError\<close>.\<close>

definition outcome_of :: "(kind \<Rightarrow> bool) \<Rightarrow> kind \<Rightarrow> exec_result \<Rightarrow> exec_result" where
  "outcome_of can_run k result =
     (if can_run k then result else Exec_Error (kind_str k @ '' is not available in this deployment''))"

fun settle_action :: "int \<Rightarrow> nat \<Rightarrow> exec_result \<Rightarrow> action_db \<Rightarrow> action_db" where
  "settle_action now pid (Exec_Done result) db = finish_action now pid Succeeded result db"
| "settle_action now pid (Exec_Error text) db = finish_action now pid Failed (error_of text) db"
| "settle_action now pid (Exec_Raised text) db = finish_action now pid Failed (error_of text) db"

definition run_action :: "int \<Rightarrow> (kind \<Rightarrow> bool) \<Rightarrow> (action_row \<Rightarrow> exec_result) \<Rightarrow> nat \<Rightarrow> action_db \<Rightarrow> action_db" where
  "run_action now can_run exec pid db = (case claim_action now pid db of
     (None, db1) \<Rightarrow> db1
   | (Some row, db1) \<Rightarrow> settle_action now pid (outcome_of can_run (aw_kind row) (exec row)) db1)"

text \<open>\<open>execute_approved\<close> with no request in between; the number of approved rows bounds its rounds.\<close>

definition approved_rows :: "nat \<Rightarrow> action_db \<Rightarrow> action_row list" where
  "approved_rows sid db = filter (\<lambda>r. aw_session r = sid \<and> aw_state r = Approved) (ad_rows db)"

fun execute_rounds :: "nat \<Rightarrow> int \<Rightarrow> (kind \<Rightarrow> bool) \<Rightarrow> (action_row \<Rightarrow> exec_result) \<Rightarrow> nat \<Rightarrow> action_db \<Rightarrow> action_db option" where
  "execute_rounds 0 now can_run exec sid db = None"
| "execute_rounds (Suc fuel) now can_run exec sid db = (case next_approved sid db of
     None \<Rightarrow> Some db
   | Some pid \<Rightarrow> execute_rounds fuel now can_run exec sid (run_action now can_run exec pid db))"

section \<open>Housekeeping\<close>

definition expire_stale :: "int \<Rightarrow> int \<Rightarrow> action_db \<Rightarrow> nat \<times> action_db" where
  "expire_stale now ttl_days db =
     (let cutoff = now - ttl_days * DAY_S;
          (ids, db1) = update_where now (\<lambda>r. aw_state r = Proposed \<and> aw_created_at r < cutoff) (\<lambda>r. r\<lparr>aw_state := Expired\<rparr>) db
      in (length ids, fold (\<lambda>pid. log_event pid Ev_Expired None) ids db1))"

text \<open>\<open>recover\<close>: \<open>reconcile row\<close> is what the executor found, \<open>None\<close> when it found nothing, raised or does not exist.\<close>

definition recover_row :: "int \<Rightarrow> (action_row \<Rightarrow> payload option) \<Rightarrow> action_row \<Rightarrow> action_db \<Rightarrow> action_db" where
  "recover_row now reconcile row db = (case reconcile row of
     Some found \<Rightarrow> finish_action now (aw_id row) Succeeded found db
   | None \<Rightarrow> finish_action now (aw_id row) Failed (error_of ''interrupted, outcome unknown; retry to run it again'') db)"

definition executing_rows :: "action_db \<Rightarrow> action_row list" where
  "executing_rows db = filter (\<lambda>r. aw_state r = Executing) (ad_rows db)"

definition recover_actions :: "int \<Rightarrow> (action_row \<Rightarrow> payload option) \<Rightarrow> action_db \<Rightarrow> action_db" where
  "recover_actions now reconcile db = fold (recover_row now reconcile) (executing_rows db) db"

section \<open>The service\<close>

text \<open>
  The service with its requests interleaved. \<open>as_seen\<close> holds the rows that requests in flight have read, \<open>as_waiting\<close> the
  background tasks of a session that wait for its lock, \<open>as_runner\<close> what the holder of the lock does, \<open>as_calls\<close> the rows
  executors were called with. A crash stops everything at any point; a start settles what it finds \<open>executing\<close> (a
  prefix of it, when it crashes again) before any request is served (\<open>app.py\<close>).
\<close>

datatype runner = Idle | Looping | Picked nat | Running action_row

record action_sys =
  as_db :: action_db
  as_seen :: "action_row list"
  as_waiting :: "nat \<Rightarrow> nat"
  as_runner :: "nat \<Rightarrow> runner"
  as_calls :: "action_row list"
  as_up :: bool

definition schedule_run :: "nat \<Rightarrow> action_sys \<Rightarrow> action_sys" where
  "schedule_run sid s = s\<lparr>as_waiting := (as_waiting s)(sid := as_waiting s sid + 1)\<rparr>"

definition set_runner :: "nat \<Rightarrow> runner \<Rightarrow> action_sys \<Rightarrow> action_sys" where
  "set_runner sid r s = s\<lparr>as_runner := (as_runner s)(sid := r)\<rparr>"

text \<open>A proposal as \<open>ProposalState.apply\<close> makes it: its hash is the hash of its content.\<close>

definition well_hashed :: "(string \<Rightarrow> string) \<Rightarrow> proposal \<Rightarrow> bool" where
  "well_hashed sha p \<longleftrightarrow> pr_sha p = payload_sha256 sha (pr_kind p) (pr_payload p)"

inductive action_step :: "(string \<Rightarrow> string) \<Rightarrow> (kind \<Rightarrow> bool) \<Rightarrow> action_sys \<Rightarrow> action_sys \<Rightarrow> bool" for sha can_run where
  Admit: "as_up s \<Longrightarrow> list_all (well_hashed sha) ps \<Longrightarrow> admit now sid user author uuids ps (as_db s) = Some (ids, db) \<Longrightarrow>
    action_step sha can_run s (s\<lparr>as_db := db\<rparr>)"
| Read: "as_up s \<Longrightarrow> own (as_db s) pid user = Inr row \<Longrightarrow> action_step sha can_run s (s\<lparr>as_seen := row # as_seen s\<rparr>)"
| Edit: "as_up s \<Longrightarrow> row \<in> set (as_seen s) \<Longrightarrow> aw_user row = ac_user actor \<Longrightarrow> edit_payload cx row changes = Inr new \<Longrightarrow>
    edit_write sha now actor row new (as_db s) = (out, db) \<Longrightarrow> action_step sha can_run s (s\<lparr>as_db := db\<rparr>)"
| Reject: "as_up s \<Longrightarrow> row \<in> set (as_seen s) \<Longrightarrow> aw_user row = ac_user actor \<Longrightarrow>
    reject_write now actor row (as_db s) = (out, db) \<Longrightarrow> action_step sha can_run s (s\<lparr>as_db := db\<rparr>)"
| Approve: "as_up s \<Longrightarrow> approve now sid actor items (as_db s) = (outs, db) \<Longrightarrow>
    action_step sha can_run s ((if Approval_Approved \<in> set (map snd outs) then schedule_run sid else id) (s\<lparr>as_db := db\<rparr>))"
| Retry: "as_up s \<Longrightarrow> row \<in> set (as_seen s) \<Longrightarrow> aw_user row = ac_user actor \<Longrightarrow>
    retry_write now actor row (as_db s) = (Inr row', db) \<Longrightarrow>
    action_step sha can_run s (schedule_run (aw_session row') (s\<lparr>as_db := db\<rparr>))"
| Lock: "as_up s \<Longrightarrow> as_waiting s sid = Suc n \<Longrightarrow> as_runner s sid = Idle \<Longrightarrow>
    action_step sha can_run s (set_runner sid Looping (s\<lparr>as_waiting := (as_waiting s)(sid := n)\<rparr>))"
| Pick: "as_up s \<Longrightarrow> as_runner s sid = Looping \<Longrightarrow>
    action_step sha can_run s (set_runner sid (case next_approved sid (as_db s) of None \<Rightarrow> Idle | Some pid \<Rightarrow> Picked pid) s)"
| Lost: "as_up s \<Longrightarrow> as_runner s sid = Picked pid \<Longrightarrow> claim_action now pid (as_db s) = (None, db) \<Longrightarrow>
    action_step sha can_run s (set_runner sid Looping (s\<lparr>as_db := db\<rparr>))"
| Start: "as_up s \<Longrightarrow> as_runner s sid = Picked pid \<Longrightarrow> claim_action now pid (as_db s) = (Some row, db) \<Longrightarrow>
    action_step sha can_run s (set_runner sid (Running row)
      (s\<lparr>as_db := db, as_calls := (if can_run (aw_kind row) then as_calls s @ [row] else as_calls s)\<rparr>))"
| End: "as_up s \<Longrightarrow> as_runner s sid = Running row \<Longrightarrow>
    action_step sha can_run s (set_runner sid Looping
      (s\<lparr>as_db := settle_action now (aw_id row) (outcome_of can_run (aw_kind row) result) (as_db s)\<rparr>))"
| Expire: "as_up s \<Longrightarrow> action_step sha can_run s (s\<lparr>as_db := snd (expire_stale now ttl (as_db s))\<rparr>)"
| Crash: "action_step sha can_run s (s\<lparr>as_seen := [], as_waiting := (\<lambda>_. 0), as_runner := (\<lambda>_. Idle), as_up := False\<rparr>)"
| Boot: "\<not> as_up s \<Longrightarrow> action_step sha can_run s (s\<lparr>as_db := recover_actions now reconcile (as_db s), as_up := True\<rparr>)"
| Boot_Crash: "\<not> as_up s \<Longrightarrow>
    action_step sha can_run s (s\<lparr>as_db := fold (recover_row now reconcile) (take n (executing_rows (as_db s))) (as_db s)\<rparr>)"

definition new_service :: action_sys where
  "new_service = \<lparr>as_db = \<lparr>ad_rows = [], ad_log = []\<rparr>, as_seen = [], as_waiting = (\<lambda>_. 0), as_runner = (\<lambda>_. Idle),
     as_calls = [], as_up = False\<rparr>"

abbreviation action_steps :: "(string \<Rightarrow> string) \<Rightarrow> (kind \<Rightarrow> bool) \<Rightarrow> action_sys \<Rightarrow> action_sys \<Rightarrow> bool" where
  "action_steps sha can_run \<equiv> (action_step sha can_run)\<^sup>*\<^sup>*"

section \<open>The life of a proposal\<close>

text \<open>
  The abstract specification: what may happen to the two tables. A row is stored as \<open>proposed\<close>; each move changes one
  row and logs one event, one that \<open>may\<close> admits. Only an edit changes the content; \<open>entitled\<close> says whose approval a move needs.
\<close>

definition replace_row :: "nat \<Rightarrow> action_row \<Rightarrow> action_db \<Rightarrow> action_db" where
  "replace_row pid row db = db\<lparr>ad_rows := map (\<lambda>r. if aw_id r = pid then row else r) (ad_rows db)\<rparr>"

definition hash_ok :: "(string \<Rightarrow> string) \<Rightarrow> action_row \<Rightarrow> bool" where
  "hash_ok sha r \<longleftrightarrow> aw_sha r = payload_sha256 sha (aw_kind r) (aw_payload r)"

definition identity_of :: "action_row \<Rightarrow> nat \<times> nat \<times> nat \<times> string \<times> nat \<times> kind" where
  "identity_of r = (aw_id r, aw_session r, aw_user r, aw_ref r, aw_position r, aw_kind r)"

definition content_of :: "action_row \<Rightarrow> payload \<times> string \<times> string" where
  "content_of r = (aw_payload r, aw_sha r, aw_key r)"

definition entitled :: "actor \<Rightarrow> action_row \<Rightarrow> bool" where
  "entitled a r \<longleftrightarrow> ac_user a = aw_user r \<and> (aw_kind r = PI_SESSION \<longrightarrow> ac_kind a = Web)"

fun allowed :: "action_row \<Rightarrow> audit \<Rightarrow> actor option \<Rightarrow> action_row \<Rightarrow> bool" where
  "allowed r (Ev_Edited before new h) a r' \<longleftrightarrow> aw_state r = Proposed \<and> aw_state r' = Proposed \<and> h = aw_sha r' \<and> new = aw_payload r'"
| "allowed r Ev_Rejected a r' \<longleftrightarrow> aw_state r = Proposed \<and> aw_state r' = Rejected \<and> content_of r' = content_of r"
| "allowed r Ev_Expired a r' \<longleftrightarrow> aw_state r = Proposed \<and> aw_state r' = Expired \<and> content_of r' = content_of r \<and> a = None"
| "allowed r (Ev_Approved h) a r' \<longleftrightarrow> aw_state r = Proposed \<and> aw_state r' = Approved \<and> content_of r' = content_of r \<and>
     h = aw_sha r \<and> (\<exists>x. a = Some x \<and> entitled x r)"
| "allowed r (Ev_Retry h) a r' \<longleftrightarrow> aw_state r = Failed \<and> aw_state r' = Approved \<and> content_of r' = content_of r \<and>
     (\<exists>x. a = Some x \<and> entitled x r)"
| "allowed r Ev_Started a r' \<longleftrightarrow> aw_state r = Approved \<and> aw_state r' = Executing \<and> content_of r' = content_of r \<and> a = None"
| "allowed r (Ev_Succeeded res) a r' \<longleftrightarrow> aw_state r = Executing \<and> aw_state r' = Succeeded \<and> content_of r' = content_of r \<and> a = None"
| "allowed r (Ev_Failed res) a r' \<longleftrightarrow> aw_state r = Executing \<and> aw_state r' = Failed \<and> content_of r' = content_of r \<and> a = None"
| "allowed r _ a r' \<longleftrightarrow> False"

inductive move :: "(string \<Rightarrow> string) \<Rightarrow> (nat \<Rightarrow> audit \<Rightarrow> bool) \<Rightarrow> action_db \<Rightarrow> action_db \<Rightarrow> bool" for sha may where
  Store: "aw_id row \<notin> aw_id ` set (ad_rows db) \<Longrightarrow> aw_state row = Proposed \<Longrightarrow> hash_ok sha row \<Longrightarrow>
    (\<forall>r \<in> set (ad_rows db). aw_session r = aw_session row \<longrightarrow> aw_key r \<noteq> aw_key row) \<Longrightarrow>
    move sha may db (log_event (aw_id row) (Ev_Proposed author (aw_sha row)) None (db\<lparr>ad_rows := ad_rows db @ [row]\<rparr>))"
| Change: "r \<in> set (ad_rows db) \<Longrightarrow> identity_of r' = identity_of r \<Longrightarrow> hash_ok sha r' \<Longrightarrow> allowed r e a r' \<Longrightarrow> may (aw_id r) e \<Longrightarrow>
    (\<forall>x \<in> set (ad_rows db). aw_id x \<noteq> aw_id r \<and> aw_session x = aw_session r \<longrightarrow> aw_key x \<noteq> aw_key r') \<Longrightarrow>
    move sha may db (log_event (aw_id r) e a (replace_row (aw_id r) r' db))"

abbreviation moves :: "(string \<Rightarrow> string) \<Rightarrow> (nat \<Rightarrow> audit \<Rightarrow> bool) \<Rightarrow> action_db \<Rightarrow> action_db \<Rightarrow> bool" where
  "moves sha may \<equiv> (move sha may)\<^sup>*\<^sup>*"

section \<open>What the moves keep\<close>

fun is_grant :: "audit \<Rightarrow> bool" where
  "is_grant (Ev_Approved h) = True" | "is_grant (Ev_Retry h) = True" | "is_grant _ = False"

fun is_start :: "audit \<Rightarrow> bool" where
  "is_start Ev_Started = True" | "is_start _ = False"

fun is_end :: "audit \<Rightarrow> bool" where
  "is_end (Ev_Succeeded res) = True" | "is_end (Ev_Failed res) = True" | "is_end _ = False"

definition logged :: "(audit \<Rightarrow> bool) \<Rightarrow> nat \<Rightarrow> action_db \<Rightarrow> nat" where
  "logged P pid db = length (filter (\<lambda>l. au_proposal l = pid \<and> P (au_event l)) (ad_log db))"

definition approved_by_owner :: "action_row \<Rightarrow> action_db \<Rightarrow> bool" where
  "approved_by_owner r db \<longleftrightarrow> (\<exists>l \<in> set (ad_log db). \<exists>a.
     au_proposal l = aw_id r \<and> au_event l = Ev_Approved (aw_sha r) \<and> au_actor l = Some a \<and> entitled a r)"

definition tables_ok :: "(string \<Rightarrow> string) \<Rightarrow> action_db \<Rightarrow> bool" where
  "tables_ok sha db \<longleftrightarrow> distinct (map aw_id (ad_rows db)) \<and> (\<forall>r \<in> set (ad_rows db). hash_ok sha r) \<and>
     (\<forall>l \<in> set (ad_log db). au_proposal l \<in> aw_id ` set (ad_rows db))"

definition row_ok :: "action_row \<Rightarrow> action_db \<Rightarrow> bool" where
  "row_ok r db \<longleftrightarrow>
     logged is_grant (aw_id r) db = logged is_start (aw_id r) db + (if aw_state r = Approved then 1 else 0) \<and>
     logged is_start (aw_id r) db = logged is_end (aw_id r) db + (if aw_state r = Executing then 1 else 0) \<and>
     (aw_state r \<in> {Approved, Executing, Succeeded, Failed} \<longrightarrow> approved_by_owner r db)"

definition unique_keys :: "action_db \<Rightarrow> bool" where
  "unique_keys db \<longleftrightarrow> (\<forall>r \<in> set (ad_rows db). \<forall>x \<in> set (ad_rows db).
     aw_session x = aw_session r \<and> aw_key x = aw_key r \<longrightarrow> aw_id x = aw_id r)"

definition db_ok :: "(string \<Rightarrow> string) \<Rightarrow> action_db \<Rightarrow> bool" where
  "db_ok sha db \<longleftrightarrow> tables_ok sha db \<and> unique_keys db \<and> (\<forall>r \<in> set (ad_rows db). row_ok r db)"

lemma log_event_sel [simp]:
  "ad_rows (log_event pid e a db) = ad_rows db"
  "ad_log (log_event pid e a db) = ad_log db @ [\<lparr>au_proposal = pid, au_actor = a, au_event = e\<rparr>]"
  by (simp_all add: log_event_def)

lemma replace_row_sel [simp]:
  "ad_rows (replace_row pid row db) = map (\<lambda>r. if aw_id r = pid then row else r) (ad_rows db)"
  "ad_log (replace_row pid row db) = ad_log db"
  by (simp_all add: replace_row_def)

lemma logged_event [simp]:
  "logged P x (log_event pid e a db) = logged P x db + (if x = pid \<and> P e then 1 else 0)"
  by (simp add: logged_def)

lemma logged_rows [simp]:
  "logged P x (replace_row pid row db) = logged P x db" "logged P x (db\<lparr>ad_rows := rows\<rparr>) = logged P x db"
  by (simp_all add: logged_def)

lemma logged_fresh: "tables_ok sha db \<Longrightarrow> x \<notin> aw_id ` set (ad_rows db) \<Longrightarrow> logged P x db = 0"
  by (auto simp: logged_def tables_ok_def filter_empty_conv)

lemma approved_mono: "approved_by_owner r db \<Longrightarrow> set (ad_log db) \<subseteq> set (ad_log db') \<Longrightarrow> approved_by_owner r db'"
  by (auto simp: approved_by_owner_def)

lemma approved_same:
  "approved_by_owner r db \<Longrightarrow> identity_of r' = identity_of r \<Longrightarrow> content_of r' = content_of r \<Longrightarrow> approved_by_owner r' db"
  by (simp add: approved_by_owner_def identity_of_def content_of_def entitled_def)

lemma replaced_rows:
  "r' \<in> set (ad_rows (replace_row pid row db)) \<Longrightarrow> r' = row \<or> r' \<in> set (ad_rows db) \<and> aw_id r' \<noteq> pid"
  by auto

lemma distinct_ids_eq:
  "distinct (map aw_id rows) \<Longrightarrow> r \<in> set rows \<Longrightarrow> x \<in> set rows \<Longrightarrow> aw_id r = aw_id x \<Longrightarrow> r = x"
  by (metis distinct_map inj_on_def)

lemma replace_ids:
  "aw_id row = pid \<Longrightarrow> map aw_id (ad_rows (replace_row pid row db)) = map aw_id (ad_rows db)"
  by (simp add: o_def if_distrib cong: if_cong)

lemma row_ok_other:
  "row_ok r db \<Longrightarrow> aw_id r \<noteq> pid \<Longrightarrow> row_ok r (log_event pid e a (replace_row pid row db))"
  by (auto simp: row_ok_def intro: approved_mono)

lemma row_ok_changed:
  assumes "row_ok r db" "identity_of r' = identity_of r" "allowed r e a r'"
  shows "row_ok r' (log_event (aw_id r) e a (replace_row (aw_id r) r' db))"
proof -
  have id: "aw_id r' = aw_id r" using assms(2) by (simp add: identity_of_def)
  have kept: "approved_by_owner r' (log_event (aw_id r) e a (replace_row (aw_id r) r' db))"
    if "content_of r' = content_of r" "approved_by_owner r db"
    by (rule approved_mono [OF approved_same [OF that(2) assms(2) that(1)]]) auto
  show ?thesis
  proof (cases e)
    case (Ev_Approved h)
    then have "approved_by_owner r' (log_event (aw_id r) e a (replace_row (aw_id r) r' db))"
      using assms(2,3) by (auto simp: approved_by_owner_def identity_of_def content_of_def entitled_def)
    with Ev_Approved assms id show ?thesis by (simp add: row_ok_def)
  qed (use assms id kept in \<open>auto simp: row_ok_def\<close>)
qed

lemma tables_okD:
  assumes "tables_ok sha db"
  shows "distinct (map aw_id (ad_rows db))" "r \<in> set (ad_rows db) \<Longrightarrow> hash_ok sha r"
  using assms by (auto simp: tables_ok_def)

lemma store_ok:
  assumes ok: "db_ok sha db" and new: "aw_id row \<notin> aw_id ` set (ad_rows db)" "aw_state row = Proposed" "hash_ok sha row"
    "\<forall>r \<in> set (ad_rows db). aw_session r = aw_session row \<longrightarrow> aw_key r \<noteq> aw_key row"
  shows "db_ok sha (log_event (aw_id row) (Ev_Proposed author (aw_sha row)) None (db\<lparr>ad_rows := ad_rows db @ [row]\<rparr>))" (is "db_ok sha ?db")
proof -
  have t: "tables_ok sha db" using ok by (simp add: db_ok_def)
  have "row_ok r ?db" if "r \<in> set (ad_rows ?db)" for r
  proof (cases "r = row")
    case True
    then show ?thesis using new logged_fresh [OF t new(1)] by (simp add: row_ok_def)
  next
    case False
    then have r: "r \<in> set (ad_rows db)" using that by simp
    then have "aw_id r \<noteq> aw_id row" using new(1) by (metis imageI)
    moreover have "row_ok r db" using r ok by (simp add: db_ok_def)
    ultimately show ?thesis by (auto simp: row_ok_def intro: approved_mono)
  qed
  moreover have "tables_ok sha ?db" using t new by (auto simp: tables_ok_def)
  moreover have "unique_keys ?db"
    unfolding unique_keys_def
  proof (intro ballI impI)
    fix x y assume "x \<in> set (ad_rows ?db)" "y \<in> set (ad_rows ?db)" "aw_session y = aw_session x \<and> aw_key y = aw_key x"
    then show "aw_id y = aw_id x" using ok new(4) unfolding db_ok_def unique_keys_def by (simp, metis)
  qed
  ultimately show ?thesis by (simp add: db_ok_def)
qed

lemma change_ok:
  assumes ok: "db_ok sha db" and r: "r \<in> set (ad_rows db)" "identity_of r' = identity_of r" "hash_ok sha r'" "allowed r e a r'"
    "\<forall>x \<in> set (ad_rows db). aw_id x \<noteq> aw_id r \<and> aw_session x = aw_session r \<longrightarrow> aw_key x \<noteq> aw_key r'"
  shows "db_ok sha (log_event (aw_id r) e a (replace_row (aw_id r) r' db))" (is "db_ok sha ?db")
proof -
  have t: "tables_ok sha db" using ok by (simp add: db_ok_def)
  have id: "aw_id r' = aw_id r" "aw_session r' = aw_session r" using r(2) by (simp_all add: identity_of_def)
  have "row_ok x ?db" if "x \<in> set (ad_rows ?db)" for x
    using replaced_rows [of x "aw_id r" r' db] that ok r(1)
      row_ok_changed [OF _ r(2,4), of db] row_ok_other [of x db "aw_id r" e a r']
    by (auto simp: db_ok_def)
  moreover have "tables_ok sha ?db"
    unfolding tables_ok_def
  proof (intro conjI ballI)
    show "distinct (map aw_id (ad_rows ?db))" using t id replace_ids [of r' "aw_id r" db] by (simp only: log_event_sel tables_ok_def)
    show "hash_ok sha x" if "x \<in> set (ad_rows ?db)" for x using that t r(3) by (auto simp: tables_ok_def)
    have "aw_id ` set (ad_rows ?db) = aw_id ` set (ad_rows db)"
      using replace_ids [of r' "aw_id r" db] id by (metis list.set_map log_event_sel(1))
    then show "au_proposal l \<in> aw_id ` set (ad_rows ?db)" if "l \<in> set (ad_log ?db)" for l
      using that t r(1) by (auto simp: tables_ok_def)
  qed
  moreover have "unique_keys ?db"
    unfolding unique_keys_def
  proof (intro ballI impI)
    fix x y assume "x \<in> set (ad_rows ?db)" "y \<in> set (ad_rows ?db)"
    then have "x = r' \<or> x \<in> set (ad_rows db) \<and> aw_id x \<noteq> aw_id r" "y = r' \<or> y \<in> set (ad_rows db) \<and> aw_id y \<noteq> aw_id r"
      using replaced_rows [of _ "aw_id r" r' db] by simp_all
    moreover assume "aw_session y = aw_session x \<and> aw_key y = aw_key x"
    ultimately show "aw_id y = aw_id x" using ok r(5) id unfolding db_ok_def unique_keys_def by metis
  qed
  ultimately show ?thesis by (simp add: db_ok_def)
qed

lemma life_move_ok: "move sha may db db' \<Longrightarrow> db_ok sha db \<Longrightarrow> db_ok sha db'"
  by (induction rule: move.induct) (use store_ok change_ok in auto)

lemma moves_ok: "moves sha may db db' \<Longrightarrow> db_ok sha db \<Longrightarrow> db_ok sha db'"
  by (induction rule: rtranclp_induct) (auto intro: life_move_ok)

text \<open>What a move never does: forget an event, change who a row belongs to, or touch a row that has come to its end.\<close>

definition kept_from :: "action_db \<Rightarrow> action_db \<Rightarrow> bool" where
  "kept_from db db' \<longleftrightarrow> (\<exists>es. ad_log db' = ad_log db @ es) \<and>
     (\<forall>r \<in> set (ad_rows db). \<exists>r' \<in> set (ad_rows db'). identity_of r' = identity_of r \<and>
        (aw_state r \<noteq> Proposed \<longrightarrow> content_of r' = content_of r \<and> aw_state r' \<noteq> Proposed) \<and>
        (aw_state r \<in> {Succeeded, Rejected, Expired} \<longrightarrow> r' = r))"

lemma kept_refl: "kept_from db db"
  by (auto simp: kept_from_def)

lemma kept_log: "kept_from db db' \<Longrightarrow> set (ad_log db) \<subseteq> set (ad_log db')"
  by (auto simp: kept_from_def)

lemma kept_row:
  assumes "kept_from db db'" "r \<in> set (ad_rows db)"
  obtains r' where "r' \<in> set (ad_rows db')" "identity_of r' = identity_of r"
    "aw_state r \<noteq> Proposed \<Longrightarrow> content_of r' = content_of r \<and> aw_state r' \<noteq> Proposed"
    "aw_state r \<in> {Succeeded, Rejected, Expired} \<Longrightarrow> r' = r"
  using assms unfolding kept_from_def by blast

lemma kept_trans:
  assumes "kept_from db db'" "kept_from db' db''"
  shows "kept_from db db''"
  unfolding kept_from_def
proof (intro conjI ballI)
  show "\<exists>es. ad_log db'' = ad_log db @ es" using assms by (auto simp: kept_from_def)
next
  fix r assume "r \<in> set (ad_rows db)"
  then obtain r' where r': "r' \<in> set (ad_rows db')" "identity_of r' = identity_of r"
    "aw_state r \<noteq> Proposed \<Longrightarrow> content_of r' = content_of r \<and> aw_state r' \<noteq> Proposed"
    "aw_state r \<in> {Succeeded, Rejected, Expired} \<Longrightarrow> r' = r"
    using kept_row [OF assms(1)] by blast
  obtain r'' where "r'' \<in> set (ad_rows db'')" "identity_of r'' = identity_of r'"
    "aw_state r' \<noteq> Proposed \<Longrightarrow> content_of r'' = content_of r' \<and> aw_state r'' \<noteq> Proposed"
    "aw_state r' \<in> {Succeeded, Rejected, Expired} \<Longrightarrow> r'' = r'"
    using kept_row [OF assms(2) r'(1)] by blast
  then show "\<exists>r'' \<in> set (ad_rows db''). identity_of r'' = identity_of r \<and>
        (aw_state r \<noteq> Proposed \<longrightarrow> content_of r'' = content_of r \<and> aw_state r'' \<noteq> Proposed) \<and>
        (aw_state r \<in> {Succeeded, Rejected, Expired} \<longrightarrow> r'' = r)"
    using r' by (intro bexI [of _ r'']) auto
qed

lemma allowed_content:
  "allowed r e a r' \<Longrightarrow> aw_state r \<noteq> Proposed \<Longrightarrow>
     content_of r' = content_of r \<and> aw_state r' \<noteq> Proposed \<and> aw_state r \<notin> {Succeeded, Rejected, Expired}"
  by (cases e) auto

lemma move_kept: "move sha may db db' \<Longrightarrow> db_ok sha db \<Longrightarrow> kept_from db db'"
proof (induction rule: move.induct)
  case (Store row db author)
  then show ?case by (auto simp: kept_from_def)
next
  case (Change r db r' e a)
  have ex: "\<exists>y \<in> set (ad_rows (replace_row (aw_id r) r' db)). identity_of y = identity_of x \<and>
        (aw_state x \<noteq> Proposed \<longrightarrow> content_of y = content_of x \<and> aw_state y \<noteq> Proposed) \<and>
        (aw_state x \<in> {Succeeded, Rejected, Expired} \<longrightarrow> y = x)" if "x \<in> set (ad_rows db)" for x
  proof (cases "aw_id x = aw_id r")
    case True
    then have x: "x = r" using Change that by (auto simp: db_ok_def tables_ok_def dest: distinct_ids_eq)
    have "r' \<in> set (ad_rows (replace_row (aw_id r) r' db))" using Change(1) by force
    then show ?thesis using Change(2) allowed_content [OF Change(4)] x by (intro bexI [of _ r']) (cases "aw_state r = Proposed"; simp)+
  next
    case False
    then show ?thesis using that by (intro bexI [of _ x]) auto
  qed
  then show ?case by (simp add: kept_from_def)
qed

lemma moves_kept: "moves sha may db db' \<Longrightarrow> db_ok sha db \<Longrightarrow> kept_from db db'"
proof (induction rule: rtranclp_induct)
  case (step db1 db2)
  then show ?case using move_kept moves_ok kept_trans by blast
qed (rule kept_refl)

section \<open>Every operation is a sequence of moves\<close>

lemma filter_this: "distinct (map f xs) \<Longrightarrow> x \<in> set xs \<Longrightarrow> filter (\<lambda>y. y = x) xs = [x]"
  by (induction xs) (auto simp: filter_empty_conv)

lemma update_one:
  assumes "distinct (map aw_id (ad_rows db))" "r \<in> set (ad_rows db)" "aw_id r = pid" "Q r"
    and P: "\<And>x. P x \<longleftrightarrow> aw_id x = pid \<and> Q x"
  shows "update_where now P f db = ([pid], replace_row pid (f (touched now r)) db)"
proof -
  have P': "P x \<longleftrightarrow> x = r" if "x \<in> set (ad_rows db)" for x
    using that assms distinct_ids_eq [OF assms(1,2)] by metis
  then have "filter P (ad_rows db) = filter (\<lambda>x. x = r) (ad_rows db)" by (intro filter_cong) auto
  also have "\<dots> = [r]" using assms(1,2) by (rule filter_this)
  finally have "filter P (ad_rows db) = [r]" .
  moreover have "map (\<lambda>x. if P x then f (touched now x) else x) (ad_rows db) =
      map (\<lambda>x. if aw_id x = pid then f (touched now r) else x) (ad_rows db)"
  proof (rule map_cong [OF refl])
    fix x assume x: "x \<in> set (ad_rows db)"
    show "(if P x then f (touched now x) else x) = (if aw_id x = pid then f (touched now r) else x)"
      using P' [OF x] distinct_ids_eq [OF assms(1,2) x] assms(3) by (cases "x = r") auto
  qed
  ultimately show ?thesis using assms(3) by (simp add: update_where_def replace_row_def)
qed

lemma update_none: "(\<And>x. x \<in> set (ad_rows db) \<Longrightarrow> \<not> P x) \<Longrightarrow> update_where now P f db = ([], db)"
  by (simp add: update_where_def filter_empty_conv map_idI)

lemma cas_cases:
  assumes "distinct (map aw_id (ad_rows db))"
  obtains r where "r \<in> set (ad_rows db)" "aw_id r = pid" "aw_state r = expect"
      "cas now pid expect f db = (True, replace_row pid (f (touched now r)) db)"
  | "\<And>r. r \<in> set (ad_rows db) \<Longrightarrow> aw_id r = pid \<Longrightarrow> aw_state r \<noteq> expect" "cas now pid expect f db = (False, db)"
proof (cases "\<exists>r \<in> set (ad_rows db). aw_id r = pid \<and> aw_state r = expect")
  case True
  then obtain r where r: "r \<in> set (ad_rows db)" "aw_id r = pid" "aw_state r = expect" by blast
  show ?thesis using that(1) [OF r] update_one [OF assms r(1,2), of "\<lambda>x. aw_state x = expect"] r by (simp add: cas_def)
next
  case False
  then show ?thesis using that(2) update_none [of db "\<lambda>r. aw_id r = pid \<and> aw_state r = expect"] by (auto simp: cas_def)
qed

text \<open>
  The steps below turn one statement and its log entry into one move. \<open>row_move\<close> is for the statements that change
  neither the hash nor the key.
\<close>

lemma db_okD:
  assumes "db_ok sha db"
  shows "distinct (map aw_id (ad_rows db))" "tables_ok sha db" "r \<in> set (ad_rows db) \<Longrightarrow> hash_ok sha r"
    "r \<in> set (ad_rows db) \<Longrightarrow> row_ok r db" "unique_keys db"
  using assms by (auto simp: db_ok_def tables_ok_def)

lemma content_key: "content_of r' = content_of r \<Longrightarrow> aw_key r' = aw_key r"
  by (simp add: content_of_def)

lemma row_move:
  assumes "db_ok sha db" "r \<in> set (ad_rows db)" "identity_of r' = identity_of r" "content_of r' = content_of r"
    "allowed r e a r'" "may (aw_id r) e"
  shows "move sha may db (log_event (aw_id r) e a (replace_row (aw_id r) r' db))"
proof (rule move.Change [OF assms(2,3) _ assms(5)])
  show "may (aw_id r) e" by (rule assms(6))
  show "hash_ok sha r'"
    using assms(3,4) db_okD(3) [OF assms(1,2)] by (simp add: hash_ok_def identity_of_def content_of_def)
  show "\<forall>x \<in> set (ad_rows db). aw_id x \<noteq> aw_id r \<and> aw_session x = aw_session r \<longrightarrow> aw_key x \<noteq> aw_key r'"
    using assms(2) db_okD(5) [OF assms(1)] content_key [OF assms(4)] unfolding unique_keys_def by metis
qed

lemma touched_same [simp]:
  "identity_of (touched now r) = identity_of r" "content_of (touched now r) = content_of r"
  "aw_id (touched now r) = aw_id r" "aw_state (touched now r) = aw_state r" "aw_payload (touched now r) = aw_payload r"
  by (simp_all add: touched_def identity_of_def content_of_def)

lemma state_same [simp]:
  "identity_of (r\<lparr>aw_state := st\<rparr>) = identity_of r" "content_of (r\<lparr>aw_state := st\<rparr>) = content_of r"
  "identity_of (r\<lparr>aw_state := st, aw_result := x, aw_executed_at := t\<rparr>) = identity_of r"
  "content_of (r\<lparr>aw_state := st, aw_result := x, aw_executed_at := t\<rparr>) = content_of r"
  "identity_of (granted now a r) = identity_of r" "content_of (granted now a r) = content_of r"
  "aw_state (granted now a r) = Approved"
  by (simp_all add: granted_def identity_of_def content_of_def)

lemma row_of_in: "row_of db pid = Some r \<Longrightarrow> r \<in> set (ad_rows db) \<and> aw_id r = pid"
  by (auto simp: row_of_def find_Some_iff)

lemma find_this: "distinct (map f xs) \<Longrightarrow> x \<in> set xs \<Longrightarrow> find (\<lambda>y. f y = f x) xs = Some x"
  by (induction xs) auto

lemma row_of_Some: "distinct (map aw_id (ad_rows db)) \<Longrightarrow> r \<in> set (ad_rows db) \<Longrightarrow> row_of db (aw_id r) = Some r"
  unfolding row_of_def by (rule find_this)

lemma own_row: "own db pid user = Inr r \<Longrightarrow> r \<in> set (ad_rows db) \<and> aw_id r = pid \<and> aw_user r = user"
  by (auto simp: own_def dest: row_of_in split: option.splits if_splits)

text \<open>What a request that read \<open>row\<close> may still rely on.\<close>

definition same_proposal :: "action_row \<Rightarrow> action_db \<Rightarrow> bool" where
  "same_proposal row db \<longleftrightarrow> (\<exists>r \<in> set (ad_rows db). identity_of r = identity_of row)"

lemma same_proposalD:
  assumes "same_proposal row db" "db_ok sha db" "r \<in> set (ad_rows db)" "aw_id r = aw_id row"
  shows "identity_of r = identity_of row"
proof -
  obtain x where "x \<in> set (ad_rows db)" "identity_of x = identity_of row" using assms(1) by (auto simp: same_proposal_def)
  moreover from this have "x = r" using distinct_ids_eq [OF db_okD(1) [OF assms(2)] _ assms(3)] assms(4) by (auto simp: identity_of_def)
  ultimately show ?thesis by simp
qed

lemma edit_write_moves:
  assumes ok: "db_ok sha db" and row: "same_proposal row db" and m: "\<And>b n h. may (aw_id row) (Ev_Edited b n h)" and e: "edit_write sha now actor row new db = (out, db')"
  shows "moves sha may db db'"
proof (rule cas_cases [OF db_okD(1) [OF ok], of "aw_id row" Proposed now "with_payload sha (aw_kind row) new"])
  fix r assume r: "r \<in> set (ad_rows db)" "aw_id r = aw_id row" "aw_state r = Proposed"
    and c: "cas now (aw_id row) Proposed (with_payload sha (aw_kind row) new) db =
      (True, replace_row (aw_id row) (with_payload sha (aw_kind row) new (touched now r)) db)"
  let ?r = "with_payload sha (aw_kind row) new (touched now r)"
  have id: "identity_of r = identity_of row" by (rule same_proposalD [OF row ok r(1,2)])
  then have kind: "aw_kind r = aw_kind row" "aw_session r = aw_session row" by (simp_all add: identity_of_def)
  show ?thesis
  proof (cases "\<exists>x \<in> set (ad_rows db). aw_id x \<noteq> aw_id row \<and> aw_session x = aw_session row \<and> aw_key x = dedupe_key sha (aw_kind row) new")
    case True
    then show ?thesis using e c by (simp add: edit_write_def)
  next
    case False
    then have db': "db' = log_event (aw_id r) (Ev_Edited (aw_payload row) new (payload_sha256 sha (aw_kind row) new)) (Some actor)
        (replace_row (aw_id r) ?r db)"
      using e unfolding edit_write_def Let_def c prod.case if_not_P [OF False] r(2) by simp
    have "move sha may db db'"
      unfolding db'
    proof (rule move.Change [OF r(1)])
      show "may (aw_id r) (Ev_Edited (aw_payload row) new (payload_sha256 sha (aw_kind row) new))" using m r(2) by simp
      show "identity_of ?r = identity_of r" "hash_ok sha ?r"
        using kind by (simp_all add: with_payload_def touched_def identity_of_def hash_ok_def)
      show "allowed r (Ev_Edited (aw_payload row) new (payload_sha256 sha (aw_kind row) new)) (Some actor) ?r"
        using r(3) by (simp add: with_payload_def touched_def)
      show "\<forall>x \<in> set (ad_rows db). aw_id x \<noteq> aw_id r \<and> aw_session x = aw_session r \<longrightarrow> aw_key x \<noteq> aw_key ?r"
        using False r(2) kind unfolding with_payload_def by auto
    qed
    then show ?thesis by blast
  qed
next
  assume "cas now (aw_id row) Proposed (with_payload sha (aw_kind row) new) db = (False, db)"
  then show ?thesis using e by (simp add: edit_write_def)
qed

text \<open>A compare-and-set on the state, followed by its log entry.\<close>

lemma cas_moves:
  assumes ok: "db_ok sha db" and c: "cas now pid expect f db = (True, db1)"
    and m: "may pid e" and f: "\<And>r. identity_of (f r) = identity_of r" "\<And>r. content_of (f r) = content_of r"
    and a: "\<And>r. r \<in> set (ad_rows db) \<Longrightarrow> aw_id r = pid \<Longrightarrow> aw_state r = expect \<Longrightarrow> allowed r e a (f (touched now r))"
  shows "moves sha may db (log_event pid e a db1)"
proof (rule cas_cases [OF db_okD(1) [OF ok], of pid expect now f])
  fix r assume r: "r \<in> set (ad_rows db)" "aw_id r = pid" "aw_state r = expect"
    "cas now pid expect f db = (True, replace_row pid (f (touched now r)) db)"
  then have "move sha may db (log_event (aw_id r) e a (replace_row (aw_id r) (f (touched now r)) db))"
    using a f m by (intro row_move [OF ok]) simp_all
  then show ?thesis using r c by auto
qed (use c in simp)

lemma cas_failed: "distinct (map aw_id (ad_rows db)) \<Longrightarrow> cas now pid expect f db = (False, db1) \<Longrightarrow> db1 = db"
  by (rule cas_cases [of db pid expect now f]) auto

lemma reject_write_moves:
  assumes ok: "db_ok sha db" and m: "may (aw_id row) Ev_Rejected" and e: "reject_write now actor row db = (out, db')"
  shows "moves sha may db db'"
proof (cases "aw_state row = Rejected \<or> \<not> fst (cas now (aw_id row) Proposed (\<lambda>r. r\<lparr>aw_state := Rejected\<rparr>) db)")
  case True
  then show ?thesis using e by (auto simp: reject_write_def split: prod.splits if_splits)
next
  case False
  then obtain db1 where c: "cas now (aw_id row) Proposed (\<lambda>r. r\<lparr>aw_state := Rejected\<rparr>) db = (True, db1)" by (metis prod.collapse)
  then have "db' = log_event (aw_id row) Ev_Rejected (Some actor) db1" using False e by (auto simp: reject_write_def Let_def)
  then show ?thesis using cas_moves [OF ok c, of may Ev_Rejected "Some actor"] m by simp
qed

lemma retry_write_moves:
  assumes ok: "db_ok sha db" and row: "same_proposal row db" "aw_user row = ac_user actor"
    and m: "may (aw_id row) (Ev_Retry (aw_sha row))" and e: "retry_write now actor row db = (out, db')"
  shows "moves sha may db db'"
proof (cases "aw_kind row \<in> set WEB_APPROVAL_KINDS \<and> ac_kind actor \<noteq> Web \<or> \<not> fst (cas now (aw_id row) Failed (granted now actor) db)")
  case True
  then show ?thesis using e by (auto simp: retry_write_def split: prod.splits if_splits)
next
  case False
  then obtain db1 where c: "cas now (aw_id row) Failed (granted now actor) db = (True, db1)" by (metis prod.collapse)
  then have db': "db' = log_event (aw_id row) (Ev_Retry (aw_sha row)) (Some actor) db1" using False e by (auto simp: retry_write_def Let_def)
  have "entitled actor r" if "r \<in> set (ad_rows db)" "aw_id r = aw_id row" for r
    using same_proposalD [OF row(1) ok that] row(2) False by (auto simp: entitled_def identity_of_def WEB_APPROVAL_KINDS_def)
  then show ?thesis unfolding db' by (intro cas_moves [OF ok c]) (simp_all add: m)
qed

lemma moves_one: "move sha may db db' \<Longrightarrow> moves sha may db db'"
  by blast

lemma admit_moves:
  "db_ok sha db \<Longrightarrow> list_all (\<lambda>(i, p). well_hashed sha p) ips \<Longrightarrow> admit_rows now sid user author pos ips db = Some (ids, db') \<Longrightarrow>
     moves sha may db db'"
proof (induction ips arbitrary: pos ids db)
  case (Cons ip ips)
  obtain i p where ip: "ip = (i, p)" by (cases ip)
  show ?case
  proof (cases "\<exists>r \<in> set (ad_rows db). aw_session r = sid \<and> aw_key r = pr_key p")
    case True
    then show ?thesis using Cons ip by auto
  next
    case free: False
    let ?row = "stored_row now sid user author pos i p"
    let ?db = "log_event i (Ev_Proposed author (pr_sha p)) None (db\<lparr>ad_rows := ad_rows db @ [?row]\<rparr>)"
    have new: "\<not> (\<exists>r \<in> set (ad_rows db). aw_id r = i \<or> aw_session r = sid \<and> aw_ref r = pr_ref p)"
      using Cons.prems(3) free unfolding ip by (auto split: if_splits)
    have "move sha may db (log_event (aw_id ?row) (Ev_Proposed author (aw_sha ?row)) None (db\<lparr>ad_rows := ad_rows db @ [?row]\<rparr>))"
      using Cons.prems(2) free new unfolding ip
      by (intro move.Store) (auto simp: stored_row_def hash_ok_def well_hashed_def)
    then have first: "move sha may db ?db" by (simp add: stored_row_def)
    obtain ids' where "admit_rows now sid user author (pos + 1) ips ?db = Some (ids', db')"
      using Cons.prems(3) free new unfolding ip by (cases "admit_rows now sid user author (pos + 1) ips ?db") (auto simp: Let_def split: if_splits)
    then have "moves sha may ?db db'" using Cons.IH Cons.prems(2) life_move_ok [OF first Cons.prems(1)] by simp
    then show ?thesis using first by (meson converse_rtranclp_into_rtranclp)
  qed
qed auto

lemma approve_item_moves:
  assumes ok: "db_ok sha db" and m: "\<And>pid h. may pid (Ev_Approved h)" and e: "approve_item now sid actor item db = (out, db')"
  shows "moves sha may db db'"
proof (cases "\<exists>r \<in> set (ad_rows db). may_approve sid actor (fst item) (snd item) r")
  case True
  then obtain r where r: "r \<in> set (ad_rows db)" "may_approve sid actor (fst item) (snd item) r" by blast
  let ?Q = "\<lambda>r. aw_session r = sid \<and> aw_user r = ac_user actor \<and> aw_state r = Proposed \<and> aw_sha r = snd item \<and>
     (ac_kind actor = Web \<or> aw_kind r \<notin> set WEB_APPROVAL_KINDS)"
  have "update_where now (may_approve sid actor (fst item) (snd item)) (granted now actor) db =
      ([aw_id r], replace_row (aw_id r) (granted now actor (touched now r)) db)"
    by (rule update_one [OF db_okD(1) [OF ok] r(1) refl, of ?Q]) (use r(2) in \<open>auto simp: may_approve_def\<close>)
  then have "db' = log_event (aw_id r) (Ev_Approved (snd item)) (Some actor) (replace_row (aw_id r) (granted now actor (touched now r)) db)"
    using e r(2) by (auto simp: approve_item_def may_approve_def split: prod.splits)
  moreover have "entitled actor r" using r(2) by (auto simp: may_approve_def entitled_def WEB_APPROVAL_KINDS_def)
  then have "move sha may db (log_event (aw_id r) (Ev_Approved (snd item)) (Some actor) (replace_row (aw_id r) (granted now actor (touched now r)) db))"
    using r(2) by (intro row_move [OF ok r(1)]) (auto simp: may_approve_def intro: m)
  ultimately show ?thesis by blast
next
  case False
  then have "update_where now (may_approve sid actor (fst item) (snd item)) (granted now actor) db = ([], db)"
    by (intro update_none) blast
  then show ?thesis using e by (auto simp: approve_item_def split: prod.splits)
qed

lemma approve_moves:
  "db_ok sha db \<Longrightarrow> (\<And>pid h. may pid (Ev_Approved h)) \<Longrightarrow> approve now sid actor items db = (outs, db') \<Longrightarrow> moves sha may db db'"
proof (induction items arbitrary: db outs)
  case (Cons item items)
  obtain out db1 where 1: "approve_item now sid actor item db = (out, db1)" by fastforce
  obtain outs' db2 where 2: "approve now sid actor items db1 = (outs', db2)" by fastforce
  have first: "moves sha may db db1" using Cons.prems(2) by (intro approve_item_moves [where may = may, OF Cons.prems(1) _ 1])
  have "db2 = db'" using Cons.prems(3) 1 2 by simp
  then have "moves sha may db1 db'" using Cons.prems(2) 2 by (intro Cons.IH [OF moves_ok [OF first Cons.prems(1)]]) auto
  then show ?case using first by (metis rtranclp_trans)
qed simp

lemma claim_moves:
  assumes ok: "db_ok sha db" and m: "may pid Ev_Started" and c: "claim_action now pid db = (Some row, db')"
  shows "moves sha may db db'" "row \<in> set (ad_rows db')" "aw_id row = pid" "aw_state row = Executing"
    "logged P pid db' = logged P pid db + (if P Ev_Started then 1 else 0)" "x \<noteq> pid \<Longrightarrow> logged P x db' = logged P x db"
proof -
  let ?f = "\<lambda>r. r\<lparr>aw_state := Executing\<rparr>"
  have "moves sha may db db' \<and> row \<in> set (ad_rows db') \<and> aw_id row = pid \<and> aw_state row = Executing \<and>
      (\<forall>P x. logged P x db' = logged P x db + (if x = pid \<and> P Ev_Started then 1 else 0))"
  proof (rule cas_cases [OF db_okD(1) [OF ok], of pid Approved now ?f])
    fix r assume r: "r \<in> set (ad_rows db)" "aw_id r = pid" "aw_state r = Approved"
      "cas now pid Approved ?f db = (True, replace_row pid (?f (touched now r)) db)"
    let ?db = "log_event pid Ev_Started None (replace_row pid (?f (touched now r)) db)"
    have "moves sha may db ?db" using m by (intro cas_moves [where may = may, OF ok r(4)]) simp_all
    moreover have row: "?f (touched now r) \<in> set (ad_rows ?db)" using r(1,2) by force
    moreover have "row_of ?db pid = Some (?f (touched now r))"
      using row_of_Some [OF db_okD(1) [OF moves_ok [OF calculation(1) ok]] row] r(2) by simp
    ultimately show ?thesis using c r by (auto simp: claim_action_def Let_def)
  qed (use c in \<open>simp add: claim_action_def\<close>)
  then show "moves sha may db db'" "row \<in> set (ad_rows db')" "aw_id row = pid" "aw_state row = Executing"
    "logged P pid db' = logged P pid db + (if P Ev_Started then 1 else 0)" "x \<noteq> pid \<Longrightarrow> logged P x db' = logged P x db"
    by auto
qed

lemma claim_lost: "claim_action now pid db = (None, db') \<Longrightarrow> db_ok sha db \<Longrightarrow> db' = db"
proof (cases "fst (cas now pid Approved (\<lambda>r. r\<lparr>aw_state := Executing\<rparr>) db)")
  case True
  assume c: "claim_action now pid db = (None, db')" and ok: "db_ok sha db"
  obtain db1 where 1: "cas now pid Approved (\<lambda>r. r\<lparr>aw_state := Executing\<rparr>) db = (True, db1)" using True by (metis prod.collapse)
  then have "row_of (log_event pid Ev_Started None db1) pid = None" using c by (auto simp: claim_action_def Let_def)
  moreover have "pid \<in> aw_id ` set (ad_rows db1)"
  proof (rule cas_cases [OF db_okD(1) [OF ok], of pid Approved now "\<lambda>r. r\<lparr>aw_state := Executing\<rparr>"])
    fix r assume r: "r \<in> set (ad_rows db)" "aw_id r = pid"
      "cas now pid Approved (\<lambda>r. r\<lparr>aw_state := Executing\<rparr>) db = (True, replace_row pid (touched now r\<lparr>aw_state := Executing\<rparr>) db)"
    have "aw_id (touched now r\<lparr>aw_state := Executing\<rparr>) = pid" using r(2) by (simp add: touched_def)
    then have "map aw_id (ad_rows (replace_row pid (touched now r\<lparr>aw_state := Executing\<rparr>) db)) = map aw_id (ad_rows db)"
      by (rule replace_ids)
    then have "map aw_id (ad_rows db1) = map aw_id (ad_rows db)" using r(3) 1 by (simp only: prod.inject)
    then show ?thesis using r(1,2) by (metis imageI list.set_map)
  qed (use 1 in simp)
  ultimately show ?thesis by (auto simp: row_of_def find_None_iff)
qed (auto simp: claim_action_def split: prod.splits if_splits)

lemma finish_moves:
  assumes ok: "db_ok sha db" and r: "r \<in> set (ad_rows db)" "aw_id r = pid" "aw_state r = Executing"
    and st: "state = Succeeded \<or> state = Failed" and m: "may pid (if state = Succeeded then Ev_Succeeded result else Ev_Failed result)"
  shows "moves sha may db (finish_action now pid state result db)"
    "aw_state x = Executing \<Longrightarrow> x \<in> set (ad_rows (finish_action now pid state result db)) \<longleftrightarrow> x \<in> set (ad_rows db) \<and> aw_id x \<noteq> pid"
proof -
  let ?f = "\<lambda>r. r\<lparr>aw_state := state, aw_result := Some result, aw_executed_at := Some now\<rparr>"
  have c: "cas now pid Executing ?f db = (True, replace_row pid (?f (touched now r)) db)"
    using update_one [OF db_okD(1) [OF ok] r(1,2), of "\<lambda>x. aw_state x = Executing"] r(2,3) by (simp add: cas_def)
  show "moves sha may db (finish_action now pid state result db)"
    unfolding finish_action_def c snd_conv using st m by (intro cas_moves [where may = may, OF ok c]) auto
  show "x \<in> set (ad_rows (finish_action now pid state result db)) \<longleftrightarrow> x \<in> set (ad_rows db) \<and> aw_id x \<noteq> pid" if "aw_state x = Executing"
    using that st by (auto simp: finish_action_def c)
qed

lemma fold_log:
  "fold (\<lambda>pid. log_event pid e a) ids db =
     db\<lparr>ad_log := ad_log db @ map (\<lambda>pid. \<lparr>au_proposal = pid, au_actor = a, au_event = e\<rparr>) ids\<rparr>"
  by (induction ids arbitrary: db) (simp_all add: log_event_def)

lemma expire_moves:
  assumes ok: "db_ok sha db" and m: "\<And>pid. may pid Ev_Expired"
  shows "moves sha may db (snd (expire_stale now ttl db))"
proof -
  let ?P = "\<lambda>r. aw_state r = Proposed \<and> aw_created_at r < now - ttl * DAY_S"
  let ?f = "\<lambda>r. (touched now r)\<lparr>aw_state := Expired\<rparr>"
  let ?D = "\<lambda>xs. fold (\<lambda>pid. log_event pid Ev_Expired None) (map aw_id xs)
      (db\<lparr>ad_rows := map (\<lambda>r. if r \<in> set xs then ?f r else r) (ad_rows db)\<rparr>)"
  have steps: "moves sha may db (?D xs)" if "distinct xs" "set xs \<subseteq> set (ad_rows db)" "\<forall>r \<in> set xs. ?P r" for xs
    using that
  proof (induction xs rule: rev_induct)
    case Nil
    show ?case by simp
  next
    case (snoc x xs)
    then have IH: "moves sha may db (?D xs)" by simp
    have x: "x \<in> set (ad_rows db)" "x \<notin> set xs" "?P x" using snoc.prems by auto
    have ids: "aw_id y = aw_id x \<longleftrightarrow> y = x" if "y \<in> set (ad_rows db)" for y
      using distinct_ids_eq [OF db_okD(1) [OF ok] that x(1)] by auto
    have "?D (xs @ [x]) = log_event (aw_id x) Ev_Expired None (replace_row (aw_id x) (?f x) (?D xs))"
      using x ids by (auto simp: fold_log log_event_def replace_row_def touched_def)
    moreover have "move sha may (?D xs) (log_event (aw_id x) Ev_Expired None (replace_row (aw_id x) (?f x) (?D xs)))"
    proof (rule row_move [OF moves_ok [OF IH ok]])
      show "x \<in> set (ad_rows (?D xs))" using x by (force simp: fold_log)
    qed (use x m in simp_all)
    ultimately have "move sha may (?D xs) (?D (xs @ [x]))" by (simp only:)
    with IH show ?case by (rule rtranclp.rtrancl_into_rtrancl)
  qed
  have "distinct (filter ?P (ad_rows db))" using db_okD(1) [OF ok] by (metis distinct_filter distinct_map)
  moreover have "set (filter ?P (ad_rows db)) \<subseteq> set (ad_rows db)" "\<forall>r \<in> set (filter ?P (ad_rows db)). ?P r" by auto
  ultimately have "moves sha may db (?D (filter ?P (ad_rows db)))" by (rule steps)
  moreover have "map (\<lambda>r. if r \<in> set (filter ?P (ad_rows db)) then ?f r else r) (ad_rows db) =
      map (\<lambda>r. if ?P r then ?f r else r) (ad_rows db)" by (intro map_cong) auto
  ultimately show ?thesis by (simp only: expire_stale_def update_where_def Let_def prod.case snd_conv)
qed

lemma recover_moves:
  assumes "db_ok sha db" "\<And>pid e. is_end e \<Longrightarrow> may pid e" "distinct (map aw_id xs)" "\<forall>x \<in> set xs. x \<in> set (ad_rows db) \<and> aw_state x = Executing"
  shows "moves sha may db (fold (recover_row now reconcile) xs db) \<and>
    (\<forall>r. aw_state r = Executing \<longrightarrow> (r \<in> set (ad_rows (fold (recover_row now reconcile) xs db)) \<longleftrightarrow>
       r \<in> set (ad_rows db) \<and> aw_id r \<notin> aw_id ` set xs))"
  using assms
proof (induction xs arbitrary: db)
  case (Cons x xs)
  define db1 where "db1 = recover_row now reconcile x db"
  have x: "x \<in> set (ad_rows db)" "aw_state x = Executing" using Cons.prems(4) by auto
  have one: "moves sha may db db1" "aw_state r = Executing \<Longrightarrow> r \<in> set (ad_rows db1) \<longleftrightarrow> r \<in> set (ad_rows db) \<and> aw_id r \<noteq> aw_id x" for r
    using finish_moves [where may = may, OF Cons.prems(1) x(1) refl x(2)] Cons.prems(2)
    by (simp_all add: db1_def recover_row_def split: option.splits)
  have rest: "\<forall>y \<in> set xs. y \<in> set (ad_rows db1) \<and> aw_state y = Executing"
  proof
    fix y assume "y \<in> set xs"
    moreover from this have "aw_id y \<noteq> aw_id x" using Cons.prems(3) by (metis distinct.simps(2) imageI list.set_map list.simps(9))
    ultimately show "y \<in> set (ad_rows db1) \<and> aw_state y = Executing" using Cons.prems(4) one(2) by simp
  qed
  have "distinct (map aw_id xs)" using Cons.prems(3) by simp
  have "moves sha may db1 (fold (recover_row now reconcile) xs db1) \<and>
    (\<forall>r. aw_state r = Executing \<longrightarrow> (r \<in> set (ad_rows (fold (recover_row now reconcile) xs db1)) \<longleftrightarrow>
       r \<in> set (ad_rows db1) \<and> aw_id r \<notin> aw_id ` set xs))"
    by (rule Cons.IH [OF moves_ok [OF one(1) Cons.prems(1)] Cons.prems(2) \<open>distinct (map aw_id xs)\<close> rest])
  moreover have "fold (recover_row now reconcile) (x # xs) db = fold (recover_row now reconcile) xs db1" by (simp add: db1_def)
  ultimately show ?case using one by (auto intro: rtranclp_trans)
qed simp

text \<open>Rows in \<open>executing\<close>: only an end takes one out of that state, only a start brings one in.\<close>

lemma executing_kept:
  assumes "moves sha may db db'" "db_ok sha db" "r \<in> set (ad_rows db)" "aw_state r = Executing"
    and "\<And>e. is_end e \<Longrightarrow> \<not> may (aw_id r) e"
  shows "r \<in> set (ad_rows db')"
  using assms(1)
proof (induction rule: rtranclp_induct)
  case (step db1 db2)
  have ok: "db_ok sha db1" by (rule moves_ok [OF step(1) assms(2)])
  show ?case
    using step(2)
  proof cases
    case (Change x x' e a)
    have "x \<noteq> r" using Change(5,6) assms(4) assms(5) [of e] by (cases e) auto
    then have "aw_id r \<noteq> aw_id x" using distinct_ids_eq [OF db_okD(1) [OF ok] step(3) Change(2)] by auto
    then show ?thesis using step(3) unfolding Change(1) by auto
  qed (use step(3) in auto)
qed (rule assms(3))

lemma executing_new:
  assumes "moves sha may db db'" "db_ok sha db" "r \<in> set (ad_rows db')" "aw_state r = Executing"
    and "\<And>e. is_start e \<Longrightarrow> \<not> may (aw_id r) e"
  shows "r \<in> set (ad_rows db)"
  using assms(1,3)
proof (induction rule: rtranclp_induct)
  case (step db1 db2)
  have "r \<in> set (ad_rows db1)"
    using step(2)
  proof cases
    case (Store row author)
    then show ?thesis using step(4) assms(4) by auto
  next
    case (Change x x' e a)
    have "r \<noteq> x'"
    proof
      assume "r = x'"
      moreover have "aw_id x' = aw_id x" using Change(3) by (simp add: identity_of_def)
      ultimately show False using Change(5,6) assms(4) assms(5) [of e] by (cases e) auto
    qed
    then show ?thesis using step(4) unfolding Change(1) by (auto split: if_splits)
  qed
  then show ?case by (rule step(3))
qed

section \<open>The invariant of the service\<close>

definition call_ok :: "(string \<Rightarrow> string) \<Rightarrow> (kind \<Rightarrow> bool) \<Rightarrow> action_db \<Rightarrow> action_row \<Rightarrow> bool" where
  "call_ok sha can_run db c \<longleftrightarrow> hash_ok sha c \<and> can_run (aw_kind c) \<and> approved_by_owner c db \<and> same_proposal c db"

definition calls_of :: "nat \<Rightarrow> action_row list \<Rightarrow> nat" where
  "calls_of pid cs = length (filter (\<lambda>c. aw_id c = pid) cs)"

definition base_ok :: "(string \<Rightarrow> string) \<Rightarrow> (kind \<Rightarrow> bool) \<Rightarrow> action_db \<Rightarrow> action_row list \<Rightarrow> action_row list \<Rightarrow> bool" where
  "base_ok sha can_run db seen cs \<longleftrightarrow> db_ok sha db \<and> (\<forall>row \<in> set seen. same_proposal row db) \<and>
     (\<forall>c \<in> set cs. call_ok sha can_run db c) \<and> (\<forall>pid. calls_of pid cs \<le> logged is_start pid db)"

fun runner_ok :: "action_db \<Rightarrow> nat \<Rightarrow> runner \<Rightarrow> bool" where
  "runner_ok db sid Idle = True"
| "runner_ok db sid Looping = True"
| "runner_ok db sid (Picked pid) \<longleftrightarrow> (\<exists>r \<in> set (ad_rows db). aw_id r = pid \<and> aw_session r = sid)"
| "runner_ok db sid (Running row) \<longleftrightarrow> row \<in> set (ad_rows db) \<and> aw_state row = Executing \<and> aw_session row = sid"

definition runners_ok :: "bool \<Rightarrow> action_db \<Rightarrow> (nat \<Rightarrow> runner) \<Rightarrow> bool" where
  "runners_ok up db runners \<longleftrightarrow> (\<forall>sid. runner_ok db sid (runners sid)) \<and>
     (if up then \<forall>r \<in> set (ad_rows db). aw_state r = Executing \<longrightarrow> runners (aw_session r) = Running r
      else runners = (\<lambda>_. Idle))"

definition sys_ok :: "(string \<Rightarrow> string) \<Rightarrow> (kind \<Rightarrow> bool) \<Rightarrow> action_sys \<Rightarrow> bool" where
  "sys_ok sha can_run s \<longleftrightarrow> base_ok sha can_run (as_db s) (as_seen s) (as_calls s) \<and> runners_ok (as_up s) (as_db s) (as_runner s)"

lemma same_proposal_kept: "same_proposal row db \<Longrightarrow> kept_from db db' \<Longrightarrow> same_proposal row db'"
  unfolding same_proposal_def by (metis kept_row)

lemma logged_kept: "kept_from db db' \<Longrightarrow> logged P pid db \<le> logged P pid db'"
  by (auto simp: kept_from_def logged_def)

lemma base_moves:
  assumes "base_ok sha can_run db seen cs" "moves sha may db db'"
  shows "base_ok sha can_run db' seen cs"
proof -
  have ok: "db_ok sha db" using assms(1) by (simp add: base_ok_def)
  have kept: "kept_from db db'" by (rule moves_kept [OF assms(2) ok])
  show ?thesis
    using assms(1) moves_ok [OF assms(2) ok] same_proposal_kept [OF _ kept] approved_mono [OF _ kept_log [OF kept]]
      order_trans [OF _ logged_kept [OF kept, of is_start]]
    unfolding base_ok_def call_ok_def by blast
qed

abbreviation no_run :: "nat \<Rightarrow> audit \<Rightarrow> bool" where
  "no_run pid e \<equiv> \<not> is_start e \<and> \<not> is_end e"

lemma runner_moves:
  assumes m: "moves sha may db db'" and ok: "db_ok sha db" and r: "runner_ok db sid r"
    and n: "\<And>row e. r = Running row \<Longrightarrow> is_end e \<Longrightarrow> \<not> may (aw_id row) e"
  shows "runner_ok db' sid r"
proof (cases r)
  case (Picked pid)
  then obtain x where x: "x \<in> set (ad_rows db)" "aw_id x = pid" "aw_session x = sid" using r by auto
  obtain x' where "x' \<in> set (ad_rows db')" "identity_of x' = identity_of x" by (rule kept_row [OF moves_kept [OF m ok] x(1)])
  with Picked x show ?thesis by (auto simp: identity_of_def)
next
  case (Running row)
  then show ?thesis using r n executing_kept [OF m ok] by auto
qed simp_all

lemma no_run_moves:
  assumes "sys_ok sha can_run s" "as_up s" "moves sha no_run (as_db s) db"
  shows "sys_ok sha can_run (s\<lparr>as_db := db\<rparr>)"
proof -
  have ok: "db_ok sha (as_db s)" using assms(1) by (simp add: sys_ok_def base_ok_def)
  have "runner_ok db sid (as_runner s sid)" for sid
    using assms(1) by (intro runner_moves [OF assms(3) ok]) (auto simp: sys_ok_def runners_ok_def)
  moreover have "as_runner s (aw_session r) = Running r" if "r \<in> set (ad_rows db)" "aw_state r = Executing" for r
    using assms(1,2) executing_new [OF assms(3) ok that] that by (auto simp: sys_ok_def runners_ok_def)
  ultimately show ?thesis using assms(1,2) base_moves [OF _ assms(3)] by (simp add: sys_ok_def runners_ok_def)
qed

lemma calls_of_append [simp]: "calls_of pid (cs @ [c]) = calls_of pid cs + (if aw_id c = pid then 1 else 0)"
  by (simp add: calls_of_def)

lemma next_approved_least:
  assumes "next_approved sid db = Some pid"
  shows "\<exists>r \<in> set (approved_rows sid db). aw_id r = pid \<and> (\<forall>x \<in> set (approved_rows sid db). aw_position r \<le> aw_position x)"
proof -
  let ?min = "\<lambda>b x. if aw_position x < aw_position b then x else b"
  have *: "foldl ?min b xs \<in> set (b # xs) \<and> (\<forall>x \<in> set (b # xs). aw_position (foldl ?min b xs) \<le> aw_position x)" for b xs
  proof (induction xs arbitrary: b)
    case (Cons x xs)
    show ?case using Cons [of "?min b x"] by (auto split: if_splits)
  qed simp
  obtain r rs where rs: "approved_rows sid db = r # rs" and pid: "pid = aw_id (foldl ?min r rs)"
    using assms by (auto simp: next_approved_def approved_rows_def split: list.splits)
  show ?thesis unfolding rs pid using * by blast
qed

lemma next_approved_row:
  "next_approved sid db = Some pid \<Longrightarrow> \<exists>r \<in> set (ad_rows db). aw_id r = pid \<and> aw_session r = sid \<and> aw_state r = Approved"
  by (drule next_approved_least) (auto simp: approved_rows_def)

lemma row_okD:
  "row_ok r db \<Longrightarrow> aw_state r \<in> {Approved, Executing, Succeeded, Failed} \<Longrightarrow> approved_by_owner r db"
  by (auto simp: row_ok_def)

lemma start_step:
  assumes s: "sys_ok sha can_run s" "as_up s" "as_runner s sid = Picked pid" and c: "claim_action now pid (as_db s) = (Some row, db)"
  shows "sys_ok sha can_run (set_runner sid (Running row)
      (s\<lparr>as_db := db, as_calls := (if can_run (aw_kind row) then as_calls s @ [row] else as_calls s)\<rparr>))"
proof -
  let ?may = "\<lambda>p e. p = pid \<and> is_start e"
  have ok: "db_ok sha (as_db s)" and base: "base_ok sha can_run (as_db s) (as_seen s) (as_calls s)"
    and run: "runners_ok True (as_db s) (as_runner s)" using s(1,2) by (simp_all add: sys_ok_def base_ok_def)
  have row: "row \<in> set (ad_rows db)" "aw_id row = pid" "aw_state row = Executing"
    "logged is_start pid db = logged is_start pid (as_db s) + 1" "\<And>x. x \<noteq> pid \<Longrightarrow> logged is_start x db = logged is_start x (as_db s)"
    using claim_moves(2-4) [where may = ?may, OF ok _ c] claim_moves(5,6) [where may = ?may and P = is_start, OF ok _ c] by simp_all
  have m: "moves sha ?may (as_db s) db" using claim_moves(1) [where may = ?may, OF ok _ c] by simp
  have ok': "db_ok sha db" by (rule moves_ok [OF m ok])
  have base': "base_ok sha can_run db (as_seen s) (as_calls s)" by (rule base_moves [OF base m])
  have old: "runner_ok db i (as_runner s i)" for i
    using run by (intro runner_moves [OF m ok]) (auto simp: runners_ok_def elim: is_start.elims)
  have "runner_ok db sid (Picked pid)" using old [of sid] s(3) by simp
  then obtain r where "r \<in> set (ad_rows db)" "aw_id r = pid" "aw_session r = sid" by auto
  then have sess: "aw_session row = sid" using distinct_ids_eq [OF db_okD(1) [OF ok'] row(1)] row(2) by metis
  have "as_runner s (aw_session r) = Running r" if "r \<in> set (ad_rows db)" "aw_state r = Executing" "r \<noteq> row" for r
  proof -
    have "aw_id r \<noteq> pid" using that distinct_ids_eq [OF db_okD(1) [OF ok'] that(1) row(1)] row(2) by auto
    then have "r \<in> set (ad_rows (as_db s))" by (intro executing_new [OF m ok that(1,2)]) simp
    then show ?thesis using run that(2) by (simp add: runners_ok_def)
  qed
  moreover have "aw_session r \<noteq> sid" if "r \<in> set (ad_rows db)" "aw_state r = Executing" "r \<noteq> row" for r
    using calculation [OF that] s(3) by auto
  ultimately have "runners_ok True db ((as_runner s)(sid := Running row))"
    using old row sess by (auto simp: runners_ok_def)
  moreover have "call_ok sha can_run db row" if "can_run (aw_kind row)"
    using that row(1,3) db_okD(3,4) [OF ok'] row_okD by (auto simp: call_ok_def same_proposal_def)
  moreover have "calls_of x (as_calls s) + (if pid = x then 1 else 0) \<le> logged is_start x db" for x
    using base row(4) row(5) [of x] by (cases "x = pid") (auto simp: base_ok_def)
  ultimately show ?thesis
    using base' s(2) row(2) by (auto simp: sys_ok_def base_ok_def set_runner_def)
qed

lemma end_step:
  assumes s: "sys_ok sha can_run s" "as_up s" "as_runner s sid = Running row"
  shows "sys_ok sha can_run (set_runner sid Looping (s\<lparr>as_db := settle_action now (aw_id row) res (as_db s)\<rparr>))"
proof -
  let ?may = "\<lambda>p e. p = aw_id row \<and> is_end e"
  let ?db = "settle_action now (aw_id row) res (as_db s)"
  have ok: "db_ok sha (as_db s)" and base: "base_ok sha can_run (as_db s) (as_seen s) (as_calls s)"
    and run: "runners_ok True (as_db s) (as_runner s)" using s(1,2) by (simp_all add: sys_ok_def base_ok_def)
  then have row: "row \<in> set (ad_rows (as_db s))" "aw_state row = Executing" "aw_session row = sid"
    using s(3) by (auto simp: runners_ok_def dest: spec [of _ sid])
  have m: "moves sha ?may (as_db s) ?db"
    and x: "\<And>x. aw_state x = Executing \<Longrightarrow> x \<in> set (ad_rows ?db) \<longleftrightarrow> x \<in> set (ad_rows (as_db s)) \<and> aw_id x \<noteq> aw_id row"
    using finish_moves [where may = ?may, OF ok row(1) refl row(2)] by (cases res; simp)+
  have other: "aw_id row' \<noteq> aw_id row" if "as_runner s i = Running row'" "i \<noteq> sid" for i row'
  proof
    have "runner_ok (as_db s) i (Running row')" using run that(1) by (auto simp: runners_ok_def dest: spec [of _ i])
    moreover assume "aw_id row' = aw_id row"
    ultimately have "row' = row" using distinct_ids_eq [OF db_okD(1) [OF ok] _ row(1)] by simp
    with \<open>runner_ok (as_db s) i (Running row')\<close> that(2) row(3) show False by simp
  qed
  have "runner_ok ?db i (as_runner s i)" if "i \<noteq> sid" for i
    using run other [OF _ that] by (intro runner_moves [OF m ok]) (auto simp: runners_ok_def)
  moreover have "as_runner s (aw_session r) = Running r \<and> aw_session r \<noteq> sid" if "r \<in> set (ad_rows ?db)" "aw_state r = Executing" for r
    using run that x [OF that(2)] s(3) by (auto simp: runners_ok_def)
  ultimately have "runners_ok True ?db ((as_runner s)(sid := Looping))" by (auto simp: runners_ok_def)
  then show ?thesis using base_moves [OF base m] s(2) by (simp add: sys_ok_def set_runner_def)
qed

lemma executing_prefix:
  assumes "db_ok sha db"
  shows "distinct (map aw_id (take k (executing_rows db)))"
    "\<forall>x \<in> set (take k (executing_rows db)). x \<in> set (ad_rows db) \<and> aw_state x = Executing"
  using db_okD(1) [OF assms] by (auto simp: executing_rows_def distinct_map_filter dest: in_set_takeD simp flip: take_map)

lemma boot_step:
  assumes "sys_ok sha can_run s" "\<not> as_up s"
  shows "sys_ok sha can_run (s\<lparr>as_db := recover_actions now reconcile (as_db s), as_up := True\<rparr>)"
    "sys_ok sha can_run (s\<lparr>as_db := fold (recover_row now reconcile) (take n (executing_rows (as_db s))) (as_db s)\<rparr>)"
proof -
  have ok: "db_ok sha (as_db s)" and base: "base_ok sha can_run (as_db s) (as_seen s) (as_calls s)"
    and idle: "as_runner s = (\<lambda>_. Idle)" using assms by (simp_all add: sys_ok_def base_ok_def runners_ok_def)
  have r: "moves sha (\<lambda>_ e. is_end e) (as_db s) (fold (recover_row now reconcile) (take k (executing_rows (as_db s))) (as_db s))"
    "aw_state x = Executing \<Longrightarrow> x \<in> set (ad_rows (fold (recover_row now reconcile) (take k (executing_rows (as_db s))) (as_db s))) \<longleftrightarrow>
       x \<in> set (ad_rows (as_db s)) \<and> aw_id x \<notin> aw_id ` set (take k (executing_rows (as_db s)))" for k x
    using recover_moves [where may = "\<lambda>_ e. is_end e" and now = now and reconcile = reconcile, OF ok _ executing_prefix [OF ok]] by auto
  show "sys_ok sha can_run (s\<lparr>as_db := fold (recover_row now reconcile) (take n (executing_rows (as_db s))) (as_db s)\<rparr>)"
    using assms base_moves [OF base r(1)] idle by (simp add: sys_ok_def runners_ok_def)
  have all: "recover_actions now reconcile (as_db s) =
      fold (recover_row now reconcile) (take (length (executing_rows (as_db s))) (executing_rows (as_db s))) (as_db s)"
    by (simp add: recover_actions_def)
  have "x \<notin> set (ad_rows (recover_actions now reconcile (as_db s)))" if "aw_state x = Executing" for x
    unfolding all r(2) [OF that] using that by (auto simp: executing_rows_def)
  then show "sys_ok sha can_run (s\<lparr>as_db := recover_actions now reconcile (as_db s), as_up := True\<rparr>)"
    using base_moves [OF base r(1), of "length (executing_rows (as_db s))"] idle unfolding all by (auto simp: sys_ok_def runners_ok_def)
qed

lemma admit_well_hashed: "list_all (well_hashed sha) ps \<Longrightarrow> list_all (\<lambda>(i, p). well_hashed sha p) (zip is ps)"
  by (auto simp: list_all_iff dest: set_zip_rightD)

lemma action_step_ok: "action_step sha can_run s s' \<Longrightarrow> sys_ok sha can_run s \<Longrightarrow> sys_ok sha can_run s'"
proof (induction rule: action_step.induct)
  case (Admit s ps now sid user author uuids ids db)
  then show ?case
    by (intro no_run_moves admit_moves [OF _ admit_well_hashed]) (auto simp: sys_ok_def base_ok_def admit_def)
next
  case (Read s pid user row)
  then show ?case using own_row [OF Read(2)] by (auto simp: sys_ok_def base_ok_def same_proposal_def)
next
  case (Edit s row actor cx changes new now out db)
  then show ?case
    by (intro no_run_moves edit_write_moves [OF _ _ _ Edit(5)]) (auto simp: sys_ok_def base_ok_def)
next
  case (Reject s row actor now out db)
  then show ?case
    by (intro no_run_moves reject_write_moves [OF _ _ Reject(4)]) (auto simp: sys_ok_def base_ok_def)
next
  case (Approve s now sid actor items outs db)
  then have "sys_ok sha can_run (s\<lparr>as_db := db\<rparr>)"
    by (intro no_run_moves approve_moves [OF _ _ Approve(2)]) (auto simp: sys_ok_def base_ok_def)
  then show ?case by (simp add: sys_ok_def schedule_run_def)
next
  case (Retry s row actor now row' db)
  then have "sys_ok sha can_run (s\<lparr>as_db := db\<rparr>)"
    by (intro no_run_moves retry_write_moves [OF _ _ _ _ Retry(4)]) (auto simp: sys_ok_def base_ok_def)
  then show ?case by (simp add: sys_ok_def schedule_run_def)
next
  case (Lock s sid n)
  then show ?case by (force simp: sys_ok_def runners_ok_def set_runner_def)
next
  case (Pick s sid)
  have "runner_ok (as_db s) sid (case next_approved sid (as_db s) of None \<Rightarrow> Idle | Some pid \<Rightarrow> Picked pid)"
    by (auto split: option.splits dest: next_approved_row)
  with Pick show ?case by (fastforce simp: sys_ok_def runners_ok_def set_runner_def)
next
  case (Lost s sid pid now db)
  then have "db = as_db s" using claim_lost by (auto simp: sys_ok_def base_ok_def)
  with Lost show ?case by (fastforce simp: sys_ok_def runners_ok_def set_runner_def)
next
  case (Start s sid pid now row db)
  then show ?case by (intro start_step)
next
  case (End s sid row now result)
  then show ?case by (intro end_step)
next
  case (Expire s now ttl)
  then show ?case by (intro no_run_moves expire_moves) (auto simp: sys_ok_def base_ok_def)
next
  case (Crash s)
  then show ?case by (auto simp: sys_ok_def base_ok_def runners_ok_def)
qed (auto intro: boot_step)

lemma new_service_ok: "sys_ok sha can_run new_service"
  by (simp add: sys_ok_def base_ok_def runners_ok_def new_service_def db_ok_def tables_ok_def unique_keys_def calls_of_def)

lemma action_steps_ok: "action_steps sha can_run s s' \<Longrightarrow> sys_ok sha can_run s \<Longrightarrow> sys_ok sha can_run s'"
  by (induction rule: rtranclp_induct) (auto intro: action_step_ok)

section \<open>A run of the service\<close>

definition demo_prop :: proposal where
  "demo_prop = \<lparr>pr_ref = ''p1'', pr_kind = PI_SESSION, pr_payload = [(''title'', PStr ''t''), (''text'', PStr ''go'')],
     pr_evidence = [], pr_key = ''k'', pr_sha = ''h'', pr_open = True\<rparr>"

definition demo_owner :: actor where "demo_owner = \<lparr>ac_user = 7, ac_kind = Web\<rparr>"

definition act_row :: action_row where "act_row = stored_row 0 1 7 ''copilot'' 0 42 demo_prop"

definition demo_stored :: action_db where
  "demo_stored = \<lparr>ad_rows = [act_row], ad_log = [\<lparr>au_proposal = 42, au_actor = None, au_event = Ev_Proposed ''copilot'' ''h''\<rparr>]\<rparr>"

definition demo_granted :: action_db where
  "demo_granted = snd (approve 1 1 demo_owner [(42, ''h'')] demo_stored)"

definition demo_claimed :: action_db where "demo_claimed = snd (claim_action 2 42 demo_granted)"

definition demo_call :: action_row where
  "demo_call = act_row\<lparr>aw_state := Executing, aw_approved_by := Some 7, aw_approved_at := Some 1, aw_version := 3, aw_updated_at := 2\<rparr>"

definition demo_sys :: "action_db \<Rightarrow> nat \<Rightarrow> runner \<Rightarrow> action_row list \<Rightarrow> action_sys" where
  "demo_sys db n r cs = \<lparr>as_db = db, as_seen = [], as_waiting = (\<lambda>_. 0)(1 := n), as_runner = (\<lambda>_. Idle)(1 := r), as_calls = cs, as_up = True\<rparr>"

lemmas demo_simps = demo_prop_def demo_owner_def act_row_def demo_stored_def stored_row_def touched_def granted_def
  update_where_def approve_item_def may_approve_def log_event_def

lemma demo_granted: "demo_granted = \<lparr>ad_rows = [act_row\<lparr>aw_state := Approved, aw_approved_by := Some 7, aw_approved_at := Some 1, aw_version := 2, aw_updated_at := 1\<rparr>],
    ad_log = ad_log demo_stored @ [\<lparr>au_proposal = 42, au_actor = Some demo_owner, au_event = Ev_Approved ''h''\<rparr>]\<rparr>"
  by (simp add: demo_granted_def demo_simps)

lemma demo_claimed: "demo_claimed = \<lparr>ad_rows = [demo_call], ad_log = ad_log demo_granted @ [\<lparr>au_proposal = 42, au_actor = None, au_event = Ev_Started\<rparr>]\<rparr>"
  by (simp add: demo_claimed_def demo_granted claim_action_def cas_def demo_call_def Let_def demo_simps)

lemma demo_claim: "claim_action 2 42 demo_granted = (Some demo_call, demo_claimed)"
  by (simp add: demo_claimed demo_granted claim_action_def cas_def row_of_def demo_call_def Let_def demo_simps)

lemma demo_granted_steps: "action_steps (\<lambda>_. ''h'') (\<lambda>_. True) new_service (demo_sys demo_granted 1 Idle [])"
proof -
  let ?step = "action_step (\<lambda>_. ''h'') (\<lambda>_. True)"
  let ?empty = "\<lparr>ad_rows = [], ad_log = []\<rparr>"
  have "?step new_service (demo_sys ?empty 0 Idle [])"
    using action_step.Boot [where sha = "\<lambda>_. ''h''" and can_run = "\<lambda>_. True" and s = new_service and now = 0 and reconcile = "\<lambda>_. None"]
    by (simp add: new_service_def demo_sys_def recover_actions_def executing_rows_def fun_upd_idem)
  moreover have "?step (demo_sys ?empty 0 Idle []) (demo_sys demo_stored 0 Idle [])"
    using action_step.Admit [where sha = "\<lambda>_. ''h''" and can_run = "\<lambda>_. True" and s = "demo_sys ?empty 0 Idle []" and ps = "[demo_prop]" and uuids = "[42]" and ids = "[42]"
      and sid = 1 and user = 7 and author = "''copilot''" and now = 0 and db = demo_stored]
    by (simp add: demo_sys_def admit_def last_position_def well_hashed_def payload_sha256_def demo_simps)
  moreover have "?step (demo_sys demo_stored 0 Idle []) (demo_sys demo_granted 1 Idle [])"
    using action_step.Approve [where sha = "\<lambda>_. ''h''" and can_run = "\<lambda>_. True" and s = "demo_sys demo_stored 0 Idle []" and now = 1 and sid = 1 and actor = demo_owner
      and items = "[(42, ''h'')]" and outs = "[(42, Approval_Approved)]" and db = demo_granted]
    by (simp add: demo_sys_def schedule_run_def demo_granted demo_simps)
  ultimately show ?thesis by (meson rtranclp.rtrancl_into_rtrancl rtranclp.rtrancl_refl)
qed

lemma act_steps: "action_steps (\<lambda>_. ''h'') (\<lambda>_. True) new_service (demo_sys demo_claimed 0 (Running demo_call) [demo_call])"
proof -
  let ?step = "action_step (\<lambda>_. ''h'') (\<lambda>_. True)"
  have "action_steps (\<lambda>_. ''h'') (\<lambda>_. True) new_service (demo_sys demo_granted 1 Idle [])" by (rule demo_granted_steps)
  moreover have "?step (demo_sys demo_granted 1 Idle []) (demo_sys demo_granted 0 Looping [])"
    using action_step.Lock [where sha = "\<lambda>_. ''h''" and can_run = "\<lambda>_. True" and s = "demo_sys demo_granted 1 Idle []" and sid = 1 and n = 0]
    by (simp add: demo_sys_def set_runner_def)
  moreover have "?step (demo_sys demo_granted 0 Looping []) (demo_sys demo_granted 0 (Picked 42) [])"
    using action_step.Pick [where sha = "\<lambda>_. ''h''" and can_run = "\<lambda>_. True" and s = "demo_sys demo_granted 0 Looping []" and sid = 1]
    by (simp add: demo_sys_def set_runner_def next_approved_def demo_granted demo_simps)
  moreover have "?step (demo_sys demo_granted 0 (Picked 42) []) (demo_sys demo_claimed 0 (Running demo_call) [demo_call])"
    using action_step.Start [where sha = "\<lambda>_. ''h''" and can_run = "\<lambda>_. True" and s = "demo_sys demo_granted 0 (Picked 42) []" and sid = 1 and pid = 42 and now = 2
      and row = demo_call and db = demo_claimed] demo_claim
    by (simp add: demo_sys_def set_runner_def)
  ultimately show ?thesis by (meson rtranclp.rtrancl_into_rtrancl rtranclp.rtrancl_refl)
qed

section \<open>What runs was approved\<close>

text \<open>C4: Whatever the requests, their interleaving and the crashes: an executor is only ever called on content whose
  hash the owner of the session approved (an agent with a shell only by the web sign-in), and only for a kind this
  deployment can run. The stored proposal still says whose it is.\<close>

theorem approved_before_run:
  assumes "action_steps sha can_run new_service s" "c \<in> set (as_calls s)"
  shows "(\<exists>l \<in> set (ad_log (as_db s)). \<exists>a. au_proposal l = aw_id c \<and>
      au_event l = Ev_Approved (payload_sha256 sha (aw_kind c) (aw_payload c)) \<and> au_actor l = Some a \<and>
      ac_user a = aw_user c \<and> (aw_kind c = PI_SESSION \<longrightarrow> ac_kind a = Web)) \<and>
    can_run (aw_kind c) \<and> (\<exists>r \<in> set (ad_rows (as_db s)). identity_of r = identity_of c)"
proof -
  have "call_ok sha can_run (as_db s) c"
    using action_steps_ok [OF assms(1) new_service_ok] assms(2) by (simp add: sys_ok_def base_ok_def)
  then show ?thesis
    by (auto simp: call_ok_def hash_ok_def approved_by_owner_def entitled_def same_proposal_def)
qed

theorem approved_before_run_witness:
  "\<exists>l \<in> set (ad_log demo_claimed). \<exists>a. au_proposal l = 42 \<and> au_event l = Ev_Approved ''h'' \<and> au_actor l = Some a \<and> ac_kind a = Web"
  using approved_before_run [OF act_steps, of demo_call]
  by (auto simp: demo_sys_def demo_call_def demo_simps payload_sha256_def)


text \<open>C22: One grant, one execution: the executor calls of a proposal never outnumber the owner's approvals and retries
  of it; every grant but a waiting one has started; and every start but a running one has been reported, once.\<close>

theorem one_run_per_grant:
  assumes "action_steps sha can_run new_service s" "r \<in> set (ad_rows (as_db s))"
  shows "calls_of (aw_id r) (as_calls s) \<le> logged is_start (aw_id r) (as_db s) \<and>
    logged is_grant (aw_id r) (as_db s) = logged is_start (aw_id r) (as_db s) + (if aw_state r = Approved then 1 else 0) \<and>
    logged is_start (aw_id r) (as_db s) = logged is_end (aw_id r) (as_db s) + (if aw_state r = Executing then 1 else 0)"
proof -
  have ok: "base_ok sha can_run (as_db s) (as_seen s) (as_calls s)"
    using action_steps_ok [OF assms(1) new_service_ok] by (simp add: sys_ok_def)
  then have "row_ok r (as_db s)" using assms(2) by (simp add: base_ok_def db_ok_def)
  moreover have "calls_of (aw_id r) (as_calls s) \<le> logged is_start (aw_id r) (as_db s)" using ok by (simp add: base_ok_def)
  ultimately show ?thesis unfolding row_ok_def by blast
qed

theorem one_run_per_grant_witness:
  "calls_of 42 [demo_call] \<le> logged is_start 42 demo_claimed \<and> logged is_grant 42 demo_claimed = logged is_start 42 demo_claimed"
  using one_run_per_grant [OF act_steps, of demo_call]
  by (simp add: demo_sys_def demo_claimed demo_call_def act_row_def stored_row_def)










section \<open>Running a session's approved actions\<close>

fun outcome_event :: "exec_result \<Rightarrow> audit" where
  "outcome_event (Exec_Done result) = Ev_Succeeded result"
| "outcome_event (Exec_Error text) = Ev_Failed (error_of text)"
| "outcome_event (Exec_Raised text) = Ev_Failed (error_of text)"

fun outcome_state :: "exec_result \<Rightarrow> action_state" where
  "outcome_state (Exec_Done result) = Succeeded"
| "outcome_state _ = Failed"

definition claimed_row :: "int \<Rightarrow> action_row \<Rightarrow> action_row" where
  "claimed_row now r = (touched now r)\<lparr>aw_state := Executing\<rparr>"

definition row_outcome :: "int \<Rightarrow> (kind \<Rightarrow> bool) \<Rightarrow> (action_row \<Rightarrow> exec_result) \<Rightarrow> action_row \<Rightarrow> exec_result" where
  "row_outcome now can_run exec r = outcome_of can_run (aw_kind r) (exec (claimed_row now r))"

definition run_log :: "int \<Rightarrow> (kind \<Rightarrow> bool) \<Rightarrow> (action_row \<Rightarrow> exec_result) \<Rightarrow> action_row \<Rightarrow> audit_row list" where
  "run_log now can_run exec r =
     [\<lparr>au_proposal = aw_id r, au_actor = None, au_event = Ev_Started\<rparr>,
      \<lparr>au_proposal = aw_id r, au_actor = None, au_event = outcome_event (row_outcome now can_run exec r)\<rparr>]"

lemma settle_log: "ad_log (settle_action now pid res db) = ad_log db @ [\<lparr>au_proposal = pid, au_actor = None, au_event = outcome_event res\<rparr>]"
  by (cases res) (simp_all add: finish_action_def cas_def update_where_def)

lemma settle_rows:
  assumes "distinct (map aw_id (ad_rows db))" "r \<in> set (ad_rows db)" "aw_state r = Executing"
  shows "\<exists>r'. ad_rows (settle_action now (aw_id r) res db) = map (\<lambda>x. if aw_id x = aw_id r then r' else x) (ad_rows db) \<and>
    identity_of r' = identity_of r \<and> content_of r' = content_of r \<and> aw_state r' = outcome_state res"
proof -
  have "\<exists>r'. ad_rows (finish_action now (aw_id r) st p db) = map (\<lambda>x. if aw_id x = aw_id r then r' else x) (ad_rows db) \<and>
    identity_of r' = identity_of r \<and> content_of r' = content_of r \<and> aw_state r' = st" for st p
    using update_one [OF assms(1,2) refl, of "\<lambda>x. aw_state x = Executing" "\<lambda>x. aw_id x = aw_id r \<and> aw_state x = Executing" now
        "\<lambda>r. r\<lparr>aw_state := st, aw_result := Some p, aw_executed_at := Some now\<rparr>"] assms(3)
    by (intro exI [of _ "(touched now r)\<lparr>aw_state := st, aw_result := Some p, aw_executed_at := Some now\<rparr>"])
       (simp add: finish_action_def cas_def)
  then show ?thesis by (cases res) simp_all
qed

lemma run_action_exact:
  assumes d: "distinct (map aw_id (ad_rows db))" and r: "r \<in> set (ad_rows db)" "aw_state r = Approved"
  shows "\<exists>r'. ad_rows (run_action now can_run exec (aw_id r) db) = map (\<lambda>x. if aw_id x = aw_id r then r' else x) (ad_rows db) \<and>
    identity_of r' = identity_of r \<and> content_of r' = content_of r \<and> aw_state r' = outcome_state (row_outcome now can_run exec r) \<and>
    ad_log (run_action now can_run exec (aw_id r) db) = ad_log db @ run_log now can_run exec r"
proof -
  let ?c = "claimed_row now r"
  let ?db = "log_event (aw_id r) Ev_Started None (replace_row (aw_id r) ?c db)"
  have id: "aw_id ?c = aw_id r" "aw_state ?c = Executing" "identity_of ?c = identity_of r" "content_of ?c = content_of r" "aw_kind ?c = aw_kind r"
    by (simp_all add: claimed_row_def touched_def identity_of_def content_of_def)
  have d': "distinct (map aw_id (ad_rows ?db))" using d replace_ids [OF id(1), of db] by (simp only: log_event_sel)
  have c: "?c \<in> set (ad_rows ?db)" using r(1) by force
  have "claim_action now (aw_id r) db = (row_of ?db (aw_id r), ?db)"
    using update_one [OF d r(1) refl, of "\<lambda>x. aw_state x = Approved"] r(2)
    by (simp add: claim_action_def cas_def claimed_row_def Let_def)
  moreover have "row_of ?db (aw_id r) = Some ?c" using row_of_Some [OF d' c] id(1) by simp
  ultimately have run: "run_action now can_run exec (aw_id r) db = settle_action now (aw_id r) (row_outcome now can_run exec r) ?db"
    by (simp add: run_action_def row_outcome_def id(5))
  obtain r' where "ad_rows (settle_action now (aw_id ?c) (row_outcome now can_run exec r) ?db) = map (\<lambda>x. if aw_id x = aw_id ?c then r' else x) (ad_rows ?db)"
    "identity_of r' = identity_of ?c" "content_of r' = content_of ?c" "aw_state r' = outcome_state (row_outcome now can_run exec r)"
    using settle_rows [OF d' c id(2)] by blast
  then show ?thesis
    unfolding run settle_log id by (intro exI [of _ r']) (auto simp: run_log_def id)
qed

lemma next_approved_none: "next_approved sid db = None \<longleftrightarrow> approved_rows sid db = []"
  by (auto simp: next_approved_def approved_rows_def split: list.splits)

lemma approved_after:
  assumes "ad_rows db' = map (\<lambda>x. if aw_id x = aw_id r then r' else x) (ad_rows db)" "aw_state r' \<noteq> Approved"
  shows "approved_rows sid db' = filter (\<lambda>x. aw_id x \<noteq> aw_id r) (approved_rows sid db)"
proof -
  have "filter P (map (\<lambda>x. if aw_id x = aw_id r then r' else x) xs) = filter (\<lambda>x. aw_id x \<noteq> aw_id r) (filter P xs)" if "\<not> P r'" for P xs
    using that by (induction xs) auto
  then show ?thesis using assms by (simp add: approved_rows_def)
qed

lemma outcome_state_settled: "outcome_state res = Succeeded \<or> outcome_state res = Failed"
  by (cases res) simp_all

text \<open>
  C18: With no other request in between, \<open>execute_approved\<close> ends after as many rounds as there are approved actions, whatever
  the executors answer: it runs each of them once, in the order of their positions, a failure not stopping the next; it
  logs the start and the outcome of each; and each ends \<open>succeeded\<close> or \<open>failed\<close> with the content that was approved.
\<close>

theorem execute_approved_runs_all:
  assumes "distinct (map aw_id (ad_rows db))" "length (approved_rows sid db) < fuel"
  shows "\<exists>db' ran. execute_rounds fuel now can_run exec sid db = Some db' \<and> approved_rows sid db' = [] \<and>
    distinct ran \<and> set ran = set (approved_rows sid db) \<and> sorted_wrt (\<le>) (map aw_position ran) \<and>
    ad_log db' = ad_log db @ concat (map (run_log now can_run exec) ran) \<and>
    (\<forall>r \<in> set ran. \<exists>r' \<in> set (ad_rows db'). identity_of r' = identity_of r \<and> content_of r' = content_of r \<and>
       aw_state r' = outcome_state (row_outcome now can_run exec r)) \<and>
    (\<forall>r \<in> set (ad_rows db) - set ran. r \<in> set (ad_rows db'))"
  using assms
proof (induction fuel arbitrary: db)
  case (Suc fuel)
  show ?case
  proof (cases "next_approved sid db")
    case None
    then show ?thesis using next_approved_none [of sid db] by (intro exI [of _ db] exI [of _ "[]"]) simp
  next
    case (Some pid)
    then obtain r where r: "r \<in> set (approved_rows sid db)" "aw_id r = pid"
      "\<forall>x \<in> set (approved_rows sid db). aw_position r \<le> aw_position x"
      using next_approved_least by blast
    then have in_db: "r \<in> set (ad_rows db)" "aw_state r = Approved" by (auto simp: approved_rows_def)
    let ?db = "run_action now can_run exec pid db"
    obtain r' where r': "ad_rows ?db = map (\<lambda>x. if aw_id x = aw_id r then r' else x) (ad_rows db)" "identity_of r' = identity_of r"
      "content_of r' = content_of r" "aw_state r' = outcome_state (row_outcome now can_run exec r)"
      "ad_log ?db = ad_log db @ run_log now can_run exec r"
      using run_action_exact [OF Suc.prems(1) in_db, of now can_run exec] r(2) by auto
    have left: "approved_rows sid ?db = filter (\<lambda>x. aw_id x \<noteq> aw_id r) (approved_rows sid db)"
      using approved_after [OF r'(1)] r'(4) outcome_state_settled [of "row_outcome now can_run exec r"] by auto
    have this_only: "aw_id x = aw_id r \<longleftrightarrow> x = r" if "x \<in> set (ad_rows db)" for x
      using distinct_ids_eq [OF Suc.prems(1) that in_db(1)] by auto
    have d: "distinct (map aw_id (ad_rows ?db))"
    proof -
      have "map aw_id (ad_rows (replace_row (aw_id r) r' db)) = map aw_id (ad_rows db)"
        using r'(2) by (intro replace_ids) (simp add: identity_of_def)
      then show ?thesis using Suc.prems(1) unfolding r'(1) replace_row_sel by (simp only:)
    qed
    have "length (approved_rows sid ?db) < length (approved_rows sid db)"
      unfolding left using r(1) by (intro length_filter_less) auto
    then obtain db' ran where IH: "execute_rounds fuel now can_run exec sid ?db = Some db'" "approved_rows sid db' = []" "distinct ran"
      "set ran = set (approved_rows sid ?db)" "sorted_wrt (\<le>) (map aw_position ran)"
      "ad_log db' = ad_log ?db @ concat (map (run_log now can_run exec) ran)"
      "\<forall>x \<in> set ran. \<exists>y \<in> set (ad_rows db'). identity_of y = identity_of x \<and> content_of y = content_of x \<and>
         aw_state y = outcome_state (row_outcome now can_run exec x)"
      "\<forall>x \<in> set (ad_rows ?db) - set ran. x \<in> set (ad_rows db')"
      using Suc.IH [OF d] Suc.prems(2) by fastforce
    have ran: "set ran = set (approved_rows sid db) - {r}"
      unfolding IH(4) left using this_only by (auto simp: approved_rows_def)
    have "r' \<in> set (ad_rows ?db)" using in_db(1) unfolding r'(1) by force
    moreover have "r' \<notin> set ran"
      using r'(4) outcome_state_settled [of "row_outcome now can_run exec r"] unfolding ran by (auto simp: approved_rows_def)
    ultimately have "r' \<in> set (ad_rows db')" using IH(8) by blast
    then have settled: "\<exists>y \<in> set (ad_rows db'). identity_of y = identity_of r \<and> content_of y = content_of r \<and>
        aw_state y = outcome_state (row_outcome now can_run exec r)" using r' by blast
    have "x \<in> set (ad_rows ?db)" if "x \<in> set (ad_rows db)" "x \<noteq> r" for x
      unfolding r'(1) using that this_only by force
    then have kept: "\<forall>x \<in> set (ad_rows db) - set (r # ran). x \<in> set (ad_rows db')" using IH(8) by auto
    show ?thesis
    proof (intro exI [of _ db'] exI [of _ "r # ran"] conjI)
      show "execute_rounds (Suc fuel) now can_run exec sid db = Some db'" using Some IH(1) by simp
      show "distinct (r # ran)" "set (r # ran) = set (approved_rows sid db)" using IH(3) ran r(1) by auto
      show "sorted_wrt (\<le>) (map aw_position (r # ran))" using IH(5) r(3) ran by auto
      show "ad_log db' = ad_log db @ concat (map (run_log now can_run exec) (r # ran))" using IH(6) r'(5) by simp
      show "\<forall>x \<in> set (r # ran). \<exists>y \<in> set (ad_rows db'). identity_of y = identity_of x \<and> content_of y = content_of x \<and>
         aw_state y = outcome_state (row_outcome now can_run exec x)" using IH(7) settled by simp
    qed (use IH(2) kept in simp_all)
  qed
qed simp

theorem execute_approved_runs_all_witness:
  "\<exists>db'. execute_rounds 2 5 (\<lambda>_. False) (\<lambda>_. Exec_Done []) 1 demo_granted = Some db' \<and> approved_rows 1 db' = []"
proof -
  have "distinct (map aw_id (ad_rows demo_granted))" "length (approved_rows 1 demo_granted) < 2"
    by (simp_all add: demo_granted approved_rows_def)
  then show ?thesis using execute_approved_runs_all [of demo_granted 1 2 5 "\<lambda>_. False" "\<lambda>_. Exec_Done []"] by blast
qed

section \<open>What a restart leaves behind\<close>




lemma edit_wrong_type_raises:
  assumes "own db pid (ac_user actor) = Inr row" "aw_state row = Proposed" "aw_kind row = TASK_CREATE"
  shows "edit sha now cx pid actor [(''text'', Ch_Value (PInt 5))] db = (Inl (Raised ''ValidationError''), db)"
  using assms by (simp add: edit_def edit_payload_def EDITABLE_def proposal_from_def merged_field_def)

end
