(* ===== verification/Dispatch.thy ===== *)
theory Dispatch
  imports WorkItems Tiers Actions
begin

text \<open>
  From a work item to a coding agent's run: the owner's review (\<open>workitems/service.py\<close>), the gate
  (\<open>workitems/dispatch.py\<close>) and the runs (\<open>dispatch/service.py\<close>): queued behind the gate, started as Kubernetes Jobs
  within a cap, read back and ended. A transaction that holds the row's lock is one function on the tables; what
  Kubernetes and the token issuer answer is an argument. The rendered prompt is a parameter, as is SHA-256; a template that
  fails to render, which refuses the approval, is left out.
\<close>

section \<open>Tables\<close>

record task_row = witem +
  tk_id :: nat
  tk_session :: string
  tk_user :: nat
  tk_merged_into :: "nat option"
  tk_prompt_md :: "string option"
  tk_prompt_sha256 :: "string option"
  tk_approved_by :: "nat option"
  tk_approved_at :: "int option"
  tk_done_at :: "int option"
  tk_merged_pr_url :: "string option"
  tk_version :: nat

datatype dispatch_state = Queued | Started | Cancelled | Ended string

record run_row =
  rn_id :: nat
  rn_item :: nat
  rn_attempt :: nat
  rn_state :: dispatch_state
  rn_repo :: string
  rn_branch :: string
  rn_prompt_sha256 :: string
  rn_requested_by :: nat
  rn_job_name :: "string option"
  rn_pr_url :: "string option"
  rn_pr_number :: "int option"
  rn_summary :: "string option"
  rn_error :: "string option"
  rn_questions :: "string option"
  rn_guidance :: "string option"
  rn_continues :: "nat option"
  rn_started_at :: "int option"
  rn_finished_at :: "int option"
  rn_token_refreshed_at :: "int option"

datatype task_event =
    Tk_Proposed string | Tk_Llm_Updated "item_field list" | Tk_Edited "item_field list" | Tk_Unapproved
  | Tk_Approved "string option" string string | Tk_Discarded | Tk_Restored | Tk_Done "string option" | Tk_Reopened
  | Tk_Merged_Into nat | Tk_Merged_From "nat list" | Tk_Copied "string option" bool
  | Tk_Dispatch_Refused string | Tk_Dispatch_Requested string string string "string option"
  | Tk_Dispatch_Cancelled nat "string option" | Tk_Dispatch_Started nat string | Tk_Dispatch_Finished nat string

record task_log =
  tl_item :: nat
  tl_actor :: "actor option"
  tl_event :: task_event

record work_db =
  wd_items :: "task_row list"
  wd_runs :: "run_row list"
  wd_log :: "task_log list"

datatype work_fault = Work_Error nat string

record work_config =
  wc_sha256 :: "string \<Rightarrow> string"
  wc_allowlist :: "string list"
  wc_dispatchable :: "string list"
  wc_max_concurrent :: nat
  wc_dispatcher :: bool
  wc_public_url :: string

definition MAX_GUIDANCE :: nat where "MAX_GUIDANCE = 4000"
definition EDITABLE_FIELDS :: "item_field list" where "EDITABLE_FIELDS = [Title, Repo, Intent, Acceptance_criteria, Done_when]"
definition TOKEN_REFRESH_S :: int where "TOKEN_REFRESH_S = 1800"

fun state_word :: "item_state \<Rightarrow> string" where
  "state_word Draft = ''draft''"
| "state_word WorkItems.Approved = ''approved''"
| "state_word Discarded = ''discarded''"
| "state_word Merged = ''merged''"
| "state_word Done = ''done''"
| "state_word (Other_state s) = s"

definition task_of :: "work_db \<Rightarrow> nat \<Rightarrow> task_row option" where
  "task_of db tid = find (\<lambda>t. tk_id t = tid) (wd_items db)"

definition put_task :: "task_row \<Rightarrow> work_db \<Rightarrow> work_db" where
  "put_task t db = db\<lparr>wd_items := map (\<lambda>x. if tk_id x = tk_id t then t else x) (wd_items db)\<rparr>"

definition put_run :: "run_row \<Rightarrow> work_db \<Rightarrow> work_db" where
  "put_run r db = db\<lparr>wd_runs := map (\<lambda>x. if rn_id x = rn_id r then r else x) (wd_runs db)\<rparr>"

definition task_log_event :: "nat \<Rightarrow> task_event \<Rightarrow> actor option \<Rightarrow> work_db \<Rightarrow> work_db" where
  "task_log_event tid e a db = db\<lparr>wd_log := wd_log db @ [\<lparr>tl_item = tid, tl_actor = a, tl_event = e\<rparr>]\<rparr>"

definition own_task :: "work_db \<Rightarrow> nat \<Rightarrow> nat \<Rightarrow> work_fault + task_row" where
  "own_task db tid user = (case task_of db tid of
     None \<Rightarrow> Inl (Work_Error 404 ''Work item not found.'')
   | Some t \<Rightarrow> if tk_user t \<noteq> user then Inl (Work_Error 404 ''Work item not found.'') else Inr t)"

text \<open>A change of the owner: find and lock the item, decide, write it with a new version and log it.\<close>

definition task_change ::
  "work_db \<Rightarrow> nat \<Rightarrow> actor \<Rightarrow> (task_row \<Rightarrow> work_fault + (task_row \<times> task_event list)) \<Rightarrow> (work_fault + task_row) \<times> work_db" where
  "task_change db tid actor f = (case own_task db tid (ac_user actor) of
     Inl e \<Rightarrow> (Inl e, db)
   | Inr t \<Rightarrow> (case f t of
       Inl e \<Rightarrow> (Inl e, db)
     | Inr (t', events) \<Rightarrow>
         if events = [] then (Inr t, db)
         else (let t'' = t'\<lparr>tk_version := tk_version t' + 1\<rparr>
               in (Inr t'', fold (\<lambda>e. task_log_event tid e (Some actor)) events (put_task t'' db)))))"

section \<open>Reviewing\<close>

definition unfreeze :: "task_row \<Rightarrow> task_row" where
  "unfreeze t = t\<lparr>wi_state := (if wi_state t = WorkItems.Approved then Draft else wi_state t), tk_prompt_md := None,
     tk_prompt_sha256 := None, tk_approved_by := None, tk_approved_at := None\<rparr>"

datatype field_edit =
    Set_Title "string option" | Set_Repo "string option" | Set_Intent "string option"
  | Set_Criteria "string list option" | Set_Done_When "string option" | Set_Other string

fun apply_edit :: "string list \<Rightarrow> field_edit list \<Rightarrow> task_row \<Rightarrow> item_field list \<Rightarrow> work_fault + (task_row \<times> item_field list)" where
  "apply_edit allow [] t changed = Inr (t, changed)"
| "apply_edit allow (Set_Title v # es) t changed =
     (let x = clip v MAX_TITLE in
      if x = [] then Inl (Work_Error 422 ''The title cannot be empty.'')
      else if wi_title t \<noteq> x then apply_edit allow es (t\<lparr>wi_title := x\<rparr>) (changed @ [Title]) else apply_edit allow es t changed)"
| "apply_edit allow (Set_Repo v # es) t changed =
     (let y = strip (text_or_empty v); x = (if y = [] then None else Some y) in
      if x \<noteq> None \<and> y \<notin> set allow then Inl (Work_Error 422 (y @ '' is not on the allowlist.''))
      else if wi_repo t \<noteq> x then apply_edit allow es (t\<lparr>wi_repo := x\<rparr>) (changed @ [Repo]) else apply_edit allow es t changed)"
| "apply_edit allow (Set_Intent v # es) t changed =
     (let x = clip_block v MAX_INTENT in
      if wi_intent t \<noteq> x then apply_edit allow es (t\<lparr>wi_intent := x\<rparr>) (changed @ [Intent]) else apply_edit allow es t changed)"
| "apply_edit allow (Set_Criteria v # es) t changed =
     (let x = clean_criteria (case v of None \<Rightarrow> [] | Some cs \<Rightarrow> cs) in
      if wi_criteria t \<noteq> x then apply_edit allow es (t\<lparr>wi_criteria := x\<rparr>) (changed @ [Acceptance_criteria])
      else apply_edit allow es t changed)"
| "apply_edit allow (Set_Done_When v # es) t changed =
     (let y = clip v MAX_DONE_WHEN; x = (if y = [] then None else Some y) in
      if wi_done_when t \<noteq> x then apply_edit allow es (t\<lparr>wi_done_when := x\<rparr>) (changed @ [Done_when])
      else apply_edit allow es t changed)"
| "apply_edit allow (Set_Other name # es) t changed = Inl (Work_Error 422 (name @ '' cannot be edited.''))"

definition with_locks :: "item_field list \<Rightarrow> task_row \<Rightarrow> task_row" where
  "with_locks fs t = t\<lparr>wi_locked := sort (remdups (wi_locked t @ fs))\<rparr>"

definition task_edit :: "work_config \<Rightarrow> nat \<Rightarrow> actor \<Rightarrow> field_edit list \<Rightarrow> work_db \<Rightarrow> (work_fault + task_row) \<times> work_db" where
  "task_edit cfg tid actor edits db = task_change db tid actor (\<lambda>t.
     if wi_state t \<notin> {Draft, WorkItems.Approved}
     then Inl (Work_Error 409 (''A '' @ state_word (wi_state t) @ '' work item cannot be edited.''))
     else (case apply_edit (wc_allowlist cfg) edits t [] of
       Inl e \<Rightarrow> Inl e
     | Inr (t1, changed) \<Rightarrow>
         if changed = [] then Inr (t, [])
         else if wi_state t = WorkItems.Approved
         then Inr (unfreeze (with_locks changed t1), [Tk_Unapproved, Tk_Edited changed])
         else Inr (with_locks changed t1, [Tk_Edited changed])))"

definition approval_problems :: "task_row \<Rightarrow> string list \<Rightarrow> string list" where
  "approval_problems t allow =
     (case wi_repo t of
        None \<Rightarrow> [''choose a repository'']
      | Some r \<Rightarrow> if r = [] then [''choose a repository''] else if r \<notin> set allow then [r @ '' is not on the allowlist''] else []) @
     (if strip (wi_title t) = [] then [''add a title''] else []) @
     (if wi_criteria t = [] then [''add at least one acceptance criterion''] else [])"

definition task_approve ::
  "work_config \<Rightarrow> (task_row \<Rightarrow> string) \<Rightarrow> int \<Rightarrow> nat \<Rightarrow> actor \<Rightarrow> work_db \<Rightarrow> (work_fault + task_row) \<times> work_db" where
  "task_approve cfg render now tid actor db =
     (if ac_kind actor \<noteq> Web then (Inl (Work_Error 403 ''Approve from the dashboard sign-in, not a device token.''), db)
      else task_change db tid actor (\<lambda>t.
        if wi_state t \<noteq> Draft
        then Inl (Work_Error 409 (''Only drafts can be approved. This one is '' @ state_word (wi_state t) @ ''.''))
        else if approval_problems t (wc_allowlist cfg) \<noteq> []
        then Inl (Work_Error 409 (''Cannot approve yet: '' @ join ''; '' (approval_problems t (wc_allowlist cfg)) @ ''.''))
        else (let prompt = render t; h = wc_sha256 cfg prompt
              in Inr (t\<lparr>wi_state := WorkItems.Approved, tk_prompt_md := Some prompt, tk_prompt_sha256 := Some h,
                        tk_approved_by := Some (ac_user actor), tk_approved_at := Some now\<rparr>, [Tk_Approved (wi_repo t) prompt h]))))"

definition task_unapprove :: "nat \<Rightarrow> actor \<Rightarrow> work_db \<Rightarrow> (work_fault + task_row) \<times> work_db" where
  "task_unapprove tid actor db = task_change db tid actor (\<lambda>t.
     if wi_state t \<noteq> WorkItems.Approved then Inl (Work_Error 409 ''The work item is not approved.'')
     else Inr (unfreeze t, [Tk_Unapproved]))"

definition task_discard :: "nat \<Rightarrow> actor \<Rightarrow> work_db \<Rightarrow> (work_fault + task_row) \<times> work_db" where
  "task_discard tid actor db = task_change db tid actor (\<lambda>t.
     if wi_state t \<notin> {Draft, WorkItems.Approved}
     then Inl (Work_Error 409 (''A '' @ state_word (wi_state t) @ '' work item cannot be discarded.''))
     else Inr ((unfreeze t)\<lparr>wi_state := Discarded\<rparr>, [Tk_Discarded]))"

definition task_restore :: "nat \<Rightarrow> actor \<Rightarrow> work_db \<Rightarrow> (work_fault + task_row) \<times> work_db" where
  "task_restore tid actor db = task_change db tid actor (\<lambda>t.
     if wi_state t \<noteq> Discarded then Inl (Work_Error 409 ''Only discarded work items can be restored.'')
     else Inr (t\<lparr>wi_state := Draft\<rparr>, [Tk_Restored]))"

definition task_done :: "int \<Rightarrow> nat \<Rightarrow> actor \<Rightarrow> work_db \<Rightarrow> (work_fault + task_row) \<times> work_db" where
  "task_done now tid actor db = task_change db tid actor (\<lambda>t.
     if wi_state t \<notin> {Draft, WorkItems.Approved}
     then Inl (Work_Error 409 (''A '' @ state_word (wi_state t) @ '' work item cannot be marked done.''))
     else Inr (t\<lparr>wi_state := Done, tk_done_at := Some now\<rparr>, [Tk_Done None]))"

definition task_reopen :: "nat \<Rightarrow> actor \<Rightarrow> work_db \<Rightarrow> (work_fault + task_row) \<times> work_db" where
  "task_reopen tid actor db = task_change db tid actor (\<lambda>t.
     if wi_state t \<noteq> Done then Inl (Work_Error 409 ''Only done work items can be reopened.'')
     else Inr (t\<lparr>wi_state := (if tk_prompt_md t \<notin> {None, Some []} then WorkItems.Approved else Draft), tk_done_at := None\<rparr>,
               [Tk_Reopened]))"

definition task_pr_merged :: "int \<Rightarrow> nat \<Rightarrow> string \<Rightarrow> work_db \<Rightarrow> work_db" where
  "task_pr_merged now tid url db = (case task_of db tid of
     None \<Rightarrow> db
   | Some t \<Rightarrow>
       if wi_state t \<noteq> WorkItems.Approved \<or> tk_merged_pr_url t = Some url then db
       else task_log_event tid (Tk_Done (Some url)) None
              (put_task (t\<lparr>wi_state := Done, tk_done_at := Some now, tk_merged_pr_url := Some url, tk_version := tk_version t + 1\<rparr>) db))"

definition task_copied :: "nat \<Rightarrow> actor \<Rightarrow> work_db \<Rightarrow> (work_fault + unit) \<times> work_db" where
  "task_copied tid actor db = (case own_task db tid (ac_user actor) of
     Inl e \<Rightarrow> (Inl e, db)
   | Inr t \<Rightarrow> (Inr (), task_log_event tid (Tk_Copied (tk_prompt_sha256 t) (wi_state t = WorkItems.Approved)) (Some actor) db))"

text \<open>\<open>merge\<close>: the sources of the others that are not there yet, in the order the others were named.\<close>

fun merged_sources :: "string set \<Rightarrow> wsource list \<Rightarrow> task_row list \<Rightarrow> wsource list" where
  "merged_sources seen out [] = out"
| "merged_sources seen out (r # rs) =
     merged_sources (seen \<union> ws_segment ` set (wi_sources r))
       (out @ filter (\<lambda>s. ws_segment s \<notin> seen) (wi_sources r)) rs"

definition by_time :: "wsource list \<Rightarrow> wsource list" where
  "by_time ss = sort_key ws_start (sort_key ws_end ss)"

definition first_repo :: "task_row list \<Rightarrow> string option" where
  "first_repo rs = (case filter (\<lambda>r. wi_repo r \<notin> {None, Some []}) rs of [] \<Rightarrow> None | r # _ \<Rightarrow> wi_repo r)"

definition merge_into :: "task_row \<Rightarrow> task_row list \<Rightarrow> task_row" where
  "merge_into t rs = with_locks EDITABLE_FIELDS (t\<lparr>
     wi_sources := by_time (merged_sources (ws_segment ` set (wi_sources t)) (wi_sources t) rs),
     wi_criteria := clean_criteria (wi_criteria t @ concat (map wi_criteria rs)),
     wi_intent := clip_block (Some (join [newline, newline] (filter (\<lambda>i. strip i \<noteq> []) (wi_intent t # map wi_intent rs)))) MAX_INTENT,
     wi_repo := (if wi_repo t = None then first_repo rs else wi_repo t),
     tk_version := tk_version t + 1\<rparr>)"

definition merge_away :: "nat \<Rightarrow> actor \<Rightarrow> task_row \<Rightarrow> work_db \<Rightarrow> work_db" where
  "merge_away into_id actor r db = task_log_event (tk_id r) (Tk_Merged_Into into_id) (Some actor)
     (put_task (r\<lparr>wi_state := Merged, tk_merged_into := Some into_id, tk_version := tk_version r + 1\<rparr>) db)"

definition task_merge :: "nat \<Rightarrow> nat list \<Rightarrow> actor \<Rightarrow> work_db \<Rightarrow> (work_fault + task_row) \<times> work_db" where
  "task_merge into_id from_ids actor db =
     (let others = filter (\<lambda>i. i \<noteq> into_id) (rev (remdups (rev from_ids)))
      in if others = [] then (Inl (Work_Error 422 ''Name at least one other work item to merge.''), db)
      else (case those (map (\<lambda>i. case own_task db i (ac_user actor) of Inl _ \<Rightarrow> None | Inr t \<Rightarrow> Some t) (into_id # others)) of
        Some (t # rs) \<Rightarrow>
          if \<exists>r \<in> set rs. tk_session r \<noteq> tk_session t
          then (Inl (Work_Error 409 ''Only work items of the same session can be merged.''), db)
          else if \<exists>r \<in> set (t # rs). wi_state r \<noteq> Draft then (Inl (Work_Error 409 ''Only drafts can be merged.''), db)
          else (let t' = merge_into t rs;
                    db1 = fold (merge_away into_id actor) rs db
                in (Inr t', task_log_event into_id (Tk_Merged_From others) (Some actor) (put_task t' db1)))
      | _ \<Rightarrow> (Inl (Work_Error 404 ''Work item not found.''), db)))"

section \<open>The gate\<close>

definition text_or :: "string option \<Rightarrow> string \<Rightarrow> string" where
  "text_or s d = (case s of None \<Rightarrow> d | Some t \<Rightarrow> if t = [] then d else t)"

definition refusal :: "work_config \<Rightarrow> task_row \<Rightarrow> actor \<Rightarrow> string option" where
  "refusal cfg t actor =
     (if ac_kind actor \<noteq> Web then Some ''dispatching needs the dashboard sign-in, not a device token''
      else if tk_user t \<noteq> ac_user actor then Some ''not your work item''
      else if wi_state t \<noteq> WorkItems.Approved then Some (''the work item is '' @ state_word (wi_state t) @ '', not approved'')
      else if tk_prompt_md t \<in> {None, Some []} \<or> tk_prompt_sha256 t \<in> {None, Some []} \<or>
              Some (wc_sha256 cfg (the (tk_prompt_md t))) \<noteq> tk_prompt_sha256 t then Some ''the prompt changed since it was approved''
      else if tk_approved_by t \<noteq> Some (ac_user actor) then Some ''approved by someone else''
      else if wi_repo t \<in> {None, Some []} \<or> the (wi_repo t) \<notin> set (wc_allowlist cfg)
      then Some (text_or (wi_repo t) ''no repository'' @ '' is not on the allowlist'')
      else if the (wi_repo t) \<notin> set (wc_dispatchable cfg) then Some (the (wi_repo t) @ '' is not on the dispatch allowlist of this server'')
      else None)"

record dispatch_order =
  do_item :: nat
  do_repo :: string
  do_prompt :: string
  do_sha256 :: string
  do_actor :: actor
  do_guidance :: "string option"

text \<open>\<open>WorkItemService.dispatch\<close> up to its first commit: what passes is handed on as it was checked under the lock.\<close>

definition guidance_fault :: "string option \<Rightarrow> work_fault option" where
  "guidance_fault g = (case g of
     None \<Rightarrow> None
   | Some x \<Rightarrow>
       if strip x = [] then Some (Work_Error 422 ''The guidance is empty.'')
       else if length (strip x) > MAX_GUIDANCE then Some (Work_Error 422 (''The guidance is longer than '' @ dec_str MAX_GUIDANCE @ '' characters.''))
       else None)"

definition dispatch_gate :: "work_config \<Rightarrow> nat \<Rightarrow> actor \<Rightarrow> string option \<Rightarrow> work_db \<Rightarrow> (work_fault + dispatch_order) \<times> work_db" where
  "dispatch_gate cfg tid actor guidance db = (case guidance_fault guidance of
     Some e \<Rightarrow> (Inl e, db)
   | None \<Rightarrow> (case own_task db tid (ac_user actor) of
       Inl e \<Rightarrow> (Inl e, db)
     | Inr t \<Rightarrow> (case refusal cfg t actor of
         Some reason \<Rightarrow> (Inl (Work_Error 409 reason), task_log_event tid (Tk_Dispatch_Refused reason) (Some actor) db)
       | None \<Rightarrow>
           if \<not> wc_dispatcher cfg
           then (Inl (Work_Error 503 ''Dispatch is not configured on this server.''),
                 task_log_event tid (Tk_Dispatch_Refused ''Dispatch is not configured on this server.'') (Some actor) db)
           else (let g = map_option strip guidance; repo = the (wi_repo t); prompt = the (tk_prompt_md t); h = the (tk_prompt_sha256 t)
                 in (Inr \<lparr>do_item = tid, do_repo = repo, do_prompt = prompt, do_sha256 = h, do_actor = actor, do_guidance = g\<rparr>,
                     task_log_event tid (Tk_Dispatch_Requested repo prompt h g) (Some actor) db)))))"

section \<open>Queueing\<close>

definition run_active :: "run_row \<Rightarrow> bool" where
  "run_active r \<longleftrightarrow> rn_state r = Queued \<or> rn_state r = Started"

definition runs_of :: "nat \<Rightarrow> work_db \<Rightarrow> run_row list" where
  "runs_of tid db = filter (\<lambda>r. rn_item r = tid) (wd_runs db)"

definition last_run :: "run_row list \<Rightarrow> run_row option" where
  "last_run rs = (case rs of [] \<Rightarrow> None | r # rs' \<Rightarrow> Some (foldl (\<lambda>b x. if rn_attempt x > rn_attempt b then x else b) r rs'))"

text \<open>\<open>slug\<close>: each run of other characters than \<open>a-z0-9\<close> becomes one dash.\<close>

definition slug_char :: "char \<Rightarrow> bool" where
  "slug_char c \<longleftrightarrow> is_digit c \<or> (97 \<le> (of_char c :: nat) \<and> (of_char c :: nat) \<le> 122)"

fun dashed :: "bool \<Rightarrow> string \<Rightarrow> string" where
  "dashed gap [] = (if gap then ''-'' else [])"
| "dashed gap (c # cs) = (if slug_char c then (if gap then CHR ''-'' # c # dashed False cs else c # dashed False cs) else dashed True cs)"

definition slug :: "string \<Rightarrow> string" where
  "slug s = (let x = rstrip_of ''-'' (take 40 (rstrip_of ''-'' (lstrip_of ''-'' (dashed False (lower s))))) in if x = [] then ''item'' else x)"

definition branch_name :: "task_row \<Rightarrow> string" where
  "branch_name t = ''claude/work-'' @ take 6 (tk_session t) @ ''-'' @ wi_ref t @ ''-'' @ slug (wi_title t)"

definition queue_run :: "nat \<Rightarrow> dispatch_order \<Rightarrow> work_db \<Rightarrow> (work_fault + unit) \<times> work_db" where
  "queue_run new_id x db = (case task_of db (do_item x) of
     None \<Rightarrow> (Inl (Work_Error 500 ''AssertionError''), db)
   | Some t \<Rightarrow>
       (let runs = runs_of (do_item x) db; prev = last_run runs;
            attempt = (case prev of None \<Rightarrow> 1 | Some r \<Rightarrow> rn_attempt r + 1);
            own = (if attempt = 1 then branch_name t else branch_name t @ ''-'' @ dec_str attempt)
        in if list_ex run_active runs then (Inl (Work_Error 409 ''this work item is already queued or running''), db)
        else if do_guidance x \<noteq> None \<and> prev = None
        then (Inl (Work_Error 409 ''nothing to continue: the work item has not run yet''), db)
        else (Inr (), db\<lparr>wd_runs := wd_runs db @ [\<lparr>rn_id = new_id, rn_item = do_item x, rn_attempt = attempt, rn_state = Queued,
               rn_repo = do_repo x, rn_branch = (if do_guidance x \<noteq> None then rn_branch (the prev) else own),
               rn_prompt_sha256 = do_sha256 x, rn_requested_by = ac_user (do_actor x), rn_job_name = None, rn_pr_url = None,
               rn_pr_number = None, rn_summary = None, rn_error = None, rn_questions = None, rn_guidance = do_guidance x,
               rn_continues = (if do_guidance x \<noteq> None then map_option rn_id prev else None), rn_started_at = None,
               rn_finished_at = None, rn_token_refreshed_at = None\<rparr>]\<rparr>)))"

definition queue_refused :: "dispatch_order \<Rightarrow> string \<Rightarrow> work_db \<Rightarrow> work_db" where
  "queue_refused x reason db = task_log_event (do_item x) (Tk_Dispatch_Refused reason) (Some (do_actor x)) db"

section \<open>The ideas pass on the stored items\<close>

text \<open>
  \<open>store_changes\<close> (\<open>workitems/rows.py\<close>) on the rows of one session, under their locks. The table's constraints are
  checked at the commit: a reference is used once in a session and an id once.
\<close>

definition write_task :: "witem \<Rightarrow> task_row \<Rightarrow> task_row" where
  "write_task it t = t\<lparr>wi_title := wi_title it, wi_repo := wi_repo it, wi_intent := wi_intent it,
     wi_criteria := wi_criteria it, wi_done_when := wi_done_when it, wi_sources := wi_sources it\<rparr>"

definition new_task :: "nat \<Rightarrow> string \<Rightarrow> nat \<Rightarrow> witem \<Rightarrow> task_row" where
  "new_task tid sid user it = \<lparr>wi_ref = wi_ref it, wi_title = wi_title it, wi_state = Draft, wi_repo = wi_repo it,
     wi_intent = wi_intent it, wi_criteria = wi_criteria it, wi_done_when = wi_done_when it, wi_sources = wi_sources it,
     wi_locked = [], wi_id = None, tk_id = tid, tk_session = sid, tk_user = user, tk_merged_into = None, tk_prompt_md = None,
     tk_prompt_sha256 = None, tk_approved_by = None, tk_approved_at = None, tk_done_at = None, tk_merged_pr_url = None, tk_version = 1\<rparr>"

definition session_tasks :: "string \<Rightarrow> work_db \<Rightarrow> task_row list" where
  "session_tasks sid db = filter (\<lambda>t. tk_session t = sid) (wd_items db)"

definition store_task :: "(string \<Rightarrow> nat) \<Rightarrow> string \<Rightarrow> nat \<Rightarrow> task_row list \<Rightarrow> witem list \<Rightarrow> change \<Rightarrow> work_db \<Rightarrow> work_db" where
  "store_task new_id sid user current items ch db = (case find_ref items (cg_ref ch) of
     None \<Rightarrow> db
   | Some it \<Rightarrow> (case find (\<lambda>t. wi_ref t = cg_ref ch) current of
       None \<Rightarrow> task_log_event (new_id (cg_ref ch)) (Tk_Proposed (wi_title it)) None
                 (db\<lparr>wd_items := wd_items db @ [new_task (new_id (cg_ref ch)) sid user it]\<rparr>)
     | Some t \<Rightarrow> task_log_event (tk_id t) (Tk_Llm_Updated (cg_fields ch)) None
                 (put_task ((write_task it t)\<lparr>tk_version := tk_version t + 1\<rparr>) db)))"

definition tables_unique :: "work_db \<Rightarrow> bool" where
  "tables_unique db \<longleftrightarrow> distinct (map tk_id (wd_items db)) \<and> distinct (map (\<lambda>t. (tk_session t, wi_ref t)) (wd_items db))"

definition ideas_store ::
  "(string \<Rightarrow> nat) \<Rightarrow> string \<Rightarrow> nat \<Rightarrow> string list \<Rightarrow> upsert list \<Rightarrow> (string \<Rightarrow> wsource option) \<Rightarrow> work_db \<Rightarrow> work_db" where
  "ideas_store new_id sid user allow delta line_refs db =
     (let current = session_tasks sid db;
          m = ideas_apply allow (map witem.truncate current) delta line_refs;
          db' = fold (store_task new_id sid user current (fst m)) (snd m) db
      in if tables_unique db' then db' else db)"

section \<open>What Kubernetes says of a run\<close>

text \<open>
  \<open>interpret\<close>. A termination message comes with what \<open>json.loads\<close> reads from it; a \<open>pr_number\<close> that \<open>int\<close> refuses makes
  the whole check raise. Absent texts are empty where the code does not tell them apart.
\<close>

datatype pr_num = Pr_None | Pr_Num int | Pr_Bad

record push_report =
  pr_outcome :: string
  pr_url :: "string option"
  pr_number :: pr_num
  pr_branch :: "string option"
  pr_summary :: "string option"
  pr_error :: "string option"
  pr_questions :: "string option"

datatype parsed = Unparsable | Not_A_Dict | Report push_report

record terminated =
  tm_exit :: nat
  tm_message :: string
  tm_reason :: string
  tm_report :: parsed

record kcontainer =
  kc_name :: string
  kc_terminated :: "terminated option"

record kpod =
  kp_init :: "kcontainer list"
  kp_main :: "kcontainer list"

record kube_job =
  kj_conditions :: "(string \<times> string \<times> string) list"
  kj_failed :: nat
  kj_succeeded :: nat

record run_result =
  rs_done :: bool
  rs_outcome :: "string option"
  rs_pr_url :: "string option"
  rs_pr_number :: "int option"
  rs_branch :: "string option"
  rs_summary :: "string option"
  rs_error :: "string option"
  rs_questions :: "string option"

definition plain_result :: "string \<Rightarrow> string \<Rightarrow> run_result" where
  "plain_result outcome err = \<lparr>rs_done = True, rs_outcome = Some outcome, rs_pr_url = None, rs_pr_number = None, rs_branch = None,
     rs_summary = None, rs_error = Some err, rs_questions = None\<rparr>"

definition job_condition :: "kube_job \<Rightarrow> string \<Rightarrow> string option" where
  "job_condition job kind =
     map_option (\<lambda>c. snd (snd c)) (find (\<lambda>c. fst c = kind \<and> fst (snd c) = ''True'') (kj_conditions job))"

definition pod_statuses :: "kpod list \<Rightarrow> kcontainer list" where
  "pod_statuses pods = concat (map (\<lambda>p. kp_init p @ kp_main p) pods)"

definition read_report :: "terminated \<Rightarrow> unit + run_result" where
  "read_report tm = (case tm_report tm of
     Unparsable \<Rightarrow> Inr (plain_result ''failed'' ''the push step's report is unreadable'')
   | Not_A_Dict \<Rightarrow> Inr (plain_result ''failed'' ''the push step's report is unreadable'')
   | Report r \<Rightarrow>
       if pr_outcome r = [] then Inr (plain_result ''failed'' ''the push step's report is unreadable'')
       else if pr_number r = Pr_Bad then Inl ()
       else Inr \<lparr>rs_done = True, rs_outcome = Some (pr_outcome r), rs_pr_url = pr_url r,
              rs_pr_number = (case pr_number r of Pr_Num n \<Rightarrow> Some n | _ \<Rightarrow> None), rs_branch = pr_branch r,
              rs_summary = pr_summary r, rs_error = pr_error r, rs_questions = pr_questions r\<rparr>)"

fun push_report_of :: "kcontainer list \<Rightarrow> terminated option" where
  "push_report_of [] = None"
| "push_report_of (s # ss) = (if kc_name s \<noteq> ''push'' \<or> kc_terminated s = None then push_report_of ss else kc_terminated s)"

fun failed_step :: "kcontainer list \<Rightarrow> string option" where
  "failed_step [] = None"
| "failed_step (s # ss) = (case kc_terminated s of
     None \<Rightarrow> failed_step ss
   | Some tm \<Rightarrow>
       if tm_exit tm = 0 then failed_step ss
       else (let msg = take 500 (strip (tm_message tm))
             in Some (kc_name s @ '' exited '' @ dec_str (tm_exit tm) @ '' ('' @ tm_reason tm @ '')'' @
                      (if msg = [] then [] else '': '' @ msg))))"

definition interpret_job :: "kube_job option \<Rightarrow> kpod list \<Rightarrow> unit + run_result" where
  "interpret_job job pods = (case job of
     None \<Rightarrow> Inr (plain_result ''failed'' ''the Job is gone'')
   | Some j \<Rightarrow>
       (let ss = pod_statuses pods; bad = job_condition j ''Failed'' in
        if bad = Some ''DeadlineExceeded'' then Inr (plain_result ''timed_out'' ''the run hit its deadline'')
        else case push_report_of ss of
          Some tm \<Rightarrow> read_report tm
        | None \<Rightarrow>
            if bad \<noteq> None \<or> kj_failed j \<noteq> 0
            then Inr (plain_result ''failed'' (case failed_step ss of Some e \<Rightarrow> e | None \<Rightarrow> text_or bad ''failed''))
            else if kj_succeeded j \<noteq> 0 then Inr (plain_result ''failed'' ''the push step left no report'')
            else Inr \<lparr>rs_done = False, rs_outcome = None, rs_pr_url = None, rs_pr_number = None, rs_branch = None,
                   rs_summary = None, rs_error = None, rs_questions = None\<rparr>))"

section \<open>One run\<close>

fun run_word :: "dispatch_state \<Rightarrow> string" where
  "run_word Queued = ''queued''"
| "run_word Started = ''running''"
| "run_word Cancelled = ''cancelled''"
| "run_word (Ended s) = s"

definition END_STATES :: "string list" where
  "END_STATES = [''pr_opened'', ''no_changes'', ''failed'', ''rate_limited'', ''timed_out'', ''needs_input'']"

text \<open>What the column takes: a word outside \<open>DISPATCH_STATES\<close> fails its check constraint, so the transaction is lost.\<close>

definition run_state_of :: "string \<Rightarrow> dispatch_state option" where
  "run_state_of s = (if s = ''queued'' then Some Queued else if s = ''running'' then Some Started
     else if s = ''cancelled'' then Some Cancelled else if s \<in> set END_STATES then Some (Ended s) else None)"

definition ended_row :: "int \<Rightarrow> dispatch_state \<Rightarrow> run_result \<Rightarrow> run_row \<Rightarrow> run_row" where
  "ended_row now st res r = r\<lparr>rn_state := st, rn_pr_url := rs_pr_url res, rn_pr_number := rs_pr_number res, rn_summary := rs_summary res,
     rn_error := rs_error res, rn_questions := rs_questions res, rn_finished_at := Some now,
     rn_branch := text_or (rs_branch res) (rn_branch r)\<rparr>"

definition end_run :: "int \<Rightarrow> run_row \<Rightarrow> run_result \<Rightarrow> work_db \<Rightarrow> work_db option" where
  "end_run now r res db = (case run_state_of (text_or (rs_outcome res) ''failed'') of
     None \<Rightarrow> None
   | Some st \<Rightarrow> Some (task_log_event (rn_item r) (Tk_Dispatch_Finished (rn_id r) (run_word st)) None (put_run (ended_row now st res r) db)))"

definition ended_because :: "string \<Rightarrow> string" where
  "ended_because s = (case map_of
     [(''pr_opened'', ''it opened a draft PR''), (''needs_input'', ''it needs the owner's input''),
      (''no_changes'', ''it made no changes''), (''failed'', ''it failed''), (''rate_limited'', ''it hit the Claude usage limit''),
      (''timed_out'', ''it timed out''), (''cancelled'', ''the owner cancelled it'')] s of None \<Rightarrow> s | Some t \<Rightarrow> t)"

definition quoted :: "string \<Rightarrow> string" where
  "quoted t = join [newline] (map (\<lambda>l. rstrip (''> '' @ l)) (splitlines (strip t)))"

definition reported :: "string \<Rightarrow> string option \<Rightarrow> string list" where
  "reported head t = (if text_or t [] = [] then [] else [head @ [newline, newline] @ quoted (text_or t [])])"

definition dec_int :: "int \<Rightarrow> string" where
  "dec_int n = (if n < 0 then ''-'' else []) @ dec_str (nat \<bar>n\<bar>)"

definition follow_up_prompt :: "string \<Rightarrow> run_row \<Rightarrow> run_row option \<Rightarrow> string" where
  "follow_up_prompt prompt r prev =
     (let pr = (case prev of None \<Rightarrow> [] | Some p \<Rightarrow>
                 if rn_pr_number p \<in> {None, Some 0} then [] else '', which has draft PR #'' @ dec_int (the (rn_pr_number p)));
          parts = [rstrip prompt, ''## Follow-up run (attempt '' @ dec_str (rn_attempt r) @ '')'',
            ''This task ran before. This run continues on the branch `'' @ rn_branch r @ ''`'' @ pr @
            '': commits from earlier runs are already checked out, so build on them instead of starting over.''];
          told = (case prev of None \<Rightarrow> [] | Some p \<Rightarrow>
            [''The previous run ended because '' @ ended_because (run_word (rn_state p)) @ ''.''] @
            reported ''It reported:'' (rn_summary p) @ reported ''It asked:'' (rn_questions p) @ reported ''Its error:'' (rn_error p));
          last = [''### The owner's guidance for this run'',
            ''Follow it. Where it conflicts with the task above, the guidance wins.'', strip (text_or (rn_guidance r) [])]
      in join [newline, newline] (parts @ told @ last) @ [newline])"

definition run_of :: "work_db \<Rightarrow> nat \<Rightarrow> run_row option" where
  "run_of db rid = find (\<lambda>r. rn_id r = rid) (wd_runs db)"

text \<open>\<open>job_name\<close>: the first 8 of the 32 hexadecimal digits of the run's id.\<close>

definition job_name :: "nat \<Rightarrow> string" where
  "job_name rid = ''jarvis-dispatch-'' @ map (\<lambda>k. hex_digit (rid div 16 ^ (24 + k) mod 16)) (rev [0..<8])"

text \<open>
  What another service answers: a value, an error the code catches (\<open>KubeError\<close>, \<open>TokenError\<close>) with its text, or anything
  else: an exception of the HTTP client such as a timeout, or the end of the process. Then the transaction is rolled
  back, whatever the service did.
\<close>

datatype 'a answer = Answer 'a | Error_Answer string | No_Answer

record launch =
  la_run :: run_row
  la_title :: string
  la_prompt :: string
  la_text :: string

record job_call =
  jc_run :: nat
  jc_name :: string
  jc_repo :: string
  jc_branch :: string
  jc_prompt :: string

datatype start_outcome = St_Return | St_Raise | St_Ended work_db | St_Launch launch

text \<open>\<open>_start\<close> up to its first call: the row is locked and still queued, the item must carry the prompt it was queued with.\<close>

definition start_read :: "work_config \<Rightarrow> int \<Rightarrow> nat \<Rightarrow> work_db \<Rightarrow> start_outcome" where
  "start_read cfg now rid db = (case run_of db rid of
     None \<Rightarrow> St_Return
   | Some r \<Rightarrow>
       if rn_state r \<noteq> Queued then St_Return
       else (case task_of db (rn_item r) of
         None \<Rightarrow> St_Raise
       | Some t \<Rightarrow>
           (let p = text_or (tk_prompt_md t) [] in
            if wi_state t \<noteq> WorkItems.Approved \<or> p = [] \<or> wc_sha256 cfg p \<noteq> rn_prompt_sha256 r
            then (case end_run now r (plain_result ''failed'' ''the work item changed after it was queued'') db of
                None \<Rightarrow> St_Raise | Some db' \<Rightarrow> St_Ended db')
            else St_Launch \<lparr>la_run = r, la_title = wi_title t, la_prompt = p,
                   la_text = (if rn_guidance r = None then p
                              else follow_up_prompt p r (case rn_continues r of None \<Rightarrow> None | Some i \<Rightarrow> run_of db i))\<rparr>)))"

text \<open>
  The rest of \<open>_start\<close>: mint, Secret, Job, the Secret's owner, and the row. \<open>None\<close>: an exception leaves the run queued. The second
  part is what was asked of Kubernetes: the Jobs to create, and whether the Secret is deleted again.
\<close>

record launch_replies =
  lr_token :: "unit answer"
  lr_secret :: "unit answer"
  lr_job :: "unit answer"
  lr_owner :: "unit answer"
  lr_cleanup :: "unit answer"

definition launch_calls :: "launch \<Rightarrow> launch_replies \<Rightarrow> job_call list" where
  "launch_calls la re = (if lr_token re = Answer () \<and> lr_secret re = Answer ()
     then [\<lparr>jc_run = rn_id (la_run la), jc_name = job_name (rn_id (la_run la)), jc_repo = rn_repo (la_run la),
       jc_branch = rn_branch (la_run la), jc_prompt = la_text la\<rparr>] else [])"

definition kube_failed :: "int \<Rightarrow> launch \<Rightarrow> launch_replies \<Rightarrow> string \<Rightarrow> work_db \<Rightarrow> work_db option" where
  "kube_failed now la re e db =
     (if lr_cleanup re = No_Answer then None else end_run now (la_run la) (plain_result ''failed'' e) db)"

definition started_row :: "int \<Rightarrow> run_row \<Rightarrow> run_row" where
  "started_row now r = r\<lparr>rn_state := Started, rn_job_name := Some (job_name (rn_id r)), rn_started_at := Some now,
     rn_token_refreshed_at := Some now\<rparr>"

definition launch_end :: "int \<Rightarrow> launch \<Rightarrow> launch_replies \<Rightarrow> work_db \<Rightarrow> work_db option" where
  "launch_end now la re db = (case lr_token re of
     No_Answer \<Rightarrow> None
   | Error_Answer e \<Rightarrow> end_run now (la_run la) (plain_result ''failed'' (''no GitHub token: '' @ e)) db
   | Answer _ \<Rightarrow> (case lr_secret re of
       No_Answer \<Rightarrow> None
     | Error_Answer e \<Rightarrow> kube_failed now la re e db
     | Answer _ \<Rightarrow> (case lr_job re of
         No_Answer \<Rightarrow> None
       | Error_Answer e \<Rightarrow> kube_failed now la re e db
       | Answer _ \<Rightarrow> (case lr_owner re of
           No_Answer \<Rightarrow> None
         | Error_Answer e \<Rightarrow> kube_failed now la re e db
         | Answer _ \<Rightarrow> Some (task_log_event (rn_item (la_run la)) (Tk_Dispatch_Started (rn_id (la_run la)) (job_name (rn_id (la_run la))))
                          None (put_run (started_row now (la_run la)) db))))))"

definition cancel_run :: "int \<Rightarrow> nat \<Rightarrow> actor \<Rightarrow> unit answer \<Rightarrow> work_db \<Rightarrow> (work_fault + unit) \<times> work_db" where
  "cancel_run now tid actor deleted db = (case own_task db tid (ac_user actor) of
     Inl _ \<Rightarrow> (Inl (Work_Error 404 ''work item not found''), db)
   | Inr t \<Rightarrow> (case filter run_active (runs_of tid db) of
       [] \<Rightarrow> (Inl (Work_Error 409 ''nothing to cancel''), db)
     | [r] \<Rightarrow>
         if text_or (rn_job_name r) [] \<noteq> [] \<and> deleted \<noteq> Answer () then (Inl (Work_Error 500 ''KubeError''), db)
         else (Inr (), task_log_event tid (Tk_Dispatch_Cancelled (rn_id r) (rn_job_name r)) (Some actor)
                         (put_run (r\<lparr>rn_state := Cancelled, rn_finished_at := Some now\<rparr>) db))
     | _ \<Rightarrow> (Inl (Work_Error 500 ''MultipleResultsFound''), db)))"

text \<open>
  \<open>_refresh\<close> and \<open>_check\<close>, on the row the tick read when it began; \<open>None\<close> is an exception, which ends the tick. What is written goes
  to the row as it is by then.
\<close>

definition refresh_run :: "int \<Rightarrow> unit answer \<Rightarrow> unit answer \<Rightarrow> run_row \<Rightarrow> work_db \<Rightarrow> work_db option" where
  "refresh_run now token patched r db =
     (if (case rn_token_refreshed_at r of None \<Rightarrow> False | Some s \<Rightarrow> now - s < TOKEN_REFRESH_S) then Some db
      else if rn_job_name r = None then None
      else if token = No_Answer then None
      else if token \<noteq> Answer () then Some db
      else if patched = No_Answer then None
      else if patched \<noteq> Answer () then Some db
      else (case run_of db (rn_id r) of
          None \<Rightarrow> Some db
        | Some fresh \<Rightarrow> Some (put_run (fresh\<lparr>rn_token_refreshed_at := Some now\<rparr>) db)))"

record check_replies =
  ck_job :: "kube_job option answer"
  ck_pods :: "kpod list answer"
  ck_token :: "unit answer"
  ck_patched :: "unit answer"

definition check_run :: "int \<Rightarrow> check_replies \<Rightarrow> run_row \<Rightarrow> work_db \<Rightarrow> work_db option" where
  "check_run now re r db =
     (if rn_job_name r = None then None else case ck_job re of
       No_Answer \<Rightarrow> None
     | Error_Answer _ \<Rightarrow> Some db
     | Answer job \<Rightarrow> (case ck_pods re of
         No_Answer \<Rightarrow> None
       | Error_Answer _ \<Rightarrow> Some db
       | Answer pods \<Rightarrow> (case interpret_job job pods of
           Inl _ \<Rightarrow> None
         | Inr res \<Rightarrow>
             if \<not> rs_done res then refresh_run now (ck_token re) (ck_patched re) r db
             else (case run_of db (rn_id r) of
                 None \<Rightarrow> Some db
               | Some fresh \<Rightarrow> if rn_state fresh \<noteq> Started then Some db else end_run now fresh res db))))"

text \<open>\<open>tick\<close>: the running rows it checks first, and then the queued ones it may start, oldest first.\<close>

definition running_rows :: "work_db \<Rightarrow> run_row list" where
  "running_rows db = filter (\<lambda>r. rn_state r = Started) (wd_runs db)"

definition start_plan :: "work_config \<Rightarrow> work_db \<Rightarrow> nat list" where
  "start_plan cfg db = take (wc_max_concurrent cfg - length (running_rows db))
     (map rn_id (filter (\<lambda>r. rn_state r = Queued) (wd_runs db)))"

section \<open>Around the runs\<close>

definition session_url :: "work_config \<Rightarrow> string \<Rightarrow> string" where
  "session_url cfg sid = (let base = rstrip_of ''/'' (wc_public_url cfg) in if base = [] then [] else base @ ''/sessions/'' @ sid)"

text \<open>\<open>_tell\<close>: title, text, priority and link of the owner's notification.\<close>

definition tell_message :: "work_config \<Rightarrow> run_row \<Rightarrow> task_row \<Rightarrow> string option \<Rightarrow> string \<times> string \<times> nat \<times> string option" where
  "tell_message cfg r t sid =
     (let st = run_word (rn_state r); input = (st = ''needs_input'');
          title = (case map_of [(''pr_opened'', ''Jarvis: draft PR ready''), (''needs_input'', ''Jarvis: run needs your input''),
            (''no_changes'', ''Jarvis: run made no changes''), (''rate_limited'', ''Jarvis: run hit the Claude usage limit''),
            (''timed_out'', ''Jarvis: run timed out'')] st of None \<Rightarrow> ''Jarvis: run failed'' | Some x \<Rightarrow> x);
          short = text_or (rn_summary r) (text_or (rn_error r) []);
          detail = (if input then text_or (rn_questions r) short else short);
          page = text_or (rn_pr_url r) (case sid of None \<Rightarrow> [] | Some s \<Rightarrow> session_url cfg s);
          base = rstrip_of ''/'' (wc_public_url cfg);
          url = (if input \<and> base \<noteq> [] then Some (base @ ''/work-items'') else if page = [] then None else Some page)
      in (title, ''**'' @ wi_title t @ ''** ('' @ rn_repo r @ '')'' @ (if detail = [] then [] else [newline, newline] @ strip detail),
          (if st = ''pr_opened'' then 5 else 7), url))"

definition latest_runs :: "nat list \<Rightarrow> work_db \<Rightarrow> nat \<Rightarrow> run_row option" where
  "latest_runs ids db = fold (\<lambda>r m. m(rn_item r \<mapsto> r)) (sort_key rn_attempt (filter (\<lambda>r. rn_item r \<in> set ids) (wd_runs db))) Map.empty"

definition node_selector :: "string \<Rightarrow> (string \<times> string) list" where
  "node_selector text = fold (\<lambda>p. AList.update (strip (takeWhile (\<lambda>c. c \<noteq> CHR ''='') p)) (strip (tl (dropWhile (\<lambda>c. c \<noteq> CHR ''='') p))))
     (filter (\<lambda>p. CHR ''='' \<in> set p) (split_on (CHR '','') text)) []"

text \<open>\<open>prompt\<close>: the frozen prompt of an approved item, a preview otherwise.\<close>

definition shown_prompt :: "(task_row \<Rightarrow> string) \<Rightarrow> nat \<Rightarrow> nat \<Rightarrow> work_db \<Rightarrow> work_fault + (string \<times> bool)" where
  "shown_prompt render tid user db = (case own_task db tid user of
     Inl e \<Rightarrow> Inl e
   | Inr t \<Rightarrow> (case (wi_state t, tk_prompt_md t) of
       (WorkItems.Approved, Some p) \<Rightarrow> Inr (p, True)
     | _ \<Rightarrow> Inr (render t, False)))"

section \<open>The service at work\<close>

text \<open>
  One step is one transaction, or what lies between two of them: an order that passed the gate waits to be queued, the loop of
  runs is checking, starting or waiting for Kubernetes. \<open>ww_jobs\<close> is a ghost: every request to create a Job. While a start waits
  for its calls it holds its run's lock, but not its item's, which the owner may change meanwhile. A crash forgets what
  was not committed.
\<close>

datatype task_request =
    Ask_Edit "field_edit list" | Ask_Approve | Ask_Unapprove | Ask_Discard | Ask_Restore | Ask_Done | Ask_Reopen
  | Ask_Merge "nat list" | Ask_Copied

definition task_request_do :: "work_config \<Rightarrow> (task_row \<Rightarrow> string) \<Rightarrow> int \<Rightarrow> nat \<Rightarrow> actor \<Rightarrow> task_request \<Rightarrow> work_db \<Rightarrow> work_db" where
  "task_request_do cfg render now tid actor q db = (case q of
     Ask_Edit edits \<Rightarrow> snd (task_edit cfg tid actor edits db)
   | Ask_Approve \<Rightarrow> snd (task_approve cfg render now tid actor db)
   | Ask_Unapprove \<Rightarrow> snd (task_unapprove tid actor db)
   | Ask_Discard \<Rightarrow> snd (task_discard tid actor db)
   | Ask_Restore \<Rightarrow> snd (task_restore tid actor db)
   | Ask_Done \<Rightarrow> snd (task_done now tid actor db)
   | Ask_Reopen \<Rightarrow> snd (task_reopen tid actor db)
   | Ask_Merge others \<Rightarrow> snd (task_merge tid others actor db)
   | Ask_Copied \<Rightarrow> snd (task_copied tid actor db))"

datatype loop_phase = Resting | Checking "run_row list" | Starting "nat list" | Launching launch "nat list"

record work_world =
  ww_db :: work_db
  ww_orders :: "dispatch_order list"
  ww_phase :: loop_phase
  ww_jobs :: "job_call list"

definition run_locked :: "work_world \<Rightarrow> nat \<Rightarrow> bool" where
  "run_locked w tid = (case ww_phase w of Launching la _ \<Rightarrow> rn_item (la_run la) = tid | _ \<Rightarrow> False)"

definition or_rest :: "work_db \<Rightarrow> loop_phase \<Rightarrow> work_db option \<Rightarrow> work_world \<Rightarrow> work_world" where
  "or_rest old next res w = (case res of None \<Rightarrow> w\<lparr>ww_db := old, ww_phase := Resting\<rparr> | Some db \<Rightarrow> w\<lparr>ww_db := db, ww_phase := next\<rparr>)"

definition gate_world :: "work_config \<Rightarrow> nat \<Rightarrow> actor \<Rightarrow> string option \<Rightarrow> work_world \<Rightarrow> work_world" where
  "gate_world cfg tid actor guidance w = (case dispatch_gate cfg tid actor guidance (ww_db w) of
     (Inl _, db) \<Rightarrow> w\<lparr>ww_db := db\<rparr>
   | (Inr x, db) \<Rightarrow> w\<lparr>ww_db := db, ww_orders := ww_orders w @ [x]\<rparr>)"

definition queue_world :: "nat \<Rightarrow> nat \<Rightarrow> work_world \<Rightarrow> work_world" where
  "queue_world new_id i w =
     (let x = ww_orders w ! i; rest = take i (ww_orders w) @ drop (Suc i) (ww_orders w)
      in case queue_run new_id x (ww_db w) of
        (Inr _, db) \<Rightarrow> w\<lparr>ww_db := db, ww_orders := rest\<rparr>
      | (Inl (Work_Error n reason), db) \<Rightarrow> w\<lparr>ww_db := (if n = 500 then db else queue_refused x reason db), ww_orders := rest\<rparr>)"

definition start_world :: "work_config \<Rightarrow> int \<Rightarrow> nat \<Rightarrow> nat list \<Rightarrow> work_world \<Rightarrow> work_world" where
  "start_world cfg now rid rest w = (case start_read cfg now rid (ww_db w) of
     St_Return \<Rightarrow> w\<lparr>ww_phase := Starting rest\<rparr>
   | St_Raise \<Rightarrow> w\<lparr>ww_phase := Resting\<rparr>
   | St_Ended db \<Rightarrow> w\<lparr>ww_db := db, ww_phase := Starting rest\<rparr>
   | St_Launch la \<Rightarrow> w\<lparr>ww_phase := Launching la rest\<rparr>)"

definition launch_world :: "int \<Rightarrow> launch_replies \<Rightarrow> launch \<Rightarrow> nat list \<Rightarrow> work_world \<Rightarrow> work_world" where
  "launch_world now re la rest w =
     or_rest (ww_db w) (Starting rest) (launch_end now la re (ww_db w)) (w\<lparr>ww_jobs := ww_jobs w @ launch_calls la re\<rparr>)"

inductive work_step :: "work_config \<Rightarrow> work_world \<Rightarrow> work_world \<Rightarrow> bool" for cfg where
  Review: "work_step cfg w (w\<lparr>ww_db := task_request_do cfg render now tid actor q (ww_db w)\<rparr>)"
| Pr_Merged: "work_step cfg w (w\<lparr>ww_db := task_pr_merged now tid url (ww_db w)\<rparr>)"
| Ideas: "work_step cfg w (w\<lparr>ww_db := ideas_store new_id sid user (wc_allowlist cfg) delta line_refs (ww_db w)\<rparr>)"
| Gate: "work_step cfg w (gate_world cfg tid actor guidance w)"
| Queue: "i < length (ww_orders w) \<Longrightarrow> new_id \<notin> rn_id ` set (wd_runs (ww_db w)) \<Longrightarrow> work_step cfg w (queue_world new_id i w)"
| Cancel: "\<not> run_locked w tid \<Longrightarrow> work_step cfg w (w\<lparr>ww_db := snd (cancel_run now tid actor deleted (ww_db w))\<rparr>)"
| Tick: "ww_phase w = Resting \<Longrightarrow> work_step cfg w (w\<lparr>ww_phase := Checking (running_rows (ww_db w))\<rparr>)"
| Check: "ww_phase w = Checking (r # rs) \<Longrightarrow>
    work_step cfg w (or_rest (ww_db w) (Checking rs) (check_run now re r (ww_db w)) w)"
| Plan: "ww_phase w = Checking [] \<Longrightarrow> work_step cfg w (w\<lparr>ww_phase := Starting (start_plan cfg (ww_db w))\<rparr>)"
| Start: "ww_phase w = Starting (rid # rest) \<Longrightarrow> work_step cfg w (start_world cfg now rid rest w)"
| Launch: "ww_phase w = Launching la rest \<Longrightarrow> work_step cfg w (launch_world now re la rest w)"
| Rest: "ww_phase w = Starting [] \<Longrightarrow> work_step cfg w (w\<lparr>ww_phase := Resting\<rparr>)"
| Crash: "work_step cfg w (w\<lparr>ww_orders := [], ww_phase := Resting\<rparr>)"

abbreviation work_steps :: "work_config \<Rightarrow> work_world \<Rightarrow> work_world \<Rightarrow> bool" where
  "work_steps cfg \<equiv> (work_step cfg)\<^sup>*\<^sup>*"

definition no_work :: work_world where
  "no_work = \<lparr>ww_db = \<lparr>wd_items = [], wd_runs = [], wd_log = []\<rparr>, ww_orders = [], ww_phase = Resting, ww_jobs = []\<rparr>"

section \<open>What stays true of the items\<close>

definition web_entry :: "nat \<Rightarrow> nat \<Rightarrow> task_event \<Rightarrow> task_log" where
  "web_entry tid user e = \<lparr>tl_item = tid, tl_actor = Some \<lparr>ac_user = user, ac_kind = Web\<rparr>, tl_event = e\<rparr>"

text \<open>A frozen prompt is one its owner approved at the dashboard, with an allowlisted repository; an approved item has one.\<close>

definition task_sound :: "work_config \<Rightarrow> task_log set \<Rightarrow> task_row \<Rightarrow> bool" where
  "task_sound cfg L t \<longleftrightarrow> (case tk_prompt_md t of
     None \<Rightarrow> wi_state t \<noteq> WorkItems.Approved
   | Some p \<Rightarrow> p \<noteq> [] \<longrightarrow> wi_state t \<in> {WorkItems.Approved, WorkItems.Done} \<and> tk_prompt_sha256 t = Some (wc_sha256 cfg p) \<and>
       tk_approved_by t = Some (tk_user t) \<and> (\<exists>r \<in> set (wc_allowlist cfg). r \<noteq> [] \<and> wi_repo t = Some r \<and>
         web_entry (tk_id t) (tk_user t) (Tk_Approved (Some r) p (wc_sha256 cfg p)) \<in> L))"

definition items_ok :: "work_config \<Rightarrow> work_db \<Rightarrow> bool" where
  "items_ok cfg db \<longleftrightarrow> tables_unique db \<and> (\<forall>t \<in> set (wd_items db). task_sound cfg (set (wd_log db)) t)"

definition same_task :: "task_row \<Rightarrow> task_row \<Rightarrow> bool" where
  "same_task t t' \<longleftrightarrow> tk_id t' = tk_id t \<and> tk_user t' = tk_user t \<and> tk_session t' = tk_session t \<and> wi_ref t' = wi_ref t"

text \<open>A step of the items: they stay sound and none is lost, the log grows, the runs are as they were.\<close>

definition items_move :: "work_config \<Rightarrow> work_db \<Rightarrow> work_db \<Rightarrow> bool" where
  "items_move cfg a b \<longleftrightarrow> items_ok cfg b \<and> wd_runs b = wd_runs a \<and> set (wd_log a) \<subseteq> set (wd_log b) \<and>
     (\<forall>t \<in> set (wd_items a). \<exists>t' \<in> set (wd_items b). same_task t t')"

lemma items_move_refl: "items_ok cfg a \<Longrightarrow> items_move cfg a a"
  by (auto simp: items_move_def same_task_def)

lemma items_move_trans:
  assumes "items_move cfg a b" "items_move cfg b c"
  shows "items_move cfg a c"
proof -
  have "\<exists>t'' \<in> set (wd_items c). same_task t t''" if "t \<in> set (wd_items a)" for t
  proof -
    obtain t' where t': "t' \<in> set (wd_items b)" "same_task t t'" using assms(1) \<open>t \<in> set (wd_items a)\<close> by (auto simp: items_move_def)
    obtain t'' where "t'' \<in> set (wd_items c)" "same_task t' t''" using assms(2) t'(1) by (auto simp: items_move_def)
    with t'(2) show ?thesis by (auto simp: same_task_def)
  qed
  moreover have "set (wd_log a) \<subseteq> set (wd_log c)" "wd_runs c = wd_runs a" "items_ok cfg c"
    using assms by (auto simp: items_move_def)
  ultimately show ?thesis by (simp add: items_move_def)
qed

lemma items_move_ok: "items_move cfg a b \<Longrightarrow> items_ok cfg b" by (simp add: items_move_def)

lemma task_sound_mono: "task_sound cfg L t \<Longrightarrow> L \<subseteq> L' \<Longrightarrow> task_sound cfg L' t"
  by (auto simp: task_sound_def split: option.splits)

lemma task_log_sel [simp]:
  "wd_items (task_log_event tid e a db) = wd_items db" "wd_runs (task_log_event tid e a db) = wd_runs db"
  "wd_log (task_log_event tid e a db) = wd_log db @ [\<lparr>tl_item = tid, tl_actor = a, tl_event = e\<rparr>]"
  by (simp_all add: task_log_event_def)

lemma put_task_sel [simp]:
  "wd_items (put_task t db) = map (\<lambda>x. if tk_id x = tk_id t then t else x) (wd_items db)"
  "wd_runs (put_task t db) = wd_runs db" "wd_log (put_task t db) = wd_log db"
  by (simp_all add: put_task_def)

lemma put_run_sel [simp]:
  "wd_runs (put_run r db) = map (\<lambda>x. if rn_id x = rn_id r then r else x) (wd_runs db)"
  "wd_items (put_run r db) = wd_items db" "wd_log (put_run r db) = wd_log db"
  by (simp_all add: put_run_def)

lemma log_move: "items_ok cfg db \<Longrightarrow> items_move cfg db (task_log_event tid e a db)"
  by (auto simp: items_move_def items_ok_def tables_unique_def same_task_def elim: task_sound_mono)

lemma logs_move: "items_ok cfg db \<Longrightarrow> items_move cfg db (fold (\<lambda>e. task_log_event tid e a) es db)"
proof (induction es arbitrary: db)
  case (Cons e es)
  have m: "items_move cfg db (task_log_event tid e a db)" using Cons.prems by (rule log_move)
  show ?case using items_move_trans [OF m Cons.IH [OF items_move_ok [OF m]]] by simp
qed (simp add: items_move_refl)

lemma logs_sel [simp]:
  "wd_items (fold (\<lambda>e. task_log_event tid e a) es db) = wd_items db"
  "wd_log (fold (\<lambda>e. task_log_event tid e a) es db) = wd_log db @ map (\<lambda>e. \<lparr>tl_item = tid, tl_actor = a, tl_event = e\<rparr>) es"
  by (induction es arbitrary: db) simp_all

lemma log_put: "task_log_event tid e a (put_task t db) = put_task t (task_log_event tid e a db)"
  by (simp add: task_log_event_def put_task_def)

lemma logs_put: "fold (\<lambda>e. task_log_event tid e a) es (put_task t db) = put_task t (fold (\<lambda>e. task_log_event tid e a) es db)"
  by (induction es arbitrary: db) (simp_all add: log_put)

lemma task_only:
  assumes "tables_unique db" "t \<in> set (wd_items db)" "x \<in> set (wd_items db)" "tk_id x = tk_id t"
  shows "x = t"
  using assms by (auto simp: tables_unique_def distinct_map inj_on_def)

lemma put_task_move:
  assumes "items_ok cfg db" "t \<in> set (wd_items db)" "same_task t t'" "task_sound cfg (set (wd_log db)) t'"
  shows "items_move cfg db (put_task t' db)"
proof -
  have u: "tables_unique db" using assms(1) by (simp add: items_ok_def)
  define g where "g = (\<lambda>x. if tk_id x = tk_id t' then t' else x)"
  have g: "same_task x (g x)" if "x \<in> set (wd_items db)" for x
    using task_only [OF u assms(2) that] assms(3) by (auto simp: g_def same_task_def)
  have 1: "map tk_id (map g (wd_items db)) = map tk_id (wd_items db)"
    "map (\<lambda>t. (tk_session t, wi_ref t)) (map g (wd_items db)) = map (\<lambda>t. (tk_session t, wi_ref t)) (wd_items db)"
    using g by (auto simp: same_task_def)
  have 2: "task_sound cfg (set (wd_log db)) (g x)" if "x \<in> set (wd_items db)" for x
    using assms(1,4) that by (simp add: items_ok_def g_def)
  have "tables_unique (put_task t' db)" using u 1 unfolding tables_unique_def put_task_sel g_def [symmetric] by argo
  then show ?thesis using g 2 unfolding items_move_def items_ok_def put_task_sel g_def [symmetric] by auto
qed

lemma own_taskD:
  "own_task db tid user = Inr t \<Longrightarrow> t \<in> set (wd_items db) \<and> tk_id t = tid \<and> tk_user t = user"
  by (auto simp: own_task_def task_of_def dest!: find_in split: option.splits if_splits)

lemma task_ofD: "task_of db tid = Some t \<Longrightarrow> t \<in> set (wd_items db) \<and> tk_id t = tid"
  by (auto simp: task_of_def dest!: find_in)

lemma task_sound_version [simp]: "task_sound cfg L (t\<lparr>tk_version := v\<rparr>) = task_sound cfg L t"
  by (cases "tk_prompt_md t") (simp_all add: task_sound_def)

lemma task_change_move:
  assumes "items_ok cfg db"
    "\<And>t t' es. f t = Inr (t', es) \<Longrightarrow> es \<noteq> [] \<Longrightarrow> tk_user t = ac_user actor \<Longrightarrow> task_sound cfg (set (wd_log db)) t \<Longrightarrow>
       same_task t t' \<and> task_sound cfg (set (wd_log db) \<union> (\<lambda>e. \<lparr>tl_item = tk_id t, tl_actor = Some actor, tl_event = e\<rparr>) ` set es) t'"
  shows "items_move cfg db (snd (task_change db tid actor f))"
proof (cases "\<exists>t t' es. own_task db tid (ac_user actor) = Inr t \<and> f t = Inr (t', es) \<and> es \<noteq> []")
  case True
  then obtain t t' es where t: "own_task db tid (ac_user actor) = Inr t" "f t = Inr (t', es)" "es \<noteq> []" by blast
  note o = own_taskD [OF t(1)]
  define db1 where "db1 = fold (\<lambda>e. task_log_event tid e (Some actor)) es db"
  have m: "items_move cfg db db1" unfolding db1_def by (rule logs_move [OF assms(1)])
  have s: "same_task t t'" "task_sound cfg (set (wd_log db1)) t'"
    using assms(2) [OF t(2,3)] o assms(1) by (auto simp: items_ok_def db1_def image_def Un_def)
  have "items_move cfg db1 (put_task (t'\<lparr>tk_version := tk_version t' + 1\<rparr>) db1)"
    using o s by (intro put_task_move [OF items_move_ok [OF m], of t]) (auto simp: db1_def same_task_def)
  from items_move_trans [OF m this] show ?thesis
    using t by (simp add: task_change_def Let_def logs_put db1_def)
next
  case False
  then have "snd (task_change db tid actor f) = db"
    by (auto simp: task_change_def Let_def split: sum.split prod.split if_splits)
  then show ?thesis using assms(1) by (simp add: items_move_refl)
qed

lemma sound_unfrozen:
  "tk_prompt_md t \<in> {None, Some []} \<Longrightarrow> (tk_prompt_md t = None \<Longrightarrow> wi_state t \<noteq> WorkItems.Approved) \<Longrightarrow> task_sound cfg L t"
  by (auto simp: task_sound_def)

lemma sound_open: "task_sound cfg L t \<Longrightarrow> wi_state t \<notin> {WorkItems.Approved, WorkItems.Done} \<Longrightarrow> tk_prompt_md t \<in> {None, Some []}"
  by (auto simp: task_sound_def split: option.splits)

text \<open>A frozen item stays sound as long as what it was approved with stays.\<close>

lemma sound_same:
  assumes "task_sound cfg L t" "same_task t t'" "tk_prompt_md t' = tk_prompt_md t" "tk_prompt_sha256 t' = tk_prompt_sha256 t"
    "tk_approved_by t' = tk_approved_by t" "wi_repo t' = wi_repo t" "wi_state t' = wi_state t \<or> wi_state t' = WorkItems.Done"
  shows "task_sound cfg L t'"
  using assms by (auto simp: task_sound_def same_task_def split: option.splits)

lemma unfreeze_sel [simp]:
  "tk_prompt_md (unfreeze t) = None" "wi_state (unfreeze t) \<noteq> WorkItems.Approved" "same_task t (unfreeze t) = True"
  by (simp_all add: unfreeze_def same_task_def)

lemma with_locks_sel [simp]:
  "tk_prompt_md (with_locks fs t) = tk_prompt_md t" "wi_state (with_locks fs t) = wi_state t"
  "same_task x (with_locks fs t) = same_task x t" "same_task (with_locks fs t) x = same_task t x"
  by (simp_all add: with_locks_def same_task_def)

lemma apply_edit_frame:
  "apply_edit allow es t ch = Inr (t', ch') \<Longrightarrow> same_task t t' \<and> wi_state t' = wi_state t \<and> tk_prompt_md t' = tk_prompt_md t"
proof (induction allow es t ch rule: apply_edit.induct)
  case (2 allow v es t ch) then show ?case by (fastforce simp: Let_def same_task_def split: if_splits)
next
  case (3 allow v es t ch) then show ?case by (fastforce simp: Let_def same_task_def split: if_splits)
next
  case (4 allow v es t ch) then show ?case by (fastforce simp: Let_def same_task_def split: if_splits)
next
  case (5 allow v es t ch) then show ?case by (fastforce simp: Let_def same_task_def split: if_splits)
next
  case (6 allow v es t ch) then show ?case by (fastforce simp: Let_def same_task_def split: if_splits)
qed (auto simp: same_task_def)

lemma same_task_trans: "same_task a b \<Longrightarrow> same_task b c \<Longrightarrow> same_task a c"
  by (simp add: same_task_def)

lemma task_edit_move:
  assumes "items_ok cfg db"
  shows "items_move cfg db (snd (task_edit cfg tid actor edits db))"
  unfolding task_edit_def
proof (rule task_change_move [OF assms], goal_cases)
  case (1 t t' es)
  then obtain t1 ch where c: "apply_edit (wc_allowlist cfg) edits t [] = Inr (t1, ch)"
    by (auto split: if_splits sum.splits)
  note f = apply_edit_frame [OF c]
  consider "wi_state t = Draft" "t' = with_locks ch t1" | "wi_state t = WorkItems.Approved" "t' = unfreeze (with_locks ch t1)"
    using 1 c by (auto split: if_splits)
  then show ?case
  proof cases
    case d: 1
    have "tk_prompt_md t \<in> {None, Some []}" using sound_open [OF 1(4)] d(1) by simp
    then show ?thesis using d f by (auto intro!: sound_unfrozen)
  next
    case d: 2
    then show ?thesis using f same_task_trans [of t "with_locks ch t1" "unfreeze (with_locks ch t1)"]
      by (auto intro!: sound_unfrozen)
  qed
qed

lemma task_approve_move:
  assumes "items_ok cfg db"
  shows "items_move cfg db (snd (task_approve cfg render now tid actor db))"
proof (cases "ac_kind actor = Web")
  case True
  show ?thesis unfolding task_approve_def using True
  proof (simp del: not_None_eq, intro task_change_move [OF assms], goal_cases)
    case (1 t t' es)
    from 1 have p: "approval_problems t (wc_allowlist cfg) = []" "wi_state t = Draft"
      and t': "t' = t\<lparr>wi_state := WorkItems.Approved, tk_prompt_md := Some (render t), tk_prompt_sha256 := Some (wc_sha256 cfg (render t)),
          tk_approved_by := Some (ac_user actor), tk_approved_at := Some now\<rparr>"
      and es: "es = [Tk_Approved (wi_repo t) (render t) (wc_sha256 cfg (render t))]"
      by (auto simp: Let_def split: if_splits)
    obtain r where "wi_repo t = Some r" "r \<noteq> []" "r \<in> set (wc_allowlist cfg)"
      using p(1) by (auto simp: approval_problems_def split: option.splits if_splits)
    moreover have "tk_user t = ac_user actor" by (rule 1)
    then have "actor = \<lparr>ac_user = tk_user t, ac_kind = Web\<rparr>" using True by (cases actor) simp
    ultimately show ?case unfolding t' es by (simp add: task_sound_def same_task_def web_entry_def)
  qed
qed (use assms in \<open>simp add: task_approve_def items_move_refl\<close>)

lemma task_unapprove_move:
  assumes "items_ok cfg db"
  shows "items_move cfg db (snd (task_unapprove tid actor db))"
  unfolding task_unapprove_def
  by (rule task_change_move [OF assms]) (auto intro!: sound_unfrozen split: if_splits)

lemma task_discard_move:
  assumes "items_ok cfg db"
  shows "items_move cfg db (snd (task_discard tid actor db))"
  unfolding task_discard_def
  by (rule task_change_move [OF assms]) (auto intro!: sound_unfrozen simp: unfreeze_def same_task_def split: if_splits)

lemma task_restore_move:
  assumes "items_ok cfg db"
  shows "items_move cfg db (snd (task_restore tid actor db))"
  unfolding task_restore_def
proof (rule task_change_move [OF assms], goal_cases)
  case (1 t t' es)
  then have "wi_state t = Discarded" "t' = t\<lparr>wi_state := Draft\<rparr>" by (auto split: if_splits)
  then show ?case using sound_open [OF 1(4)] by (auto simp: same_task_def intro!: sound_unfrozen)
qed

lemma task_done_move:
  assumes "items_ok cfg db"
  shows "items_move cfg db (snd (task_done now tid actor db))"
  unfolding task_done_def
proof (rule task_change_move [OF assms], goal_cases)
  case (1 t t' es)
  then have t': "t' = t\<lparr>wi_state := WorkItems.Done, tk_done_at := Some now\<rparr>" by (auto split: if_splits)
  have "task_sound cfg (set (wd_log db)) t'" by (rule sound_same [OF 1(4)]) (simp_all add: t' same_task_def)
  then show ?case by (auto simp: t' same_task_def elim!: task_sound_mono)
qed

lemma task_reopen_move:
  assumes "items_ok cfg db"
  shows "items_move cfg db (snd (task_reopen tid actor db))"
  unfolding task_reopen_def
proof (rule task_change_move [OF assms], goal_cases)
  case (1 t t' es)
  then have t': "t' = t\<lparr>wi_state := (if tk_prompt_md t \<notin> {None, Some []} then WorkItems.Approved else Draft), tk_done_at := None\<rparr>"
    by (auto split: if_splits)
  have "task_sound cfg (set (wd_log db)) t'" using 1(4) by (auto simp: t' task_sound_def split: option.splits)
  then show ?case by (auto simp: t' same_task_def elim!: task_sound_mono)
qed

lemma task_copied_move:
  assumes "items_ok cfg db"
  shows "items_move cfg db (snd (task_copied tid actor db))"
  using assms by (auto simp: task_copied_def intro: log_move items_move_refl split: sum.split)

lemma task_pr_merged_move:
  assumes "items_ok cfg db"
  shows "items_move cfg db (task_pr_merged now tid url db)"
proof (cases "task_of db tid")
  case (Some t)
  define t' where "t' = t\<lparr>wi_state := WorkItems.Done, tk_done_at := Some now, tk_merged_pr_url := Some url, tk_version := tk_version t + 1\<rparr>"
  note o = task_ofD [OF Some]
  have "task_sound cfg (set (wd_log db)) t'"
    by (rule sound_same [of _ _ t]) (use assms o in \<open>simp_all add: t'_def items_ok_def same_task_def\<close>)
  then have m: "items_move cfg db (put_task t' db)"
    using o by (intro put_task_move [OF assms, of t]) (auto simp: t'_def same_task_def)
  show ?thesis using items_move_trans [OF m log_move [OF items_move_ok [OF m]]] assms
    by (simp add: task_pr_merged_def Some t'_def items_move_refl)
qed (use assms in \<open>simp add: task_pr_merged_def items_move_refl\<close>)

lemma those_map: "those xs = Some ys \<Longrightarrow> xs = map Some ys"
  by (induction xs arbitrary: ys) (auto split: option.splits)

lemma merge_away_move:
  assumes "items_ok cfg db" "r \<in> set (wd_items db)" "tk_prompt_md r \<in> {None, Some []}"
  shows "items_move cfg db (merge_away into actor r db)"
proof -
  define r' where "r' = r\<lparr>wi_state := Merged, tk_merged_into := Some into, tk_version := tk_version r + 1\<rparr>"
  have p: "items_move cfg db (put_task r' db)"
    using assms(3) by (intro put_task_move [OF assms(1,2)]) (auto simp: r'_def same_task_def intro!: sound_unfrozen)
  show ?thesis
    using items_move_trans [OF p log_move [OF items_move_ok [OF p]]] unfolding merge_away_def r'_def .
qed

lemma merge_away_keeps: "x \<in> set (wd_items db) \<Longrightarrow> tk_id x \<noteq> tk_id r \<Longrightarrow> x \<in> set (wd_items (merge_away into actor r db))"
  by (auto simp: merge_away_def image_iff)

lemma merged_away_move:
  assumes "items_ok cfg db" "distinct (map tk_id rs)"
    "\<And>r. r \<in> set rs \<Longrightarrow> r \<in> set (wd_items db) \<and> tk_prompt_md r \<in> {None, Some []}"
  shows "items_move cfg db (fold (merge_away into actor) rs db) \<and>
    (\<forall>x \<in> set (wd_items db). tk_id x \<notin> tk_id ` set rs \<longrightarrow> x \<in> set (wd_items (fold (merge_away into actor) rs db)))"
  using assms
proof (induction rs arbitrary: db)
  case (Cons r rs)
  have m: "items_move cfg db (merge_away into actor r db)"
    using Cons.prems(3) [of r] by (intro merge_away_move [OF Cons.prems(1)]) simp_all
  have "x \<in> set (wd_items (merge_away into actor r db)) \<and> tk_prompt_md x \<in> {None, Some []}" if "x \<in> set rs" for x
  proof -
    have "tk_id x \<noteq> tk_id r" using Cons.prems(2) that by (metis distinct.simps(2) imageI list.simps(9) set_map)
    moreover have "x \<in> set (wd_items db) \<and> tk_prompt_md x \<in> {None, Some []}" using Cons.prems(3) [of x] that by simp
    ultimately show ?thesis using merge_away_keeps by blast
  qed
  note ih = Cons.IH [OF items_move_ok [OF m] _ this]
  show ?case using ih Cons.prems(2) items_move_trans [OF m] merge_away_keeps [of _ db r into actor] by simp
qed (simp add: items_move_refl)

lemma task_merge_move:
  assumes "items_ok cfg db"
  shows "items_move cfg db (snd (task_merge into_id from_ids actor db))"
proof -
  define others where "others = filter (\<lambda>i. i \<noteq> into_id) (rev (remdups (rev from_ids)))"
  define f where "f = (\<lambda>i. case own_task db i (ac_user actor) of Inl _ \<Rightarrow> None | Inr t \<Rightarrow> Some t)"
  show ?thesis
  proof (cases "\<exists>t rs. those (map f (into_id # others)) = Some (t # rs) \<and> \<not> (\<exists>r \<in> set rs. tk_session r \<noteq> tk_session t) \<and>
      \<not> (\<exists>r \<in> set (t # rs). wi_state r \<noteq> Draft) \<and> others \<noteq> []")
    case True
    then obtain t rs where th: "those (map f (into_id # others)) = Some (t # rs)" and s: "\<not> (\<exists>r \<in> set rs. tk_session r \<noteq> tk_session t)"
      and d: "\<not> (\<exists>r \<in> set (t # rs). wi_state r \<noteq> Draft)" and ne: "others \<noteq> []" by blast
    have fD: "x \<in> set (wd_items db) \<and> tk_id x = i" if "f i = Some x" for i x
      using that own_taskD [of db i "ac_user actor" x] by (auto simp: f_def split: sum.splits)
    have l: "f into_id = Some t" "map f others = map Some rs" using those_map [OF th] by auto
    have "map tk_id rs = others"
    proof (rule nth_equalityI)
      show "length (map tk_id rs) = length others" using arg_cong [OF l(2), of length] by simp
      fix i assume "i < length (map tk_id rs)"
      then show "map tk_id rs ! i = others ! i"
        using arg_cong [OF l(2), of "\<lambda>z. z ! i"] arg_cong [OF l(2), of length] fD [of "others ! i" "rs ! i"] by simp
    qed
    then have ids: "distinct (map tk_id rs)" "tk_id t \<notin> tk_id ` set rs"
      using fD [OF l(1)] by (auto simp: others_def simp flip: set_map)
    have mem: "r \<in> set (wd_items db)" if "r \<in> set rs" for r
    proof -
      have "Some r \<in> set (map f others)" unfolding l(2) using that by simp
      then obtain i where "Some r = f i" unfolding set_map by (rule imageE)
      then show ?thesis using fD [of i r] by simp
    qed
    have blank: "tk_prompt_md r \<in> {None, Some []}" if "r \<in> set (t # rs)" for r
      using sound_open [of cfg "set (wd_log db)" r] assms that mem fD [OF l(1)] d by (auto simp: items_ok_def)
    define db1 where "db1 = fold (merge_away into_id actor) rs db"
    have pr: "r \<in> set (wd_items db) \<and> tk_prompt_md r \<in> {None, Some []}" if "r \<in> set rs" for r
      using mem [OF that] blank [of r] that by simp
    note mv = merged_away_move [OF assms ids(1), where into = into_id and actor = actor, folded db1_def, OF pr]
    have m: "items_move cfg db db1" using mv by (rule conjunct1)
    have tm: "t \<in> set (wd_items db1)" using conjunct2 [OF mv] fD [OF l(1)] ids(2) by blast
    have p: "items_move cfg db1 (put_task (merge_into t rs) db1)"
      using d blank [of t] by (intro put_task_move [OF items_move_ok [OF m] tm])
        (auto simp: merge_into_def Let_def same_task_def with_locks_def intro!: sound_unfrozen)
    have "snd (task_merge into_id from_ids actor db) = task_log_event into_id (Tk_Merged_From others) (Some actor) (put_task (merge_into t rs) db1)"
      using th s d ne unfolding task_merge_def Let_def others_def [symmetric] f_def [symmetric]
      by (auto simp: db1_def)
    then show ?thesis using items_move_trans [OF items_move_trans [OF m p] log_move [OF items_move_ok [OF p]]] by simp
  next
    case False
    then have "snd (task_merge into_id from_ids actor db) = db"
      unfolding task_merge_def Let_def others_def [symmetric] f_def [symmetric] by (auto split: option.splits list.splits)
    then show ?thesis using assms by (simp add: items_move_refl)
  qed
qed

subsection \<open>The ideas pass\<close>

lemma merge_inv_find:
  assumes "merge_inv allow S items0 items" "x \<in> set items0"
  obtains y where "find_ref items (wi_ref x) = Some y" "owner_ok allow x y"
proof -
  from assms(2) obtain i where i: "i < length items0" "items0 ! i = x" by (auto simp: in_set_conv_nth)
  from assms(1) have m: "distinct (map wi_ref items)" "length items0 \<le> length items"
    "list_all2 (owner_ok allow) items0 (take (length items0) items)" by (simp_all add: merge_inv_def)
  have o: "owner_ok allow x (items ! i)" using m(2,3) i by (auto simp: list_all2_conv_all_nth)
  then have r: "wi_ref (items ! i) = wi_ref x" "items ! i \<in> set items" using i m(2) by (auto simp: owner_ok_def)
  obtain y where y: "find_ref items (wi_ref x) = Some y"
    using r by (cases "find_ref items (wi_ref x)") (auto simp: find_ref_def find_None_iff)
  then have "y \<in> set items" "wi_ref y = wi_ref x" using find_in by (fastforce simp: find_ref_def)+
  then have "y = items ! i" using m(1) r by (auto simp: distinct_map inj_on_def)
  then show ?thesis using that y o by simp
qed

text \<open>What the pass writes back into a stored item keeps it sound: a draft is not frozen, and any other item gets what it had.\<close>

lemma write_task_sound:
  assumes "task_sound cfg L t" "owner_ok allow (witem.truncate t) it"
  shows "task_sound cfg L (write_task it t) \<and> same_task t (write_task it t)"
proof (cases "wi_state t = Draft")
  case True
  then show ?thesis using sound_open [OF assms(1)] by (auto simp: write_task_def same_task_def intro!: sound_unfrozen)
next
  case False
  then have "it = witem.truncate t" using assms(2) by (simp add: owner_ok_def OPEN_def witem.truncate_def)
  then show ?thesis
    by (intro conjI sound_same [OF assms(1)]) (simp_all add: write_task_def witem.truncate_def same_task_def)
qed

lemma new_task_sound: "task_sound cfg L (new_task tid sid user it)"
  by (simp add: new_task_def task_sound_def)

definition sound_db :: "work_config \<Rightarrow> work_db \<Rightarrow> bool" where
  "sound_db cfg db \<longleftrightarrow> (\<forall>t \<in> set (wd_items db). task_sound cfg (set (wd_log db)) t)"

definition db_kept :: "work_db \<Rightarrow> work_db \<Rightarrow> bool" where
  "db_kept a b \<longleftrightarrow> wd_runs b = wd_runs a \<and> set (wd_log a) \<subseteq> set (wd_log b) \<and>
     (\<forall>t \<in> set (wd_items a). \<exists>t' \<in> set (wd_items b). same_task t t')"

lemma items_move_alt: "items_move cfg a b \<longleftrightarrow> tables_unique b \<and> sound_db cfg b \<and> db_kept a b"
  by (auto simp: items_move_def items_ok_def sound_db_def db_kept_def)

lemma store_task_ids: "\<exists>ys. map tk_id (wd_items (store_task new_id sid user cur items ch db)) = map tk_id (wd_items db) @ ys"
proof -
  have "map tk_id (wd_items (put_task t db)) = map tk_id (wd_items db) @ []" for t by simp
  moreover have "tk_id (write_task it t) = tk_id t" for it t by (simp add: write_task_def)
  ultimately show ?thesis by (fastforce simp: store_task_def simp del: put_task_sel split: option.split)
qed

lemma stores_ids: "\<exists>ys. map tk_id (wd_items (fold (store_task new_id sid user cur items) chs db)) = map tk_id (wd_items db) @ ys"
proof (induction chs arbitrary: db)
  case (Cons ch chs)
  obtain ys where "map tk_id (wd_items (store_task new_id sid user cur items ch db)) = map tk_id (wd_items db) @ ys"
    using store_task_ids by blast
  moreover obtain zs where "map tk_id (wd_items (fold (store_task new_id sid user cur items) (ch # chs) db)) =
      map tk_id (wd_items (store_task new_id sid user cur items ch db)) @ zs" using Cons by auto
  ultimately show ?case by auto
qed auto

lemma db_kept_trans:
  assumes "db_kept a b" "db_kept b c"
  shows "db_kept a c"
proof -
  have "\<exists>t'' \<in> set (wd_items c). same_task t t''" if "t \<in> set (wd_items a)" for t
    using assms that same_task_trans unfolding db_kept_def by blast
  then show ?thesis using assms unfolding db_kept_def by auto
qed

lemma store_task_step:
  assumes "distinct (map tk_id (wd_items db))" "sound_db cfg db"
    "\<And>t it. t \<in> set cur \<Longrightarrow> find_ref items (wi_ref t) = Some it \<Longrightarrow> task_sound cfg (set (wd_log db)) (write_task it t) \<and> same_task t (write_task it t)"
    "\<forall>t \<in> set cur. \<exists>x \<in> set (wd_items db). same_task t x"
  shows "sound_db cfg (store_task new_id sid user cur items ch db) \<and> db_kept db (store_task new_id sid user cur items ch db)"
proof (cases "find_ref items (cg_ref ch)")
  case None
  then show ?thesis using assms(2) by (auto simp: store_task_def db_kept_def same_task_def)
next
  case (Some it)
  show ?thesis
  proof (cases "find (\<lambda>t. wi_ref t = cg_ref ch) cur")
    case None
    then show ?thesis using assms(2) Some new_task_sound
      by (auto simp: store_task_def db_kept_def same_task_def sound_db_def intro: task_sound_mono)
  next
    case f: (Some t)
    then have t: "t \<in> set cur" "wi_ref t = cg_ref ch" using find_in by fastforce+
    define t' where "t' = (write_task it t)\<lparr>tk_version := tk_version t + 1\<rparr>"
    have w: "task_sound cfg (set (wd_log db)) t'" "same_task t t'"
      using assms(3) [OF t(1)] Some t(2) by (auto simp: t'_def same_task_def)
    obtain x where x: "x \<in> set (wd_items db)" "same_task t x" using assms(4) t(1) by blast
    have only: "y = x" if "y \<in> set (wd_items db)" "tk_id y = tk_id t'" for y
      using assms(1) x w(2) that by (auto simp: distinct_map inj_on_def same_task_def)
    have xt: "same_task x t'" using x(2) w(2) by (simp add: same_task_def)
    have "sound_db cfg (put_task t' db)" using assms(2) w(1) by (auto simp: sound_db_def)
    moreover have "db_kept db (put_task t' db)" using only xt by (force simp: db_kept_def same_task_def)
    moreover have "store_task new_id sid user cur items ch db = task_log_event (tk_id t) (Tk_Llm_Updated (cg_fields ch)) None (put_task t' db)"
      using Some f by (simp add: store_task_def t'_def)
    ultimately show ?thesis by (auto simp: sound_db_def db_kept_def intro: task_sound_mono)
  qed
qed

lemma stores_step:
  assumes "distinct (map tk_id (wd_items (fold (store_task new_id sid user cur items) chs db)))" "sound_db cfg db"
    "\<And>t it. t \<in> set cur \<Longrightarrow> find_ref items (wi_ref t) = Some it \<Longrightarrow> task_sound cfg (set (wd_log db)) (write_task it t) \<and> same_task t (write_task it t)"
    "\<forall>t \<in> set cur. \<exists>x \<in> set (wd_items db). same_task t x"
  shows "sound_db cfg (fold (store_task new_id sid user cur items) chs db) \<and>
    db_kept db (fold (store_task new_id sid user cur items) chs db)"
  using assms
proof (induction chs arbitrary: db)
  case Nil then show ?case by (auto simp: db_kept_def same_task_def)
next
  case (Cons ch chs)
  define db1 where "db1 = store_task new_id sid user cur items ch db"
  have d: "distinct (map tk_id (wd_items db))"
    using Cons.prems(1) stores_ids [of new_id sid user cur items "ch # chs" db] by auto
  have s: "sound_db cfg db1" "db_kept db db1"
    using store_task_step [OF d Cons.prems(2,3,4)] by (simp_all add: db1_def)
  have 3: "task_sound cfg (set (wd_log db1)) (write_task it t) \<and> same_task t (write_task it t)"
    if "t \<in> set cur" "find_ref items (wi_ref t) = Some it" for t it
    using Cons.prems(3) [OF that] s(2) by (auto simp: db_kept_def intro: task_sound_mono)
  have 4: "\<forall>t \<in> set cur. \<exists>x \<in> set (wd_items db1). same_task t x"
    using Cons.prems(4) s(2) same_task_trans unfolding db_kept_def by blast
  note ih = Cons.IH [OF _ s(1) 3 4]
  show ?case using ih Cons.prems(1) db_kept_trans [OF s(2)] by (simp flip: db1_def)
qed

lemma ideas_store_move:
  assumes "items_ok cfg db"
  shows "items_move cfg db (ideas_store new_id sid user allow delta line_refs db)"
proof -
  define cur where "cur = session_tasks sid db"
  define m where "m = ideas_apply allow (map witem.truncate cur) delta line_refs"
  define db' where "db' = fold (store_task new_id sid user cur (fst m)) (snd m) db"
  have c: "set cur \<subseteq> set (wd_items db)" by (auto simp: cur_def session_tasks_def)
  have "distinct (map wi_ref cur)"
    using assms by (auto simp: cur_def session_tasks_def items_ok_def tables_unique_def distinct_map inj_on_def)
  then have "distinct (map wi_ref (map witem.truncate cur))" by (simp add: o_def witem.truncate_def)
  then have inv: "merge_inv allow (ran line_refs) (map witem.truncate cur) (fst m)"
    unfolding m_def by (rule ideas_apply_inv)
  have w: "task_sound cfg (set (wd_log db)) (write_task it t) \<and> same_task t (write_task it t)"
    if "t \<in> set cur" "find_ref (fst m) (wi_ref t) = Some it" for t it
  proof (rule write_task_sound)
    show "task_sound cfg (set (wd_log db)) t" using assms that(1) c by (auto simp: items_ok_def)
    obtain y where "find_ref (fst m) (wi_ref (witem.truncate t)) = Some y" "owner_ok allow (witem.truncate t) y"
      by (rule merge_inv_find [OF inv, of "witem.truncate t"]) (use \<open>t \<in> set cur\<close> in simp_all)
    then show "owner_ok allow (witem.truncate t) it" using that(2) by (simp add: witem.truncate_def)
  qed
  show ?thesis
  proof (cases "tables_unique db'")
    case True
    have "sound_db cfg db' \<and> db_kept db db'" unfolding db'_def
      by (rule stores_step [OF _ _ w]) (use True assms c in \<open>auto simp: tables_unique_def items_ok_def sound_db_def same_task_def simp flip: db'_def\<close>)
    then show ?thesis using True
      by (simp add: ideas_store_def Let_def items_move_alt flip: cur_def m_def db'_def)
  next
    case False
    then show ?thesis using assms
      by (simp add: ideas_store_def Let_def items_move_refl flip: cur_def m_def db'_def)
  qed
qed

lemma request_move:
  assumes "items_ok cfg db"
  shows "items_move cfg db (task_request_do cfg render now tid actor q db)"
  using assms
  by (cases q) (simp_all add: task_request_do_def task_edit_move task_approve_move task_unapprove_move task_discard_move
      task_restore_move task_done_move task_reopen_move task_merge_move task_copied_move)

section \<open>What stays true of the runs\<close>

definition run_core :: "run_row \<Rightarrow> nat \<times> nat \<times> nat \<times> string \<times> string \<times> nat \<times> string option \<times> nat option" where
  "run_core r = (rn_id r, rn_item r, rn_attempt r, rn_repo r, rn_prompt_sha256 r, rn_requested_by r, rn_guidance r, rn_continues r)"

definition active_of :: "nat \<Rightarrow> run_row list \<Rightarrow> run_row list" where
  "active_of tid rs = filter (\<lambda>r. rn_item r = tid \<and> run_active r) rs"

text \<open>Ids and an item's attempts are used once, and an item has at most one run that is queued or running.\<close>

definition runs_ok :: "run_row list \<Rightarrow> bool" where
  "runs_ok rs \<longleftrightarrow> distinct (map rn_id rs) \<and> distinct (map (\<lambda>r. (rn_item r, rn_attempt r)) rs) \<and>
     (\<forall>tid. length (active_of tid rs) \<le> 1)"

definition owned :: "work_db \<Rightarrow> nat \<Rightarrow> nat \<Rightarrow> bool" where
  "owned db tid u \<longleftrightarrow> (\<exists>t \<in> set (wd_items db). tk_id t = tid \<and> tk_user t = u)"

text \<open>The owner asked at the dashboard for this prompt's run, and the owner approved this prompt there.\<close>

definition asked :: "work_config \<Rightarrow> work_db \<Rightarrow> nat \<Rightarrow> string \<Rightarrow> string \<Rightarrow> string option \<Rightarrow> nat \<Rightarrow> bool" where
  "asked cfg db tid repo h g u \<longleftrightarrow> owned db tid u \<and> repo \<in> set (wc_allowlist cfg) \<inter> set (wc_dispatchable cfg) \<and>
     (\<exists>p. h = wc_sha256 cfg p \<and> web_entry tid u (Tk_Dispatch_Requested repo p h g) \<in> set (wd_log db))"

definition owner_signed :: "work_config \<Rightarrow> work_db \<Rightarrow> nat \<Rightarrow> string \<Rightarrow> nat \<Rightarrow> bool" where
  "owner_signed cfg db tid p u \<longleftrightarrow> (\<exists>repo. web_entry tid u (Tk_Approved repo p (wc_sha256 cfg p)) \<in> set (wd_log db))"

definition run_asked :: "work_config \<Rightarrow> work_db \<Rightarrow> run_row \<Rightarrow> bool" where
  "run_asked cfg db r \<longleftrightarrow> asked cfg db (rn_item r) (rn_repo r) (rn_prompt_sha256 r) (rn_guidance r) (rn_requested_by r)"

definition launch_sound :: "work_config \<Rightarrow> work_db \<Rightarrow> launch \<Rightarrow> bool" where
  "launch_sound cfg db la \<longleftrightarrow> run_asked cfg db (la_run la) \<and> owner_signed cfg db (rn_item (la_run la)) (la_prompt la) (rn_requested_by (la_run la)) \<and>
     rn_prompt_sha256 (la_run la) = wc_sha256 cfg (la_prompt la) \<and>
     (\<exists>prev. la_text la = (if rn_guidance (la_run la) = None then la_prompt la else follow_up_prompt (la_prompt la) (la_run la) prev))"

definition job_wanted :: "launch \<Rightarrow> job_call" where
  "job_wanted la = \<lparr>jc_run = rn_id (la_run la), jc_name = job_name (rn_id (la_run la)), jc_repo = rn_repo (la_run la),
     jc_branch = rn_branch (la_run la), jc_prompt = la_text la\<rparr>"

definition job_sound :: "work_config \<Rightarrow> work_db \<Rightarrow> job_call \<Rightarrow> bool" where
  "job_sound cfg db c \<longleftrightarrow> (\<exists>la. c = job_wanted la \<and> launch_sound cfg db la \<and> (\<exists>r \<in> set (wd_runs db). run_core r = run_core (la_run la)))"

definition db_grow :: "work_db \<Rightarrow> work_db \<Rightarrow> bool" where
  "db_grow a b \<longleftrightarrow> set (wd_log a) \<subseteq> set (wd_log b) \<and> (\<forall>t \<in> set (wd_items a). \<exists>t' \<in> set (wd_items b). same_task t t') \<and>
     (\<forall>r \<in> set (wd_runs a). \<exists>r' \<in> set (wd_runs b). run_core r' = run_core r)"

lemma owned_grow: "owned a tid u \<Longrightarrow> db_grow a b \<Longrightarrow> owned b tid u"
  unfolding owned_def db_grow_def same_task_def by metis

lemma asked_grow: "asked cfg a tid repo h g u \<Longrightarrow> db_grow a b \<Longrightarrow> asked cfg b tid repo h g u"
  unfolding asked_def using owned_grow by (auto simp: db_grow_def)

lemma run_asked_grow: "run_asked cfg a r \<Longrightarrow> db_grow a b \<Longrightarrow> run_asked cfg b r"
  unfolding run_asked_def by (rule asked_grow)

lemma launch_sound_grow: "launch_sound cfg a la \<Longrightarrow> db_grow a b \<Longrightarrow> launch_sound cfg b la"
  unfolding launch_sound_def owner_signed_def using run_asked_grow by (auto simp: db_grow_def)

lemma job_sound_grow: "job_sound cfg a c \<Longrightarrow> db_grow a b \<Longrightarrow> job_sound cfg b c"
  unfolding job_sound_def db_grow_def [of a b] using launch_sound_grow [of cfg a _ b] by (metis db_grow_def)

lemma run_asked_core: "run_core r' = run_core r \<Longrightarrow> run_asked cfg db r' = run_asked cfg db r"
  by (simp add: run_core_def run_asked_def)

lemma items_move_grow: "items_move cfg a b \<Longrightarrow> db_grow a b"
  by (auto simp: items_move_def db_grow_def)

definition started :: "work_db \<Rightarrow> nat" where
  "started db = length (running_rows db)"

definition work_base_ok :: "work_config \<Rightarrow> work_db \<Rightarrow> bool" where
  "work_base_ok cfg db \<longleftrightarrow> items_ok cfg db \<and> runs_ok (wd_runs db) \<and> (\<forall>r \<in> set (wd_runs db). run_asked cfg db r)"

definition base_step :: "work_config \<Rightarrow> work_db \<Rightarrow> work_db \<Rightarrow> nat \<Rightarrow> bool" where
  "base_step cfg a b k \<longleftrightarrow> work_base_ok cfg b \<and> db_grow a b \<and> started b \<le> started a + k"

lemma items_base: "work_base_ok cfg a \<Longrightarrow> items_move cfg a b \<Longrightarrow> base_step cfg a b 0"
  using items_move_grow run_asked_grow
  by (fastforce simp: base_step_def work_base_ok_def started_def running_rows_def items_move_def)

lemma length_filter_weaker: "(\<And>x. x \<in> set xs \<Longrightarrow> P x \<Longrightarrow> Q x) \<Longrightarrow> length (filter P xs) \<le> length (filter Q xs)"
  by (induction xs) (auto simp: le_Suc_eq)

text \<open>Replacing a row by one of the same core; the count of started runs grows by one only if this one starts.\<close>

lemma put_count:
  assumes "distinct (map rn_id rs)"
  shows "length (filter P (map (\<lambda>x. if rn_id x = rn_id r' then r' else x) rs)) \<le> length (filter P rs) + 1"
  using assms
proof (induction rs)
  case (Cons x xs)
  have same: "map (\<lambda>x. if rn_id x = rn_id r' then r' else x) xs = xs" if "rn_id x = rn_id r'"
    using Cons.prems that by (intro map_idI) (auto simp: image_iff)
  show ?case
  proof (cases "rn_id x = rn_id r'")
    case True
    then show ?thesis using same by (simp del: map_map)
  next
    case False
    then show ?thesis using Cons by auto
  qed
qed simp

lemma put_run_step:
  assumes "work_base_ok cfg db" "r \<in> set (wd_runs db)" "run_core r' = run_core r" "run_active r' \<Longrightarrow> run_active r"
    "k = 0 \<Longrightarrow> rn_state r' = Started \<Longrightarrow> rn_state r = Started"
  shows "base_step cfg db (put_run r' db) k"
proof -
  define g where "g = (\<lambda>x. if rn_id x = rn_id r' then r' else x)"
  have d: "distinct (map rn_id (wd_runs db))" using assms(1) by (simp add: work_base_ok_def runs_ok_def)
  have only: "x = r" if "x \<in> set (wd_runs db)" "rn_id x = rn_id r'" for x
    using d assms(2,3) that by (auto simp: distinct_map inj_on_def run_core_def)
  have core: "run_core (g x) = run_core x" if "x \<in> set (wd_runs db)" for x
    using only [OF that] assms(3) by (auto simp: g_def)
  have act: "run_active x" if "x \<in> set (wd_runs db)" "run_active (g x)" for x
    using only [OF that(1)] assms(4) that(2) by (auto simp: g_def split: if_splits)
  have item: "rn_item (g x) = rn_item x" "rn_id (g x) = rn_id x" "rn_attempt (g x) = rn_attempt x" if "x \<in> set (wd_runs db)" for x
    using core [OF that] by (simp_all add: run_core_def)
  have 1: "map rn_id (map g (wd_runs db)) = map rn_id (wd_runs db)"
    "map (\<lambda>r. (rn_item r, rn_attempt r)) (map g (wd_runs db)) = map (\<lambda>r. (rn_item r, rn_attempt r)) (wd_runs db)"
    using item by auto
  have "length (active_of tid (map g (wd_runs db))) \<le> 1" for tid
  proof -
    have "length (active_of tid (map g (wd_runs db))) \<le> length (active_of tid (wd_runs db))"
      unfolding active_of_def filter_map length_map
      by (rule length_filter_weaker) (use act item in auto)
    then show ?thesis using assms(1) le_trans unfolding work_base_ok_def runs_ok_def by blast
  qed
  then have ro: "runs_ok (map g (wd_runs db))"
    using assms(1) 1 unfolding work_base_ok_def runs_ok_def by argo
  have grow: "db_grow db (put_run r' db)"
    using core unfolding db_grow_def put_run_sel g_def [symmetric] by (auto simp: same_task_def)
  have "items_ok cfg (put_run r' db)" using assms(1) by (simp add: work_base_ok_def items_ok_def tables_unique_def)
  moreover have "\<forall>x \<in> set (wd_runs (put_run r' db)). run_asked cfg (put_run r' db) x"
  proof
    fix y assume "y \<in> set (wd_runs (put_run r' db))"
    then obtain x where x: "x \<in> set (wd_runs db)" "y = g x" by (auto simp: g_def)
    then have "run_asked cfg db x" using assms(1) by (simp add: work_base_ok_def)
    then show "run_asked cfg (put_run r' db) y"
      unfolding x(2) run_asked_core [OF core [OF x(1)]] by (rule run_asked_grow [OF _ grow])
  qed
  moreover have "started (put_run r' db) \<le> started db + k"
  proof (cases k)
    case 0
    have "length (filter (\<lambda>x. rn_state x = Started) (map g (wd_runs db))) \<le> length (filter (\<lambda>x. rn_state x = Started) (wd_runs db))"
      unfolding filter_map length_map by (rule length_filter_weaker) (use only assms(5) 0 in \<open>auto simp: g_def split: if_splits\<close>)
    then show ?thesis by (simp add: started_def running_rows_def g_def 0 del: map_map)
  next
    case (Suc j)
    then show ?thesis using put_count [OF d, of "\<lambda>x. rn_state x = Started" r']
      by (simp add: started_def running_rows_def del: map_map)
  qed
  ultimately show ?thesis using ro grow unfolding base_step_def work_base_ok_def put_run_sel g_def [symmetric] by blast
qed

lemma base_step_ok: "base_step cfg a b k \<Longrightarrow> work_base_ok cfg b" by (simp add: base_step_def)

lemma db_grow_refl: "db_grow a a" by (auto simp: db_grow_def same_task_def)

lemma db_grow_trans:
  assumes "db_grow a b" "db_grow b c"
  shows "db_grow a c"
proof -
  have "\<exists>t'' \<in> set (wd_items c). same_task t t''" if "t \<in> set (wd_items a)" for t
  proof -
    obtain t' where t': "t' \<in> set (wd_items b)" "same_task t t'" using assms(1) \<open>t \<in> set (wd_items a)\<close> unfolding db_grow_def by blast
    obtain t'' where "t'' \<in> set (wd_items c)" "same_task t' t''" using assms(2) t'(1) unfolding db_grow_def by blast
    then show ?thesis using same_task_trans [OF t'(2)] by blast
  qed
  moreover have "\<exists>r'' \<in> set (wd_runs c). run_core r'' = run_core r" if "r \<in> set (wd_runs a)" for r
  proof -
    obtain r' where r': "r' \<in> set (wd_runs b)" "run_core r' = run_core r" using assms(1) \<open>r \<in> set (wd_runs a)\<close> unfolding db_grow_def by blast
    obtain r'' where "r'' \<in> set (wd_runs c)" "run_core r'' = run_core r'" using assms(2) r'(1) unfolding db_grow_def by blast
    then show ?thesis using r'(2) by auto
  qed
  moreover have "set (wd_log a) \<subseteq> set (wd_log c)" using assms unfolding db_grow_def by blast
  ultimately show ?thesis by (simp add: db_grow_def)
qed

lemma base_step_refl: "work_base_ok cfg a \<Longrightarrow> base_step cfg a a k"
  by (simp add: base_step_def db_grow_refl)

lemma base_step_log:
  assumes "base_step cfg a b k"
  shows "base_step cfg a (task_log_event tid e ac b) k"
proof -
  have b: "work_base_ok cfg b" using assms by (simp add: base_step_def)
  have "base_step cfg b (task_log_event tid e ac b) 0"
    by (rule items_base [OF b log_move]) (use b in \<open>simp add: work_base_ok_def\<close>)
  then show ?thesis using assms db_grow_trans unfolding base_step_def by (metis add_0_right le_trans)
qed

lemma run_ofD: "run_of db rid = Some r \<Longrightarrow> r \<in> set (wd_runs db) \<and> rn_id r = rid"
  by (auto simp: run_of_def dest!: find_in)

lemma ended_row_core [simp]: "run_core (ended_row now st res r) = run_core r" "rn_state (ended_row now st res r) = st"
  by (simp_all add: ended_row_def run_core_def)

lemma end_run_step:
  assumes "work_base_ok cfg db" "r \<in> set (wd_runs db)" "run_active r" "end_run now r res db = Some db'"
    "rn_state r = Started \<or> rs_outcome res = Some ''failed''"
  shows "base_step cfg db db' 0"
proof -
  obtain st where st: "run_state_of (text_or (rs_outcome res) ''failed'') = Some st"
    and db': "db' = task_log_event (rn_item r) (Tk_Dispatch_Finished (rn_id r) (run_word st)) None (put_run (ended_row now st res r) db)"
    using assms(4) by (auto simp: end_run_def split: option.splits)
  have "rn_state r = Started" if "st = Started"
    using assms(5) st that by (auto simp: text_or_def run_state_of_def split: if_splits)
  then show ?thesis unfolding db'
    by (intro base_step_log put_run_step [OF assms(1,2)]) (use assms(3) in auto)
qed

lemma active_single:
  assumes "work_base_ok cfg db" "r \<in> set (wd_runs db)" "run_active r" "x \<in> set (wd_runs db)" "run_active x" "rn_item x = rn_item r"
  shows "x = r"
proof -
  have "length (active_of (rn_item r) (wd_runs db)) \<le> 1" using assms(1) by (simp add: work_base_ok_def runs_ok_def)
  moreover have "x \<in> set (active_of (rn_item r) (wd_runs db))" "r \<in> set (active_of (rn_item r) (wd_runs db))"
    using assms by (simp_all add: active_of_def)
  ultimately show ?thesis by (cases "active_of (rn_item r) (wd_runs db)") auto
qed

lemma cancel_run_step:
  assumes "work_base_ok cfg db"
  shows "base_step cfg db (snd (cancel_run now tid actor deleted db)) 0 \<and>
    (\<forall>x \<in> set (wd_runs db). rn_item x \<noteq> tid \<longrightarrow> x \<in> set (wd_runs (snd (cancel_run now tid actor deleted db))))"
proof (cases "snd (cancel_run now tid actor deleted db) = db")
  case True
  then show ?thesis using assms by (simp add: base_step_refl)
next
  case False
  then obtain r where r: "filter run_active (runs_of tid db) = [r]" and
    c: "snd (cancel_run now tid actor deleted db) = task_log_event tid (Tk_Dispatch_Cancelled (rn_id r) (rn_job_name r)) (Some actor)
        (put_run (r\<lparr>rn_state := Cancelled, rn_finished_at := Some now\<rparr>) db)"
    by (auto simp: cancel_run_def split: sum.splits list.splits if_splits)
  have "r \<in> set (filter run_active (runs_of tid db))" by (simp add: r)
  then have m: "r \<in> set (wd_runs db)" "rn_item r = tid" by (auto simp: runs_of_def)
  have "base_step cfg db (put_run (r\<lparr>rn_state := Cancelled, rn_finished_at := Some now\<rparr>) db) 0"
    by (rule put_run_step [OF assms m(1)]) (simp_all add: run_core_def run_active_def)
  moreover have "x \<in> set (wd_runs (snd (cancel_run now tid actor deleted db)))" if "x \<in> set (wd_runs db)" "rn_item x \<noteq> tid" for x
  proof -
    have "rn_id x \<noteq> rn_id r" using assms m that by (auto simp: work_base_ok_def runs_ok_def distinct_map inj_on_def)
    then show ?thesis unfolding c using that(1) by (auto simp: image_iff)
  qed
  ultimately show ?thesis unfolding c by (simp add: base_step_log)
qed

lemma refresh_run_step:
  assumes "work_base_ok cfg db" "refresh_run now token patched r db = Some db'"
  shows "base_step cfg db db' 0"
proof (cases "db' = db")
  case False
  then obtain fresh where f: "run_of db (rn_id r) = Some fresh" "db' = put_run (fresh\<lparr>rn_token_refreshed_at := Some now\<rparr>) db"
    using assms(2) by (auto simp: refresh_run_def split: if_splits option.splits)
  show ?thesis unfolding f(2)
    by (rule put_run_step [OF assms(1), of fresh]) (use run_ofD [OF f(1)] in \<open>simp_all add: run_core_def run_active_def\<close>)
qed (use assms(1) in \<open>simp add: base_step_refl\<close>)

lemma check_run_step:
  assumes "work_base_ok cfg db" "check_run now re r db = Some db'"
  shows "base_step cfg db db' 0"
proof (cases "db' = db")
  case True
  then show ?thesis using assms(1) by (simp add: base_step_refl)
next
  case False
  then obtain res where "refresh_run now (ck_token re) (ck_patched re) r db = Some db' \<or>
      (\<exists>fresh. run_of db (rn_id r) = Some fresh \<and> rn_state fresh = Started \<and> end_run now fresh res db = Some db')"
    using assms(2) by (auto simp: check_run_def split: if_splits answer.splits option.splits sum.splits)
  then show ?thesis
    using refresh_run_step [OF assms(1)] end_run_step [OF assms(1)] by (auto simp: run_active_def dest!: run_ofD)
qed

subsection \<open>The gate and the queue\<close>

lemma refusal_None:
  assumes "refusal cfg t actor = None"
  obtains p r where "ac_kind actor = Web" "tk_user t = ac_user actor" "wi_state t = WorkItems.Approved" "tk_prompt_md t = Some p" "p \<noteq> []"
    "tk_prompt_sha256 t = Some (wc_sha256 cfg p)" "wi_repo t = Some r" "r \<in> set (wc_allowlist cfg) \<inter> set (wc_dispatchable cfg)"
proof -
  have 1: "ac_kind actor = Web" "tk_user t = ac_user actor" "wi_state t = WorkItems.Approved"
    "\<not> (tk_prompt_md t \<in> {None, Some []} \<or> tk_prompt_sha256 t \<in> {None, Some []} \<or> Some (wc_sha256 cfg (the (tk_prompt_md t))) \<noteq> tk_prompt_sha256 t)"
    "\<not> (wi_repo t \<in> {None, Some []} \<or> the (wi_repo t) \<notin> set (wc_allowlist cfg))" "the (wi_repo t) \<in> set (wc_dispatchable cfg)"
    using assms unfolding refusal_def by (auto split: if_splits)
  obtain p where "tk_prompt_md t = Some p" "p \<noteq> []" using 1(4) by auto
  moreover obtain r where "wi_repo t = Some r" using 1(5) by auto
  ultimately show ?thesis using that 1 by auto
qed

lemma gate_step:
  assumes "work_base_ok cfg db"
  shows "base_step cfg db (snd (dispatch_gate cfg tid actor guidance db)) 0"
  using assms
  by (auto simp: dispatch_gate_def Let_def intro: base_step_log base_step_refl split: option.split sum.split)

lemma gate_asked:
  assumes "dispatch_gate cfg tid actor guidance db = (Inr x, b)"
  shows "asked cfg b (do_item x) (do_repo x) (do_sha256 x) (do_guidance x) (ac_user (do_actor x))"
proof -
  obtain t where t: "own_task db tid (ac_user actor) = Inr t" "refusal cfg t actor = None"
    and x: "x = \<lparr>do_item = tid, do_repo = the (wi_repo t), do_prompt = the (tk_prompt_md t), do_sha256 = the (tk_prompt_sha256 t),
        do_actor = actor, do_guidance = map_option strip guidance\<rparr>"
    and b: "b = task_log_event tid (Tk_Dispatch_Requested (the (wi_repo t)) (the (tk_prompt_md t)) (the (tk_prompt_sha256 t)) (map_option strip guidance)) (Some actor) db"
    using assms by (auto simp: dispatch_gate_def Let_def split: option.splits sum.splits if_splits)
  from refusal_None [OF t(2)] obtain p r where r: "ac_kind actor = Web" "tk_prompt_md t = Some p"
    "tk_prompt_sha256 t = Some (wc_sha256 cfg p)" "wi_repo t = Some r" "r \<in> set (wc_allowlist cfg) \<inter> set (wc_dispatchable cfg)" by metis
  have "actor = \<lparr>ac_user = ac_user actor, ac_kind = Web\<rparr>" using r(1) by (cases actor) simp
  moreover have "owned b tid (ac_user actor)" using own_taskD [OF t(1)] by (auto simp: owned_def b)
  ultimately show ?thesis using r unfolding asked_def by (auto simp: x b web_entry_def)
qed

lemma last_run_max:
  "last_run rs = Some m \<Longrightarrow> m \<in> set rs \<and> (\<forall>x \<in> set rs. rn_attempt x \<le> rn_attempt m)"
proof -
  have fold: "foldl (\<lambda>b x. if rn_attempt x > rn_attempt b then x else b) r rs \<in> insert r (set rs) \<and>
     (\<forall>x \<in> insert r (set rs). rn_attempt x \<le> rn_attempt (foldl (\<lambda>b x. if rn_attempt x > rn_attempt b then x else b) r rs))" for r rs
  proof (induction rs arbitrary: r)
    case (Cons y ys)
    show ?case using Cons [of "if rn_attempt y > rn_attempt r then y else r"] by (auto split: if_splits)
  qed simp
  assume "last_run rs = Some m"
  then show ?thesis using fold by (cases rs) (auto simp: last_run_def)
qed

lemma queue_step:
  assumes "work_base_ok cfg db" "new_id \<notin> rn_id ` set (wd_runs db)"
    "asked cfg db (do_item x) (do_repo x) (do_sha256 x) (do_guidance x) (ac_user (do_actor x))"
    "queue_run new_id x db = (Inr u, b)"
  shows "base_step cfg db b 0 \<and> (\<exists>r. wd_runs b = wd_runs db @ [r])"
proof -
  define runs where "runs = runs_of (do_item x) db"
  obtain r where idle: "\<not> list_ex run_active runs" and b: "b = db\<lparr>wd_runs := wd_runs db @ [r]\<rparr>"
    and r: "rn_id r = new_id" "rn_item r = do_item x" "rn_state r = Queued" "rn_repo r = do_repo x" "rn_prompt_sha256 r = do_sha256 x"
      "rn_requested_by r = ac_user (do_actor x)" "rn_guidance r = do_guidance x"
      "rn_attempt r = (case last_run runs of None \<Rightarrow> 1 | Some p \<Rightarrow> rn_attempt p + 1)"
    using assms(4) by (auto simp: queue_run_def Let_def runs_def split: option.splits if_splits)
  have ro: "runs_ok (wd_runs db)" using assms(1) by (simp add: work_base_ok_def)
  have fresh: "rn_attempt r \<noteq> rn_attempt y" if "y \<in> set (wd_runs db)" "rn_item y = do_item x" for y
  proof -
    have y: "y \<in> set runs" using that by (simp add: runs_def runs_of_def)
    then obtain m where "last_run runs = Some m" by (cases runs) (auto simp: last_run_def)
    then show ?thesis using last_run_max [of runs m] y r(8) by auto
  qed
  have "active_of (do_item x) (wd_runs db) = []"
    using idle by (auto simp: active_of_def runs_def runs_of_def list_ex_iff filter_empty_conv)
  then have "length (active_of tid (wd_runs db @ [r])) \<le> 1" for tid
    using ro r(2) by (cases "tid = do_item x") (auto simp: active_of_def runs_ok_def)
  moreover have "(rn_item r, rn_attempt r) \<notin> (\<lambda>y. (rn_item y, rn_attempt y)) ` set (wd_runs db)"
  proof
    assume "(rn_item r, rn_attempt r) \<in> (\<lambda>y. (rn_item y, rn_attempt y)) ` set (wd_runs db)"
    then obtain y where "y \<in> set (wd_runs db)" "rn_item y = rn_item r" "rn_attempt y = rn_attempt r" by auto
    then show False using fresh [of y] r(2) by simp
  qed
  ultimately have "runs_ok (wd_runs b)" using ro assms(2) r(1) by (simp add: runs_ok_def b)
  moreover have grow: "db_grow db b" by (auto simp: db_grow_def b same_task_def)
  moreover have "items_ok cfg b" using assms(1) by (simp add: work_base_ok_def items_ok_def tables_unique_def b)
  moreover have "run_asked cfg b y" if y: "y \<in> set (wd_runs b)" for y
  proof (cases "y = r")
    case True
    then show ?thesis using asked_grow [OF assms(3) grow] r by (simp add: run_asked_def)
  next
    case False
    then have "run_asked cfg db y" using y assms(1) by (simp add: b work_base_ok_def)
    then show ?thesis by (rule run_asked_grow [OF _ grow])
  qed
  moreover have "started b = started db" by (simp add: started_def running_rows_def b r(3))
  ultimately have "base_step cfg db b 0" by (simp add: base_step_def work_base_ok_def)
  then show ?thesis by (simp add: b)
qed

lemma queue_refuse: "queue_run new_id x db = (Inl e, b) \<Longrightarrow> b = db"
  by (auto simp: queue_run_def Let_def split: option.splits if_splits)

lemma start_read_step:
  assumes "work_base_ok cfg db"
  shows "start_read cfg now rid db = St_Ended b \<Longrightarrow> base_step cfg db b 0"
    and "start_read cfg now rid db = St_Launch la \<Longrightarrow>
      la_run la \<in> set (wd_runs db) \<and> rn_state (la_run la) = Queued \<and> launch_sound cfg db la"
proof -
  assume "start_read cfg now rid db = St_Ended b"
  then obtain r where r: "run_of db rid = Some r" "rn_state r = Queued"
    "end_run now r (plain_result ''failed'' ''the work item changed after it was queued'') db = Some b"
    by (auto simp: start_read_def Let_def split: option.splits if_splits)
  show "base_step cfg db b 0"
    by (rule end_run_step [OF assms _ _ r(3)]) (use run_ofD [OF r(1)] r(2) in \<open>simp_all add: run_active_def plain_result_def\<close>)
next
  assume "start_read cfg now rid db = St_Launch la"
  then obtain r t where r: "run_of db rid = Some r" "rn_state r = Queued" "task_of db (rn_item r) = Some t"
    by (auto simp: start_read_def split: option.splits if_splits)
  define p where "p = text_or (tk_prompt_md t) []"
  have ok: "\<not> (wi_state t \<noteq> WorkItems.Approved \<or> p = [] \<or> wc_sha256 cfg p \<noteq> rn_prompt_sha256 r)"
    using \<open>start_read cfg now rid db = St_Launch la\<close> r
    by (auto simp: start_read_def Let_def p_def split: option.splits if_splits)
  then have p: "wi_state t = WorkItems.Approved" "p \<noteq> []" "wc_sha256 cfg p = rn_prompt_sha256 r" by simp_all
  have "la = \<lparr>la_run = r, la_title = wi_title t, la_prompt = p,
      la_text = (if rn_guidance r = None then p else follow_up_prompt p r (case rn_continues r of None \<Rightarrow> None | Some i \<Rightarrow> run_of db i))\<rparr>"
    using \<open>start_read cfg now rid db = St_Launch la\<close> r ok by (simp add: start_read_def Let_def flip: p_def)
  then have la: "la_run la = r" "la_prompt la = p" "\<exists>prev. la_text la = (if rn_guidance r = None then p else follow_up_prompt p r prev)"
    by auto
  note m = run_ofD [OF r(1)] task_ofD [OF r(3)]
  have tp: "tk_prompt_md t = Some p" using p(2) by (auto simp: p_def text_or_def split: option.splits if_splits)
  have a: "run_asked cfg db r" using assms m(1) by (simp add: work_base_ok_def)
  have "tk_user t = rn_requested_by r"
  proof -
    obtain x where "x \<in> set (wd_items db)" "tk_id x = rn_item r" "tk_user x = rn_requested_by r"
      using a by (auto simp: run_asked_def asked_def owned_def)
    then show ?thesis using task_only [of db t x] m(2) assms by (auto simp: work_base_ok_def items_ok_def)
  qed
  moreover have "task_sound cfg (set (wd_log db)) t" using assms m(2) by (simp add: work_base_ok_def items_ok_def)
  ultimately have "owner_signed cfg db (rn_item r) p (rn_requested_by r)" using tp p(2) m(2) by (auto simp: task_sound_def owner_signed_def)
  with a p(3) have "launch_sound cfg db la" unfolding launch_sound_def la(1,2) using la(3) by metis
  then show "la_run la \<in> set (wd_runs db) \<and> rn_state (la_run la) = Queued \<and> launch_sound cfg db la"
    using m(1) r(2) la(1) by simp
qed

lemma launch_end_step:
  assumes "work_base_ok cfg db" "la_run la \<in> set (wd_runs db)" "rn_state (la_run la) = Queued" "launch_end now la re db = Some b"
  shows "base_step cfg db b 1"
proof (cases "\<exists>e. end_run now (la_run la) (plain_result ''failed'' e) db = Some b")
  case True
  then obtain e where e: "end_run now (la_run la) (plain_result ''failed'' e) db = Some b" by blast
  have "base_step cfg db b 0"
    by (rule end_run_step [OF assms(1,2) _ e]) (use assms(3) in \<open>simp_all add: run_active_def plain_result_def\<close>)
  then show ?thesis by (simp add: base_step_def)
next
  case False
  then have b: "b = task_log_event (rn_item (la_run la)) (Tk_Dispatch_Started (rn_id (la_run la)) (job_name (rn_id (la_run la))))
      None (put_run (started_row now (la_run la)) db)"
    using assms(4) by (auto simp: launch_end_def kube_failed_def split: answer.splits if_splits)
  show ?thesis unfolding b
    by (intro base_step_log put_run_step [OF assms(1,2)]) (use assms(3) in \<open>simp_all add: started_row_def run_core_def run_active_def\<close>)
qed

section \<open>The service as a whole\<close>

text \<open>What the loop has in hand: the runs it still may start fit under the cap, beside the one it is starting.\<close>

fun phase_ok :: "work_config \<Rightarrow> work_db \<Rightarrow> loop_phase \<Rightarrow> bool" where
  "phase_ok cfg db Resting \<longleftrightarrow> started db \<le> wc_max_concurrent cfg"
| "phase_ok cfg db (Checking rs) \<longleftrightarrow> started db \<le> wc_max_concurrent cfg"
| "phase_ok cfg db (Starting rest) \<longleftrightarrow> started db + length rest \<le> wc_max_concurrent cfg"
| "phase_ok cfg db (Launching la rest) \<longleftrightarrow> started db + 1 + length rest \<le> wc_max_concurrent cfg \<and>
     la_run la \<in> set (wd_runs db) \<and> rn_state (la_run la) = Queued \<and> launch_sound cfg db la"

definition order_asked :: "work_config \<Rightarrow> work_db \<Rightarrow> dispatch_order \<Rightarrow> bool" where
  "order_asked cfg db x \<longleftrightarrow> asked cfg db (do_item x) (do_repo x) (do_sha256 x) (do_guidance x) (ac_user (do_actor x))"

definition work_ok :: "work_config \<Rightarrow> work_world \<Rightarrow> bool" where
  "work_ok cfg w \<longleftrightarrow> work_base_ok cfg (ww_db w) \<and> (\<forall>x \<in> set (ww_orders w). order_asked cfg (ww_db w) x) \<and>
     (\<forall>c \<in> set (ww_jobs w). job_sound cfg (ww_db w) c) \<and> phase_ok cfg (ww_db w) (ww_phase w)"

lemma phase_capped: "phase_ok cfg db ph \<Longrightarrow> started db \<le> wc_max_concurrent cfg"
  by (cases ph) simp_all

text \<open>What a step of the tables leaves true of the orders, the jobs and a phase whose run it does not touch.\<close>

lemma phase_base:
  assumes "phase_ok cfg a ph" "base_step cfg a b 0"
    "\<And>la rest. ph = Launching la rest \<Longrightarrow> la_run la \<in> set (wd_runs a) \<Longrightarrow> la_run la \<in> set (wd_runs b)"
  shows "phase_ok cfg b ph"
  using assms launch_sound_grow [of cfg a _ b] by (cases ph) (auto simp: base_step_def)

lemma work_base:
  assumes "work_ok cfg w" "base_step cfg (ww_db w) b k" "phase_ok cfg b ph"
    "\<And>x. x \<in> set orders \<Longrightarrow> x \<in> set (ww_orders w) \<or> order_asked cfg b x"
    "\<And>c. c \<in> set jobs \<Longrightarrow> c \<in> set (ww_jobs w) \<or> job_sound cfg b c"
  shows "work_ok cfg \<lparr>ww_db = b, ww_orders = orders, ww_phase = ph, ww_jobs = jobs\<rparr>"
proof -
  have g: "db_grow (ww_db w) b" "work_base_ok cfg b" using assms(2) by (simp_all add: base_step_def)
  have "order_asked cfg b x" if "x \<in> set orders" for x
    using assms(1) assms(4) [OF that] asked_grow [OF _ g(1)] by (auto simp: work_ok_def order_asked_def)
  moreover have "job_sound cfg b c" if "c \<in> set jobs" for c
    using assms(1) assms(5) [OF that] job_sound_grow [OF _ g(1)] by (auto simp: work_ok_def)
  ultimately show ?thesis using g(2) assms(3) by (simp add: work_ok_def)
qed

lemma world_split: "w = \<lparr>ww_db = ww_db w, ww_orders = ww_orders w, ww_phase = ww_phase w, ww_jobs = ww_jobs w\<rparr>"
  by (cases w) simp

lemma work_db_only:
  assumes "work_ok cfg w" "base_step cfg (ww_db w) b 0"
    "\<And>la rest. ww_phase w = Launching la rest \<Longrightarrow> la_run la \<in> set (wd_runs (ww_db w)) \<Longrightarrow> la_run la \<in> set (wd_runs b)"
  shows "work_ok cfg (w\<lparr>ww_db := b\<rparr>)"
proof -
  have p: "phase_ok cfg b (ww_phase w)"
    by (rule phase_base [OF _ assms(2,3)]) (use assms(1) in \<open>simp_all add: work_ok_def\<close>)
  have "work_ok cfg \<lparr>ww_db = b, ww_orders = ww_orders w, ww_phase = ww_phase w, ww_jobs = ww_jobs w\<rparr>"
    by (rule work_base [OF assms(1,2) p]) simp_all
  then show ?thesis by (cases w) simp
qed

lemma work_items_only:
  assumes "work_ok cfg w" "items_move cfg (ww_db w) b"
  shows "work_ok cfg (w\<lparr>ww_db := b\<rparr>)"
proof (rule work_db_only [OF assms(1)])
  show "base_step cfg (ww_db w) b 0" using items_base [OF _ assms(2)] assms(1) by (simp add: work_ok_def)
  show "\<And>la rest. la_run la \<in> set (wd_runs (ww_db w)) \<Longrightarrow> la_run la \<in> set (wd_runs b)"
    using assms(2) by (simp add: items_move_def)
qed

lemma gate_runs: "wd_runs (snd (dispatch_gate cfg tid actor guidance db)) = wd_runs db"
  by (auto simp: dispatch_gate_def Let_def split: option.split sum.split)

lemma gate_world_ok:
  assumes "work_ok cfg w"
  shows "work_ok cfg (gate_world cfg tid actor guidance w)"
proof -
  obtain res b where g: "dispatch_gate cfg tid actor guidance (ww_db w) = (res, b)" by fastforce
  have s: "base_step cfg (ww_db w) b 0" "wd_runs b = wd_runs (ww_db w)"
    using gate_step [of cfg "ww_db w" tid actor guidance] gate_runs [of cfg tid actor guidance "ww_db w"] g assms
    by (simp_all add: work_ok_def)
  have p: "phase_ok cfg b (ww_phase w)"
    by (rule phase_base [OF _ s(1)]) (use assms s(2) in \<open>simp_all add: work_ok_def\<close>)
  show ?thesis
  proof (cases res)
    case (Inl e)
    have "work_ok cfg (w\<lparr>ww_db := b\<rparr>)" by (rule work_db_only [OF assms s(1)]) (simp add: s(2))
    then show ?thesis using Inl g by (simp add: gate_world_def)
  next
    case (Inr x)
    have "order_asked cfg b x" using gate_asked g Inr by (simp add: order_asked_def)
    then have "work_ok cfg \<lparr>ww_db = b, ww_orders = ww_orders w @ [x], ww_phase = ww_phase w, ww_jobs = ww_jobs w\<rparr>"
      by (intro work_base [OF assms s(1) p]) auto
    then show ?thesis using Inr g by (cases w) (simp add: gate_world_def)
  qed
qed

lemma queue_world_ok:
  assumes "work_ok cfg w" "i < length (ww_orders w)" "new_id \<notin> rn_id ` set (wd_runs (ww_db w))"
  shows "work_ok cfg (queue_world new_id i w)"
proof -
  define x where "x = ww_orders w ! i"
  define rest where "rest = take i (ww_orders w) @ drop (Suc i) (ww_orders w)"
  obtain res b where q: "queue_run new_id x (ww_db w) = (res, b)" by fastforce
  have x: "asked cfg (ww_db w) (do_item x) (do_repo x) (do_sha256 x) (do_guidance x) (ac_user (do_actor x))"
    using assms(1,2) by (simp add: work_ok_def order_asked_def x_def)
  have base: "work_base_ok cfg (ww_db w)" using assms(1) by (simp add: work_ok_def)
  have sub: "y \<in> set (ww_orders w) \<or> order_asked cfg c y" if "y \<in> set rest" for y c
    using that by (auto simp: rest_def dest: in_set_takeD in_set_dropD)
  have fin: "work_ok cfg (w\<lparr>ww_db := c, ww_orders := rest\<rparr>)"
    if "base_step cfg (ww_db w) c 0" "set (wd_runs (ww_db w)) \<subseteq> set (wd_runs c)" for c
  proof -
    have p: "phase_ok cfg c (ww_phase w)"
      by (rule phase_base [OF _ that(1)]) (use assms(1) that(2) in \<open>auto simp: work_ok_def\<close>)
    have "work_ok cfg \<lparr>ww_db = c, ww_orders = rest, ww_phase = ww_phase w, ww_jobs = ww_jobs w\<rparr>"
      by (rule work_base [OF assms(1) that(1) p]) (use sub in auto)
    then show ?thesis by (cases w) simp
  qed
  show ?thesis
  proof (cases res)
    case (Inr u)
    then obtain r where r: "base_step cfg (ww_db w) b 0" "wd_runs b = wd_runs (ww_db w) @ [r]"
      using queue_step [OF base assms(3) x, of u b] q by auto
    have "work_ok cfg (w\<lparr>ww_db := b, ww_orders := rest\<rparr>)" by (rule fin [OF r(1)]) (auto simp: r(2))
    then show ?thesis using q Inr by (simp add: queue_world_def Let_def flip: x_def rest_def)
  next
    case (Inl e)
    have "base_step cfg (ww_db w) (queue_refused x r (ww_db w)) 0" for r
      unfolding queue_refused_def by (intro base_step_log base_step_refl base)
    moreover have "wd_runs (queue_refused x r (ww_db w)) = wd_runs (ww_db w)" for r by (simp add: queue_refused_def)
    ultimately show ?thesis
      using Inl q queue_refuse [of new_id x "ww_db w" e b] fin base_step_refl [OF base]
      by (auto simp: queue_world_def Let_def simp flip: x_def rest_def split: work_fault.split)
  qed
qed

lemma phase_only:
  assumes "work_ok cfg w" "phase_ok cfg (ww_db w) ph"
  shows "work_ok cfg (w\<lparr>ww_phase := ph\<rparr>)"
  using assms by (simp add: work_ok_def)

lemma phase_db:
  assumes "work_ok cfg w" "base_step cfg (ww_db w) b k" "phase_ok cfg b ph"
  shows "work_ok cfg (w\<lparr>ww_db := b, ww_phase := ph\<rparr>)"
proof -
  have "work_ok cfg \<lparr>ww_db = b, ww_orders = ww_orders w, ww_phase = ph, ww_jobs = ww_jobs w\<rparr>"
    by (rule work_base [OF assms]) simp_all
  then show ?thesis by (cases w) simp
qed

lemma cancel_world_ok:
  assumes "work_ok cfg w" "\<not> run_locked w tid"
  shows "work_ok cfg (w\<lparr>ww_db := snd (cancel_run now tid actor deleted (ww_db w))\<rparr>)"
proof (rule work_db_only [OF assms(1)])
  have c: "base_step cfg (ww_db w) (snd (cancel_run now tid actor deleted (ww_db w))) 0 \<and>
      (\<forall>x \<in> set (wd_runs (ww_db w)). rn_item x \<noteq> tid \<longrightarrow> x \<in> set (wd_runs (snd (cancel_run now tid actor deleted (ww_db w)))))"
    by (rule cancel_run_step) (use assms(1) in \<open>simp add: work_ok_def\<close>)
  then show "base_step cfg (ww_db w) (snd (cancel_run now tid actor deleted (ww_db w))) 0" by simp
  show "la_run la \<in> set (wd_runs (snd (cancel_run now tid actor deleted (ww_db w))))"
    if "ww_phase w = Launching la rest" "la_run la \<in> set (wd_runs (ww_db w))" for la rest
    using c assms(2) that by (auto simp: run_locked_def)
qed

lemma check_world_ok:
  assumes "work_ok cfg w" "ww_phase w = Checking (r # rs)"
  shows "work_ok cfg (or_rest (ww_db w) (Checking rs) (check_run now re r (ww_db w)) w)"
proof (cases "check_run now re r (ww_db w)")
  case None
  then show ?thesis using assms phase_only [of cfg w Resting] by (simp add: or_rest_def work_ok_def)
next
  case (Some b)
  have s: "base_step cfg (ww_db w) b 0" by (rule check_run_step [OF _ Some]) (use assms(1) in \<open>simp add: work_ok_def\<close>)
  then have "phase_ok cfg b (Checking rs)" using assms by (simp add: work_ok_def base_step_def)
  then show ?thesis using phase_db [OF assms(1) s] Some by (simp add: or_rest_def)
qed

lemma start_plan_fits: "started db \<le> wc_max_concurrent cfg \<Longrightarrow> started db + length (start_plan cfg db) \<le> wc_max_concurrent cfg"
  by (simp add: start_plan_def started_def)

lemma start_world_ok:
  assumes "work_ok cfg w" "ww_phase w = Starting (rid # rest)"
  shows "work_ok cfg (start_world cfg now rid rest w)"
proof -
  have base: "work_base_ok cfg (ww_db w)" and cap: "started (ww_db w) + 1 + length rest \<le> wc_max_concurrent cfg"
    using assms by (simp_all add: work_ok_def)
  show ?thesis
  proof (cases "start_read cfg now rid (ww_db w)")
    case St_Return
    then show ?thesis using phase_only [OF assms(1), of "Starting rest"] cap by (simp add: start_world_def)
  next
    case St_Raise
    then show ?thesis using phase_only [OF assms(1), of Resting] cap by (simp add: start_world_def)
  next
    case (St_Ended b)
    have s: "base_step cfg (ww_db w) b 0" by (rule start_read_step(1) [OF base St_Ended])
    then have "phase_ok cfg b (Starting rest)" using cap by (simp add: base_step_def)
    then show ?thesis using phase_db [OF assms(1) s] St_Ended by (simp add: start_world_def)
  next
    case (St_Launch la)
    have "phase_ok cfg (ww_db w) (Launching la rest)" using start_read_step(2) [OF base St_Launch] cap by simp
    then show ?thesis using phase_only [OF assms(1)] St_Launch by (simp add: start_world_def)
  qed
qed

lemma launch_calls_sound:
  assumes "c \<in> set (launch_calls la re)" "launch_sound cfg db la" "la_run la \<in> set (wd_runs db)"
  shows "job_sound cfg db c"
proof -
  have "c = job_wanted la" using assms(1) by (auto simp: launch_calls_def job_wanted_def split: if_splits)
  then show ?thesis using assms(2,3) by (auto simp: job_sound_def)
qed

lemma launch_world_ok:
  assumes "work_ok cfg w" "ww_phase w = Launching la rest"
  shows "work_ok cfg (launch_world now re la rest w)"
proof -
  have base: "work_base_ok cfg (ww_db w)" and cap: "started (ww_db w) + 1 + length rest \<le> wc_max_concurrent cfg"
    and la: "la_run la \<in> set (wd_runs (ww_db w))" "rn_state (la_run la) = Queued" "launch_sound cfg (ww_db w) la"
    using assms by (simp_all add: work_ok_def)
  define w' where "w' = w\<lparr>ww_jobs := ww_jobs w @ launch_calls la re\<rparr>"
  have w': "work_ok cfg w'" using assms(1) launch_calls_sound [OF _ la(3,1)] by (auto simp: work_ok_def w'_def)
  show ?thesis
  proof (cases "launch_end now la re (ww_db w)")
    case None
    then show ?thesis using phase_only [OF w', of Resting] cap
      by (simp add: launch_world_def or_rest_def w'_def)
  next
    case (Some b)
    have s: "base_step cfg (ww_db w) b 1" by (rule launch_end_step [OF base la(1,2) Some])
    then have "phase_ok cfg b (Starting rest)" using cap by (simp add: base_step_def)
    then have "work_ok cfg (w'\<lparr>ww_db := b, ww_phase := Starting rest\<rparr>)"
      by (intro phase_db [OF w', of b 1]) (use s in \<open>simp_all add: w'_def\<close>)
    then show ?thesis using Some by (simp add: launch_world_def or_rest_def w'_def)
  qed
qed

lemma work_step_ok: "work_step cfg w w' \<Longrightarrow> work_ok cfg w \<Longrightarrow> work_ok cfg w'"
proof (induction rule: work_step.induct)
  case (Review w render now tid actor q)
  have "items_ok cfg (ww_db w)" using Review by (simp add: work_ok_def work_base_ok_def)
  then show ?case by (intro work_items_only [OF Review] request_move)
next
  case (Pr_Merged w now tid url)
  have "items_ok cfg (ww_db w)" using Pr_Merged by (simp add: work_ok_def work_base_ok_def)
  then show ?case by (intro work_items_only [OF Pr_Merged] task_pr_merged_move)
next
  case (Ideas w new_id sid user delta line_refs)
  have "items_ok cfg (ww_db w)" using Ideas by (simp add: work_ok_def work_base_ok_def)
  then show ?case by (intro work_items_only [OF Ideas] ideas_store_move)
next
  case (Plan w)
  then show ?case using start_plan_fits by (auto intro!: phase_only simp: work_ok_def)
next
  case (Crash w)
  then show ?case using phase_capped by (auto simp: work_ok_def)
next
  case (Tick w)
  then show ?case by (auto intro!: phase_only simp: work_ok_def)
next
  case (Rest w)
  then show ?case by (auto intro!: phase_only simp: work_ok_def)
qed (auto intro: gate_world_ok queue_world_ok cancel_world_ok check_world_ok start_world_ok launch_world_ok)

lemma no_work_ok: "work_ok cfg no_work"
  by (simp add: no_work_def work_ok_def work_base_ok_def items_ok_def tables_unique_def runs_ok_def active_of_def started_def running_rows_def)

lemma work_steps_ok: "work_steps cfg no_work w \<Longrightarrow> work_ok cfg w"
  by (induction rule: rtranclp_induct) (auto intro: no_work_ok work_step_ok)

section \<open>A run, from the draft to its Job\<close>

definition sandbox :: work_config where
  "sandbox = \<lparr>wc_sha256 = (\<lambda>s. CHR ''h'' # s), wc_allowlist = [''lab/box''], wc_dispatchable = [''lab/box''], wc_max_concurrent = 1,
     wc_dispatcher = True, wc_public_url = []\<rparr>"

definition demo_boss :: actor where "demo_boss = \<lparr>ac_user = 1, ac_kind = Web\<rparr>"

definition demo_proposal :: upsert where
  "demo_proposal = \<lparr>up_ref = None, up_title = ''Fix it'', up_repo = Some ''lab/box'', up_intent = [], up_criteria = [''It works''],
     up_done_when = None, up_source_lines = [''L1'']\<rparr>"

definition demo_cites :: "string \<Rightarrow> wsource option" where
  "demo_cites r = (if r = ''L1'' then Some \<lparr>ws_segment = ''a'', ws_start = 0, ws_end = 5, ws_text = ''fix''\<rparr> else None)"

definition fine_replies :: launch_replies where
  "fine_replies = \<lparr>lr_token = Answer (), lr_secret = Answer (), lr_job = Answer (), lr_owner = Answer (), lr_cleanup = Answer ()\<rparr>"

definition demo_task :: task_row where
  "demo_task = \<lparr>wi_ref = ''w1'', wi_title = ''Fix it'', wi_state = Draft, wi_repo = Some ''lab/box'', wi_intent = [],
     wi_criteria = [''It works''], wi_done_when = None, wi_sources = [\<lparr>ws_segment = ''a'', ws_start = 0, ws_end = 5, ws_text = ''fix''\<rparr>],
     wi_locked = [], wi_id = None, tk_id = 7, tk_session = ''s1'', tk_user = 1, tk_merged_into = None, tk_prompt_md = None,
     tk_prompt_sha256 = None, tk_approved_by = None, tk_approved_at = None, tk_done_at = None, tk_merged_pr_url = None, tk_version = 1\<rparr>"

definition demo_frozen :: task_row where
  "demo_frozen = demo_task\<lparr>wi_state := WorkItems.Approved, tk_prompt_md := Some ''Fix it'', tk_prompt_sha256 := Some ''hFix it'',
     tk_approved_by := Some 1, tk_approved_at := Some 10, tk_version := 2\<rparr>"

definition demo_run :: run_row where
  "demo_run = \<lparr>rn_id = 3, rn_item = 7, rn_attempt = 1, rn_state = Queued, rn_repo = ''lab/box'', rn_branch = branch_name demo_frozen,
     rn_prompt_sha256 = ''hFix it'', rn_requested_by = 1, rn_job_name = None, rn_pr_url = None, rn_pr_number = None, rn_summary = None,
     rn_error = None, rn_questions = None, rn_guidance = None, rn_continues = None, rn_started_at = None, rn_finished_at = None,
     rn_token_refreshed_at = None\<rparr>"

definition demo_logged :: "task_log list" where
  "demo_logged = [\<lparr>tl_item = 7, tl_actor = None, tl_event = Tk_Proposed ''Fix it''\<rparr>,
     web_entry 7 1 (Tk_Approved (Some ''lab/box'') ''Fix it'' ''hFix it''),
     web_entry 7 1 (Tk_Dispatch_Requested ''lab/box'' ''Fix it'' ''hFix it'' None)]"

definition demo_order :: dispatch_order where
  "demo_order = \<lparr>do_item = 7, do_repo = ''lab/box'', do_prompt = ''Fix it'', do_sha256 = ''hFix it'', do_actor = demo_boss, do_guidance = None\<rparr>"

definition work_demo :: "task_row list \<Rightarrow> run_row list \<Rightarrow> nat \<Rightarrow> dispatch_order list \<Rightarrow> loop_phase \<Rightarrow> work_world" where
  "work_demo items runs n orders phase =
     \<lparr>ww_db = \<lparr>wd_items = items, wd_runs = runs, wd_log = take n demo_logged\<rparr>, ww_orders = orders, ww_phase = phase, ww_jobs = []\<rparr>"

definition demo_launch :: launch where
  "demo_launch = \<lparr>la_run = demo_run, la_title = ''Fix it'', la_prompt = ''Fix it'', la_text = ''Fix it''\<rparr>"

lemmas work_demo_simps = work_demo_def demo_logged_def demo_run_def demo_frozen_def demo_task_def demo_boss_def demo_order_def sandbox_def
  web_entry_def

lemma work_demo_store:
  "ideas_store (\<lambda>_. 7) ''s1'' 1 [''lab/box''] [demo_proposal] demo_cites \<lparr>wd_items = [], wd_runs = [], wd_log = []\<rparr> =
     \<lparr>wd_items = [demo_task], wd_runs = [], wd_log = [\<lparr>tl_item = 7, tl_actor = None, tl_event = Tk_Proposed ''Fix it''\<rparr>]\<rparr>"
  by code_simp

lemma demo_title: "strip ''Fix it'' = ''Fix it''" by code_simp

lemma demo_drafted: "work_steps sandbox no_work (work_demo [demo_task] [] 1 [] Resting)"
proof -
  have "work_demo [demo_task] [] 1 [] Resting =
      no_work\<lparr>ww_db := ideas_store (\<lambda>_. 7) ''s1'' 1 (wc_allowlist sandbox) [demo_proposal] demo_cites (ww_db no_work)\<rparr>"
    using work_demo_store by (simp add: work_demo_def demo_logged_def no_work_def sandbox_def)
  then show ?thesis using work_step.Ideas [of sandbox no_work] by (metis r_into_rtranclp)
qed

lemma demo_approved: "work_step sandbox (work_demo [demo_task] [] 1 [] Resting) (work_demo [demo_frozen] [] 2 [] Resting)"
proof -
  let ?w = "work_demo [demo_task] [] 1 [] Resting"
  have "work_demo [demo_frozen] [] 2 [] Resting =
      ?w\<lparr>ww_db := task_request_do sandbox wi_title 10 7 demo_boss Ask_Approve (ww_db ?w)\<rparr>"
    by (simp add: work_demo_simps task_request_do_def task_approve_def task_change_def own_task_def task_of_def approval_problems_def
        demo_title Let_def put_task_def task_log_event_def)
  then show ?thesis using work_step.Review [of sandbox ?w] by metis
qed

lemma demo_gated: "work_step sandbox (work_demo [demo_frozen] [] 2 [] Resting) (work_demo [demo_frozen] [] 3 [demo_order] Resting)"
proof -
  have "work_demo [demo_frozen] [] 3 [demo_order] Resting = gate_world sandbox 7 demo_boss None (work_demo [demo_frozen] [] 2 [] Resting)"
    by (simp add: work_demo_simps gate_world_def dispatch_gate_def guidance_fault_def own_task_def task_of_def refusal_def Let_def task_log_event_def)
  then show ?thesis using work_step.Gate [of sandbox] by metis
qed

lemma demo_queued: "work_step sandbox (work_demo [demo_frozen] [] 3 [demo_order] Resting) (work_demo [demo_frozen] [demo_run] 3 [] Resting)"
proof -
  let ?w = "work_demo [demo_frozen] [] 3 [demo_order] Resting"
  have "work_demo [demo_frozen] [demo_run] 3 [] Resting = queue_world 3 0 ?w"
    by (simp add: work_demo_simps queue_world_def queue_run_def task_of_def runs_of_def last_run_def Let_def)
  moreover have "work_step sandbox ?w (queue_world 3 0 ?w)" by (rule work_step.Queue) (simp_all add: work_demo_def)
  ultimately show ?thesis by simp
qed

lemma demo_starting:
  "work_steps sandbox (work_demo [demo_frozen] [demo_run] 3 [] Resting) (work_demo [demo_frozen] [demo_run] 3 [] (Launching demo_launch []))"
proof -
  define w where "w = work_demo [demo_frozen] [demo_run] 3 [] Resting"
  have "work_step sandbox w (w\<lparr>ww_phase := Checking []\<rparr>)"
    using work_step.Tick [of w sandbox] by (simp add: w_def work_demo_def demo_run_def running_rows_def)
  moreover have "work_step sandbox (w\<lparr>ww_phase := Checking []\<rparr>) (w\<lparr>ww_phase := Starting [3]\<rparr>)"
    using work_step.Plan [of "w\<lparr>ww_phase := Checking []\<rparr>" sandbox]
    by (simp add: w_def work_demo_def demo_run_def start_plan_def running_rows_def sandbox_def)
  moreover have "work_step sandbox (w\<lparr>ww_phase := Starting [3]\<rparr>) (w\<lparr>ww_phase := Launching demo_launch []\<rparr>)"
    using work_step.Start [of "w\<lparr>ww_phase := Starting [3]\<rparr>" 3 "[]" sandbox 11]
    by (simp add: w_def work_demo_simps demo_launch_def start_world_def start_read_def run_of_def task_of_def text_or_def Let_def)
  ultimately have "work_steps sandbox w (w\<lparr>ww_phase := Launching demo_launch []\<rparr>)"
    by (meson r_into_rtranclp rtranclp_trans)
  then show ?thesis by (simp add: w_def work_demo_def)
qed

definition demo_running :: work_world where
  "demo_running = launch_world 12 fine_replies demo_launch [] (work_demo [demo_frozen] [demo_run] 3 [] (Launching demo_launch []))"

lemma demo_asked_steps: "work_steps sandbox no_work (work_demo [demo_frozen] [demo_run] 3 [] Resting)"
  using demo_drafted demo_approved demo_gated demo_queued by (meson rtranclp.rtrancl_into_rtrancl)

lemma demo_running_steps: "work_steps sandbox no_work demo_running"
proof -
  have "work_steps sandbox no_work (work_demo [demo_frozen] [demo_run] 3 [] (Launching demo_launch []))"
    using demo_asked_steps demo_starting by (rule rtranclp_trans)
  moreover have "work_step sandbox (work_demo [demo_frozen] [demo_run] 3 [] (Launching demo_launch [])) demo_running"
    unfolding demo_running_def by (rule work_step.Launch) (simp add: work_demo_def)
  ultimately show ?thesis by (rule rtranclp.rtrancl_into_rtrancl)
qed

lemma demo_running_jobs: "ww_jobs demo_running = [job_wanted demo_launch]" "jc_prompt (job_wanted demo_launch) = ''Fix it''"
  "started (ww_db demo_running) = 1"
  by (simp_all add: demo_running_def launch_world_def or_rest_def launch_end_def launch_calls_def fine_replies_def job_wanted_def
      demo_launch_def work_demo_def started_def running_rows_def put_run_def task_log_event_def started_row_def demo_run_def)

section \<open>Properties\<close>

text \<open>
  C5: no agent runs a prompt its owner did not approve. For every Job ever requested of Kubernetes there is a work item and a run of
  it such that the item's owner, signed in at the dashboard, approved a prompt and asked for a run of a prompt of the same hash; the
  Job's repository is that run's, on the allowlist and dispatchable on this server; and the Job is handed that approved prompt as it
  is, or, where the owner gave guidance, that prompt followed by the guidance. This holds whatever was edited, unapproved,
  merged or crashed in between.
\<close>

theorem jobs_carry_approved_prompts:
  assumes "work_steps cfg no_work w" "c \<in> set (ww_jobs w)"
  shows "\<exists>t \<in> set (wd_items (ww_db w)). \<exists>r \<in> set (wd_runs (ww_db w)). \<exists>p q repo.
     rn_id r = jc_run c \<and> rn_item r = tk_id t \<and> jc_name c = job_name (rn_id r) \<and> jc_repo c = rn_repo r \<and>
     jc_repo c \<in> set (wc_allowlist cfg) \<inter> set (wc_dispatchable cfg) \<and> wc_sha256 cfg q = wc_sha256 cfg p \<and>
     web_entry (tk_id t) (tk_user t) (Tk_Approved repo p (wc_sha256 cfg p)) \<in> set (wd_log (ww_db w)) \<and>
     web_entry (tk_id t) (tk_user t) (Tk_Dispatch_Requested (jc_repo c) q (wc_sha256 cfg q) (rn_guidance r)) \<in> set (wd_log (ww_db w)) \<and>
     (case rn_guidance r of None \<Rightarrow> jc_prompt c = p
      | Some g \<Rightarrow> \<exists>r0 prev. rn_guidance r0 = Some g \<and> rn_branch r0 = jc_branch c \<and> jc_prompt c = follow_up_prompt p r0 prev)"
proof -
  have "job_sound cfg (ww_db w) c" using work_steps_ok [OF assms(1)] assms(2) by (simp add: work_ok_def)
  then obtain la r where c: "c = job_wanted la" and s: "launch_sound cfg (ww_db w) la" and r: "r \<in> set (wd_runs (ww_db w))"
    and core: "run_core r = run_core (la_run la)" by (auto simp: job_sound_def)
  define x where "x = la_run la"
  define p where "p = la_prompt la"
  have k: "rn_id r = rn_id x" "rn_item r = rn_item x" "rn_repo r = rn_repo x" "rn_guidance r = rn_guidance x"
    using core by (simp_all add: run_core_def x_def)
  from s obtain prev where txtp: "la_text la = (if rn_guidance x = None then p else follow_up_prompt p x prev)"
    and sgn: "run_asked cfg (ww_db w) x" "owner_signed cfg (ww_db w) (rn_item x) p (rn_requested_by x)" "rn_prompt_sha256 x = wc_sha256 cfg p"
    unfolding launch_sound_def x_def p_def by blast
  from sgn(1) obtain t q where t: "t \<in> set (wd_items (ww_db w))" "tk_id t = rn_item x" "tk_user t = rn_requested_by x"
    and q: "rn_prompt_sha256 x = wc_sha256 cfg q"
      "web_entry (tk_id t) (tk_user t) (Tk_Dispatch_Requested (rn_repo x) q (rn_prompt_sha256 x) (rn_guidance x)) \<in> set (wd_log (ww_db w))"
    and repo: "rn_repo x \<in> set (wc_allowlist cfg) \<inter> set (wc_dispatchable cfg)"
    by (auto simp: run_asked_def asked_def owned_def)
  from sgn(2) t obtain rp where rp: "web_entry (tk_id t) (tk_user t) (Tk_Approved rp p (wc_sha256 cfg p)) \<in> set (wd_log (ww_db w))"
    by (auto simp: owner_signed_def)
  have "case rn_guidance r of None \<Rightarrow> jc_prompt c = p
      | Some g \<Rightarrow> \<exists>r0 prev. rn_guidance r0 = Some g \<and> rn_branch r0 = jc_branch c \<and> jc_prompt c = follow_up_prompt p r0 prev"
    using txtp k(4) by (auto simp: c job_wanted_def x_def split: option.split)
  then show ?thesis using t q repo rp k sgn(3) r unfolding c job_wanted_def x_def [symmetric]
    by (intro bexI [of _ t] bexI [of _ r] exI [of _ p] exI [of _ q] exI [of _ rp]) simp_all
qed

theorem jobs_carry_approved_prompts_witness:
  "\<exists>t \<in> set (wd_items (ww_db demo_running)). \<exists>p h repo.
     web_entry (tk_id t) (tk_user t) (Tk_Approved repo p h) \<in> set (wd_log (ww_db demo_running)) \<and>
     jc_repo (job_wanted demo_launch) \<in> set (wc_allowlist sandbox)"
  using jobs_carry_approved_prompts [OF demo_running_steps, of "job_wanted demo_launch"] demo_running_jobs(1) by fastforce

text \<open>
  C15: an item has at most one run at a time. Whatever is queued, started, cancelled, checked or lost in a crash, no item ever has two runs that are
  queued or running, and no two runs of an item have the same
  attempt number.
\<close>

theorem one_run_at_a_time:
  assumes "work_steps cfg no_work w" "r \<in> set (wd_runs (ww_db w))" "r' \<in> set (wd_runs (ww_db w))" "rn_item r = rn_item r'"
    "run_active r \<and> run_active r' \<or> rn_attempt r = rn_attempt r'"
  shows "r = r'"
proof -
  have b: "work_base_ok cfg (ww_db w)" using work_steps_ok [OF assms(1)] by (simp add: work_ok_def)
  from assms(5) show ?thesis
  proof
    assume "run_active r \<and> run_active r'"
    then show ?thesis using active_single [OF b assms(3) _ assms(2)] assms(4) by blast
  next
    assume "rn_attempt r = rn_attempt r'"
    then show ?thesis using b assms(2-4) by (auto simp: work_base_ok_def runs_ok_def distinct_map inj_on_def)
  qed
qed

theorem one_run_at_a_time_witness:
  "\<exists>r \<in> set (wd_runs (ww_db demo_running)). \<forall>r' \<in> set (wd_runs (ww_db demo_running)). rn_item r' = rn_item r \<and> rn_attempt r' = rn_attempt r \<longrightarrow> r' = r"
proof -
  obtain r where "r \<in> set (running_rows (ww_db demo_running))"
    using demo_running_jobs(3) by (cases "running_rows (ww_db demo_running)") (auto simp: started_def)
  then show ?thesis using one_run_at_a_time [OF demo_running_steps] by (auto simp: running_rows_def intro!: bexI [of _ r])
qed

text \<open>
  C29: the runs share one subscription within its cap. The number of rows that are running never exceeds the configured maximum, also while a tick
  works through the list of runs it decided to start.
\<close>

theorem running_capped:
  assumes "work_steps cfg no_work w"
  shows "length (running_rows (ww_db w)) \<le> wc_max_concurrent cfg"
  using work_steps_ok [OF assms] phase_capped by (auto simp: work_ok_def started_def)

theorem running_capped_witness: "length (running_rows (ww_db demo_running)) \<le> 1 \<and> started (ww_db demo_running) = 1"
  using running_capped [OF demo_running_steps] demo_running_jobs(3) by (simp add: sandbox_def)

text \<open>
  C16: the gate keeps no approved item back. An approved item, whose repository this server may dispatch to, passes the gate for its owner at the
  dashboard with exactly its frozen prompt: an item's approval cannot go stale while the configuration stays, whatever the ideas pass, edits, merges and
  reopening did. The refusals for a changed prompt, another approver or a repository off the allowlist never occur.
\<close>

theorem approved_passes_gate:
  assumes "work_steps cfg no_work w" "t \<in> set (wd_items (ww_db w))" "wi_state t = WorkItems.Approved" "tk_prompt_md t \<noteq> Some []"
    "ac_kind actor = Web" "ac_user actor = tk_user t" "wi_repo t \<in> Some ` set (wc_dispatchable cfg)" "wc_dispatcher cfg"
    "\<And>p. wc_sha256 cfg p \<noteq> []"
  shows "fst (dispatch_gate cfg (tk_id t) actor None (ww_db w)) =
     Inr \<lparr>do_item = tk_id t, do_repo = the (wi_repo t), do_prompt = the (tk_prompt_md t), do_sha256 = wc_sha256 cfg (the (tk_prompt_md t)),
          do_actor = actor, do_guidance = None\<rparr>"
proof -
  have i: "items_ok cfg (ww_db w)" using work_steps_ok [OF assms(1)] by (simp add: work_ok_def work_base_ok_def)
  then have "task_sound cfg (set (wd_log (ww_db w))) t" using assms(2) by (simp add: items_ok_def)
  then obtain p r where p: "tk_prompt_md t = Some p" "p \<noteq> []" "tk_prompt_sha256 t = Some (wc_sha256 cfg p)"
    "tk_approved_by t = Some (tk_user t)" "wi_repo t = Some r" "r \<noteq> []" "r \<in> set (wc_allowlist cfg)"
    using assms(3,4) by (auto simp: task_sound_def split: option.splits)
  have "refusal cfg t actor = None" using p assms(3,5-9) by (auto simp: refusal_def)
  moreover have "own_task (ww_db w) (tk_id t) (ac_user actor) = Inr t"
  proof -
    have "task_of (ww_db w) (tk_id t) = Some t"
      using assms(2) task_only [of "ww_db w" t] i find_None_iff [of "\<lambda>x. tk_id x = tk_id t"]
      by (cases "task_of (ww_db w) (tk_id t)") (auto simp: items_ok_def task_of_def dest: find_in)
    then show ?thesis using assms(6) by (simp add: own_task_def)
  qed
  ultimately show ?thesis using assms(8) p by (simp add: dispatch_gate_def guidance_fault_def Let_def)
qed

theorem approved_passes_gate_witness:
  "\<exists>x. fst (dispatch_gate sandbox 7 demo_boss None (ww_db (work_demo [demo_frozen] [demo_run] 3 [] Resting))) = Inr x \<and> do_prompt x = ''Fix it''"
proof -
  have "\<And>p. wc_sha256 sandbox p \<noteq> []" by (simp add: sandbox_def)
  from approved_passes_gate [OF demo_asked_steps, of demo_frozen demo_boss, OF _ _ _ _ _ _ _ this] show ?thesis
    by (simp add: work_demo_simps)
qed

text \<open>
  A reply that is lost, such as a timeout of the request that creates the Job: the run stays queued and nothing is recorded, while the Job may
  have been created. The next attempt finds the Secret there (409), deletes the Secret the Job reads its prompt and token
  from and records the run as failed, beside the Job.
\<close>

lemma lost_job_reply:
  assumes "lr_token re = Answer ()" "lr_secret re = Answer ()" "lr_job re = No_Answer"
  shows "launch_world now re la rest w = w\<lparr>ww_jobs := ww_jobs w @ [job_wanted la], ww_phase := Resting\<rparr>"
  using assms by (simp add: launch_world_def or_rest_def launch_end_def launch_calls_def job_wanted_def)

lemma retried_start_fails:
  assumes "lr_token re = Answer ()" "lr_secret re = Error_Answer e" "lr_cleanup re = Answer ()"
  shows "launch_end now la re db = Some (task_log_event (rn_item (la_run la)) (Tk_Dispatch_Finished (rn_id (la_run la)) ''failed'') None
     (put_run (ended_row now (Ended ''failed'') (plain_result ''failed'' e) (la_run la)) db)) \<and> launch_calls la re = []"
  using assms by (simp add: launch_end_def kube_failed_def end_run_def plain_result_def text_or_def run_state_of_def END_STATES_def launch_calls_def)

end
