(* ===== verification/Publishing.thy ===== *)
theory Publishing
  imports Proposals
begin

text \<open>
  Publishing a session's note to the vault repository (\<open>publish/service.py\<close>, \<open>finalize/outbox.py\<close>): one publication row,
  one branch and one pull request per session. Everything happens under the session's lock, so an operation is a
  function of the world of one session. What GitHub answers is an argument: any answer, an error, or none at all
  because the process ended there. The calls that change something on GitHub are kept in the order they were made.
\<close>

section \<open>The world of one session\<close>

record vault_user =
  vu_id :: nat
  vu_admin :: bool
  vu_auto_publish :: bool

definition OWNER_USER_ID :: nat where "OWNER_USER_ID = 1"

definition may_publish_for :: "vault_user \<Rightarrow> bool" where
  "may_publish_for u \<longleftrightarrow> vu_id u = OWNER_USER_ID \<or> vu_admin u"

record note_session =
  ns_user :: vault_user
  ns_deleted :: bool
  ns_restricted :: bool
  ns_status :: string
  ns_title :: "string option"
  ns_started_at :: int

datatype pub_state = Pub_Publishing | Pub_Open | Pub_Merged | Pub_Closed | Pub_Skipped | Pub_Failed

record publication =
  pb_state :: pub_state
  pb_repo_path :: "string option"
  pb_branch :: "string option"
  pb_pr_number :: "nat option"
  pb_pr_url :: "string option"
  pb_head_sha :: "string option"
  pb_content_sha256 :: "string option"
  pb_last_error :: "string option"
  pb_published_by :: "nat option"
  pb_merged_at :: "int option"

record pull_request =
  pq_number :: nat
  pq_url :: string
  pq_state :: string
  pq_merged :: bool
  pq_head_sha :: string
  pq_mergeable :: "bool option"

datatype 'a reply = Reply 'a | Gh_Error nat string | Gone

datatype gh_call =
    Gh_Ensure string string "unit reply"
  | Gh_Put string string string "string reply"
  | Gh_Open string string "pull_request reply"
  | Gh_Merge nat string string "unit reply"
  | Gh_Close nat "pull_request reply"
  | Gh_Delete string "unit reply"

record pub_world =
  pw_id :: string
  pw_session :: "note_session option"
  pw_note :: "(string \<times> string) option"
  pw_files :: "string list \<Rightarrow> string option"
  pw_pub :: "publication option"
  pw_refreshed :: real
  pw_calls :: "gh_call list"

record pub_config =
  pc_enabled :: bool
  pc_sha256 :: "string \<Rightarrow> string"
  pc_subdir :: string
  pc_branch_prefix :: string
  pc_base_branch :: string
  pc_local_day :: "int \<Rightarrow> string"

datatype pub_fault = Publish_Error nat string | Assertion | Other_Exception

definition MAX_NOTE_BYTES :: nat where "MAX_NOTE_BYTES = 1000000"
definition REFRESH_MIN_INTERVAL_S :: real where "REFRESH_MIN_INTERVAL_S = 30"

definition gh_text :: "nat \<Rightarrow> string \<Rightarrow> string" where
  "gh_text status message = (if status = 0 then message else ''GitHub '' @ dec_str status @ '': '' @ message)"

definition called :: "gh_call \<Rightarrow> pub_world \<Rightarrow> pub_world" where
  "called c w = w\<lparr>pw_calls := pw_calls w @ [c]\<rparr>"

definition set_pub :: "publication option \<Rightarrow> pub_world \<Rightarrow> pub_world" where
  "set_pub p w = w\<lparr>pw_pub := p\<rparr>"

definition truthy :: "string option \<Rightarrow> bool" where
  "truthy s \<longleftrightarrow> s \<noteq> None \<and> s \<noteq> Some []"

definition str_or :: "string option \<Rightarrow> string \<Rightarrow> string" where
  "str_or s d = (case s of None \<Rightarrow> d | Some t \<Rightarrow> if t = [] then d else t)"

section \<open>The outbox\<close>

definition note_file :: "string \<Rightarrow> string list option" where
  "note_file name =
     (if name = [] \<or> path_parts name = [] \<or> length (path_parts name) > 2 \<or> ''..'' \<in> set (path_parts name) \<or> is_absolute name
      then None else Some (path_parts name))"

definition read_note :: "(string list \<Rightarrow> string option) \<Rightarrow> string \<Rightarrow> string option" where
  "read_note files name = (case note_file name of None \<Rightarrow> None | Some path \<Rightarrow> files path)"

text \<open>What \<open>publish\<close> works on: the session, the note's path, its title and its text.\<close>

definition load_note :: "pub_world \<Rightarrow> pub_fault + (note_session \<times> string \<times> string \<times> string)" where
  "load_note w = (case pw_session w of
     None \<Rightarrow> Inl (Publish_Error 404 ''session not found'')
   | Some s \<Rightarrow>
       if ns_deleted s then Inl (Publish_Error 404 ''session not found'')
       else if ns_restricted s then Inl (Publish_Error 409 ''this session is restricted and is never published'')
       else if \<not> may_publish_for (ns_user s) then Inl (Publish_Error 409 ''only the owner's and admins' notes are published'')
       else (case pw_note w of
         None \<Rightarrow> Inl (Publish_Error 409 ''this session has no note'')
       | Some (path, title) \<Rightarrow> (case read_note (pw_files w) path of
           None \<Rightarrow> Inl (Publish_Error 409 ''the note is no longer in the outbox'')
         | Some text \<Rightarrow> Inr (s, path, str_or (ns_title s) title, text))))"

section \<open>Naming\<close>

definition repo_path_of :: "pub_config \<Rightarrow> string \<Rightarrow> string" where
  "repo_path_of cfg path = (if pc_subdir cfg = [] then path else pc_subdir cfg @ ''/'' @ path)"

definition branch_of :: "pub_config \<Rightarrow> string \<Rightarrow> note_session \<Rightarrow> string" where
  "branch_of cfg sid s =
     pc_branch_prefix cfg @ pc_local_day cfg (ns_started_at s) @ ''-'' @ take 8 (filter (\<lambda>c. c \<noteq> CHR ''-'') sid)"

section \<open>Publishing\<close>

definition check_actor :: "pub_config \<Rightarrow> vault_user \<Rightarrow> pub_fault option" where
  "check_actor cfg actor =
     (if \<not> pc_enabled cfg then Some (Publish_Error 503 ''publishing is not configured'')
      else if \<not> may_publish_for actor then Some (Publish_Error 403 ''only the owner and admins publish notes'')
      else None)"

definition and_then :: "'a reply \<times> pub_world \<Rightarrow> ('a \<Rightarrow> pub_world \<Rightarrow> 'b reply \<times> pub_world) \<Rightarrow> 'b reply \<times> pub_world" where
  "and_then r f = (case r of
     (Reply x, w) \<Rightarrow> f x w
   | (Gh_Error status message, w) \<Rightarrow> (Gh_Error status message, w)
   | (Gone, w) \<Rightarrow> (Gone, w))"

text \<open>The answers to \<open>branch_head\<close>, \<open>ensure_branch\<close>, \<open>file_sha\<close>, \<open>put_file\<close> and \<open>open_pr\<close>.\<close>

record publish_replies =
  re_base :: "string reply"
  re_ensure :: "unit reply"
  re_blob :: "string option reply"
  re_put :: "string reply"
  re_open :: "pull_request reply"

definition open_on_github :: "string \<Rightarrow> string \<Rightarrow> string \<Rightarrow> string \<Rightarrow> publish_replies \<Rightarrow> pub_world \<Rightarrow> (string \<times> pull_request) reply \<times> pub_world" where
  "open_on_github repo_path branch title text re w =
     and_then (re_base re, w) (\<lambda>base w.
     and_then (re_ensure re, called (Gh_Ensure branch base (re_ensure re)) w) (\<lambda>_ w.
     and_then (re_blob re, w) (\<lambda>blob w.
     and_then (re_put re, called (Gh_Put repo_path branch text (re_put re)) w) (\<lambda>commit w.
     and_then (re_open re, called (Gh_Open branch (''jarvis-live: '' @ title) (re_open re)) w) (\<lambda>pr w.
     (Reply (commit, pr), w))))))"

definition new_publication :: "pub_state \<Rightarrow> publication" where
  "new_publication st = \<lparr>pb_state = st, pb_repo_path = None, pb_branch = None, pb_pr_number = None, pb_pr_url = None,
     pb_head_sha = None, pb_content_sha256 = None, pb_last_error = None, pb_published_by = None, pb_merged_at = None\<rparr>"

definition fail_publication :: "string \<Rightarrow> pub_world \<Rightarrow> pub_world" where
  "fail_publication error w = (case pw_pub w of
     None \<Rightarrow> w | Some p \<Rightarrow> set_pub (Some (p\<lparr>pb_state := Pub_Failed, pb_last_error := Some (take 2000 error)\<rparr>)) w)"

definition publish_refusal :: "pub_config \<Rightarrow> note_session \<Rightarrow> string \<Rightarrow> publication option \<Rightarrow> pub_fault option" where
  "publish_refusal cfg s text pub =
     (if ns_status s \<notin> {''done'', ''failed''} then Some (Publish_Error 409 ''the session is not finished'')
      else (case pub of
        None \<Rightarrow> None
      | Some p \<Rightarrow>
          if pb_state p = Pub_Open then Some (Publish_Error 409 ''a pull request is already open'')
          else if pb_state p = Pub_Merged \<and> pb_content_sha256 p = Some (pc_sha256 cfg text)
          then Some (Publish_Error 409 ''already merged, and unchanged since'')
          else None))"

definition publishing_row :: "pub_config \<Rightarrow> vault_user \<Rightarrow> string \<Rightarrow> note_session \<Rightarrow> string \<Rightarrow> publication option \<Rightarrow> publication" where
  "publishing_row cfg actor sid s path pub =
     (let p = (case pub of None \<Rightarrow> new_publication Pub_Publishing | Some p \<Rightarrow> p)
      in p\<lparr>pb_state := Pub_Publishing, pb_repo_path := Some (str_or (pb_repo_path p) (repo_path_of cfg path)),
           pb_branch := Some (branch_of cfg sid s), pb_published_by := Some (vu_id actor), pb_last_error := None,
           pb_pr_number := None, pb_pr_url := None, pb_head_sha := None\<rparr>)"

definition publish :: "pub_config \<Rightarrow> vault_user \<Rightarrow> publish_replies \<Rightarrow> pub_world \<Rightarrow> (pub_fault + publication) \<times> pub_world" where
  "publish cfg actor re w = (case check_actor cfg actor of
     Some e \<Rightarrow> (Inl e, w)
   | None \<Rightarrow> (case load_note w of
       Inl e \<Rightarrow> (Inl e, w)
     | Inr (s, path, title, text) \<Rightarrow> (case publish_refusal cfg s text (pw_pub w) of
         Some e \<Rightarrow> (Inl e, w)
       | None \<Rightarrow>
           (let p = publishing_row cfg actor (pw_id w) s path (pw_pub w);
                (out, w1) = open_on_github (the (pb_repo_path p)) (the (pb_branch p)) title text re (set_pub (Some p) w)
            in case out of
                 Gone \<Rightarrow> (Inl Other_Exception, w1)
               | Gh_Error status message \<Rightarrow>
                   (Inl (Publish_Error 502 (gh_text status message)), fail_publication (gh_text status message) w1)
               | Reply (commit, pr) \<Rightarrow>
                   (let p' = p\<lparr>pb_state := Pub_Open, pb_pr_number := Some (pq_number pr), pb_pr_url := Some (pq_url pr),
                          pb_head_sha := Some commit, pb_content_sha256 := Some (pc_sha256 cfg text), pb_merged_at := None\<rparr>
                    in (Inr p', set_pub (Some p') w1))))))"

section \<open>Editing the note\<close>

definition utf8_length :: "string \<Rightarrow> nat" where
  "utf8_length s = sum_list (map (\<lambda>c. if (of_char c :: nat) < 128 then 1 else 2) s)"

text \<open>\<open>_push\<close>: \<open>blob\<close> and \<open>put\<close> are the answers to \<open>file_sha\<close> and \<open>put_file\<close>.\<close>

definition push_edit ::
  "pub_config \<Rightarrow> publication \<Rightarrow> string \<Rightarrow> string option reply \<Rightarrow> string reply \<Rightarrow> pub_world \<Rightarrow> (pub_fault + publication option) \<times> pub_world" where
  "push_edit cfg pub text blob put w =
     (if \<not> pc_enabled cfg then (Inl (Publish_Error 503 ''publishing is not configured''), w)
      else if \<not> truthy (pb_repo_path pub) \<or> \<not> truthy (pb_branch pub) then (Inl Assertion, w)
      else (let (out, w1) = and_then (blob, w) (\<lambda>_ w.
                  (put, called (Gh_Put (the (pb_repo_path pub)) (the (pb_branch pub)) text put) w))
            in case out of
                 Gone \<Rightarrow> (Inl Other_Exception, w1)
               | Gh_Error status message \<Rightarrow>
                   (let e = gh_text status message
                    in (Inl (Publish_Error 502 (''saved, but pushing the edit failed: '' @ e)),
                        set_pub (map_option (\<lambda>p. p\<lparr>pb_last_error := Some (take 2000 (''pushing the edit failed: '' @ e))\<rparr>) (pw_pub w1)) w1))
               | Reply commit \<Rightarrow> (case pw_pub w1 of
                   None \<Rightarrow> (Inl Assertion, w1)
                 | Some p \<Rightarrow>
                     (let p' = p\<lparr>pb_head_sha := Some commit, pb_content_sha256 := Some (pc_sha256 cfg text), pb_last_error := None\<rparr>
                      in (Inr (Some p'), set_pub (Some p') w1)))))"

definition edit_note ::
  "pub_config \<Rightarrow> string \<Rightarrow> string option reply \<Rightarrow> string reply \<Rightarrow> pub_world \<Rightarrow> (pub_fault + publication option) \<times> pub_world" where
  "edit_note cfg text blob put w =
     (if utf8_length text > MAX_NOTE_BYTES then (Inl (Publish_Error 413 ''the note is too large''), w)
      else if \<not> contains text (''session_id: '' @ pw_id w)
      then (Inl (Publish_Error 422 (''keep the frontmatter line `session_id: '' @ pw_id w @ ''`'')), w)
      else (case pw_session w of
        None \<Rightarrow> (Inl (Publish_Error 404 ''session not found''), w)
      | Some s \<Rightarrow>
          if ns_status s \<notin> {''done'', ''failed''} then (Inl (Publish_Error 409 ''the note is being written''), w)
          else (case pw_note w of
            None \<Rightarrow> (Inl (Publish_Error 409 ''this session has no note''), w)
          | Some (path, title) \<Rightarrow> (case note_file path of
              None \<Rightarrow> (Inl (Publish_Error 409 ''the note is no longer in the outbox''), w)
            | Some target \<Rightarrow>
                (let w1 = w\<lparr>pw_files := (pw_files w)(target := Some text)\<rparr>
                 in case pw_pub w1 of
                      None \<Rightarrow> (Inr None, w1)
                    | Some p \<Rightarrow> if pb_state p \<noteq> Pub_Open then (Inr (Some p), w1) else push_edit cfg p text blob put w1)))))"

section \<open>Merging, closing, skipping\<close>

text \<open>\<open>_settle\<close>, \<open>_drop_branch\<close> and \<open>_open_pub\<close>. An error of GitHub is logged by \<open>_drop_branch\<close>; \<open>None\<close> is any other end.\<close>

definition settle_pub :: "int \<Rightarrow> pull_request \<Rightarrow> pub_world \<Rightarrow> (pub_fault + publication) \<times> pub_world" where
  "settle_pub now pr w = (case pw_pub w of
     None \<Rightarrow> (Inl Assertion, w)
   | Some p \<Rightarrow>
       (let p' = (if pq_merged pr then p\<lparr>pb_state := Pub_Merged, pb_merged_at := Some (case pb_merged_at p of None \<Rightarrow> now | Some t \<Rightarrow> t)\<rparr>
                  else if pq_state pr \<noteq> ''open'' then p\<lparr>pb_state := Pub_Closed\<rparr> else p)
        in (Inr p', set_pub (Some p') w)))"

definition drop_branch :: "string \<Rightarrow> unit reply \<Rightarrow> pub_world \<Rightarrow> pub_world option \<times> pub_world" where
  "drop_branch branch re w =
     (let w1 = called (Gh_Delete branch re) w in (if re = Gone then None else Some w1, w1))"

definition open_pub :: "pub_world \<Rightarrow> pub_fault + publication \<times> string" where
  "open_pub w = (case pw_pub w of
     None \<Rightarrow> Inl (Publish_Error 409 ''no open pull request'')
   | Some p \<Rightarrow>
       if pb_state p \<noteq> Pub_Open then Inl (Publish_Error 409 ''no open pull request'')
       else (let note_title = (case pw_note w of None \<Rightarrow> ''note'' | Some (_, t) \<Rightarrow> if t = [] then ''note'' else t)
             in Inr (p, case pw_session w of None \<Rightarrow> note_title | Some s \<Rightarrow> str_or (ns_title s) note_title)))"

text \<open>The answers to \<open>get_pr\<close>, to at most two attempts at the merge, and to the deletion of the branch.\<close>

record merge_replies =
  rm_pr :: "pull_request reply"
  rm_first :: "unit reply"
  rm_second :: "unit reply"
  rm_delete :: "unit reply"

definition merge_calls :: "nat \<Rightarrow> string \<Rightarrow> string \<Rightarrow> pull_request \<Rightarrow> merge_replies \<Rightarrow> pub_world \<Rightarrow> unit reply \<times> pub_world" where
  "merge_calls number head title pr re w =
     (let w1 = called (Gh_Merge number head title (rm_first re)) w
      in case rm_first re of
           Gh_Error status message \<Rightarrow>
             if status = 405 \<and> pq_mergeable pr = None
             then (rm_second re, called (Gh_Merge number head title (rm_second re)) w1)
             else (Gh_Error status message, w1)
         | first \<Rightarrow> (first, w1))"

definition merge_title :: "string \<Rightarrow> nat \<Rightarrow> string" where
  "merge_title title number = ''jarvis-live: '' @ title @ '' (#'' @ dec_str number @ '')''"

definition merge_pub ::
  "pub_config \<Rightarrow> int \<Rightarrow> vault_user \<Rightarrow> merge_replies \<Rightarrow> pub_world \<Rightarrow> (pub_fault + publication) \<times> pub_world" where
  "merge_pub cfg now actor re w = (case check_actor cfg actor of
     Some e \<Rightarrow> (Inl e, w)
   | None \<Rightarrow> (case open_pub w of
       Inl e \<Rightarrow> (Inl e, w)
     | Inr (pub, title) \<Rightarrow>
         if pb_pr_number pub = None \<or> \<not> truthy (pb_head_sha pub) \<or> \<not> truthy (pb_branch pub) then (Inl Assertion, w)
         else (case rm_pr re of
           Gone \<Rightarrow> (Inl Other_Exception, w)
         | Gh_Error status message \<Rightarrow> (Inl (Publish_Error 502 (gh_text status message)), w)
         | Reply pr \<Rightarrow>
             if pq_merged pr \<or> pq_state pr \<noteq> ''open'' then settle_pub now pr w
             else if Some (pq_head_sha pr) \<noteq> pb_head_sha pub
             then (Inl (Publish_Error 409 ''the pull request changed on GitHub; review it there before merging''), w)
             else (case merge_calls (the (pb_pr_number pub)) (the (pb_head_sha pub)) (merge_title title (the (pb_pr_number pub))) pr re w of
               (Gone, w1) \<Rightarrow> (Inl Other_Exception, w1)
             | (Gh_Error status message, w1) \<Rightarrow>
                 (Inl (Publish_Error (if status \<in> {405, 409} then 409 else 502) (gh_text status message)), w1)
             | (Reply _, w1) \<Rightarrow> (case drop_branch (the (pb_branch pub)) (rm_delete re) w1 of
                 (None, w2) \<Rightarrow> (Inl Other_Exception, w2)
               | (Some w2, _) \<Rightarrow> (case pw_pub w2 of
                   None \<Rightarrow> (Inl Assertion, w2)
                 | Some p \<Rightarrow>
                     (let p' = p\<lparr>pb_state := Pub_Merged, pb_merged_at := Some now, pb_last_error := None\<rparr>
                      in (Inr p', set_pub (Some p') w2))))))))"

definition close_locked :: "int \<Rightarrow> pull_request reply \<Rightarrow> unit reply \<Rightarrow> pub_world \<Rightarrow> (pub_fault + publication) \<times> pub_world" where
  "close_locked now shut deleted w = (case open_pub w of
     Inl e \<Rightarrow> (Inl e, w)
   | Inr (pub, _) \<Rightarrow>
       if pb_pr_number pub = None \<or> \<not> truthy (pb_branch pub) then (Inl Assertion, w)
       else (let w1 = called (Gh_Close (the (pb_pr_number pub)) shut) w
             in case shut of
                  Gone \<Rightarrow> (Inl Other_Exception, w1)
                | Gh_Error status message \<Rightarrow> (Inl (Publish_Error 502 (gh_text status message)), w1)
                | Reply pr \<Rightarrow> (case drop_branch (the (pb_branch pub)) deleted w1 of
                    (None, w2) \<Rightarrow> (Inl Other_Exception, w2)
                  | (Some w2, _) \<Rightarrow> settle_pub now pr w2)))"

definition close_pub ::
  "pub_config \<Rightarrow> int \<Rightarrow> vault_user \<Rightarrow> pull_request reply \<Rightarrow> unit reply \<Rightarrow> pub_world \<Rightarrow> (pub_fault + publication) \<times> pub_world" where
  "close_pub cfg now actor shut deleted w = (case check_actor cfg actor of
     Some e \<Rightarrow> (Inl e, w) | None \<Rightarrow> close_locked now shut deleted w)"

definition mark_skipped :: "pub_world \<Rightarrow> (pub_fault + publication) \<times> pub_world" where
  "mark_skipped w =
     (let p = (case pw_pub w of None \<Rightarrow> new_publication Pub_Skipped | Some p \<Rightarrow> p);
          p' = p\<lparr>pb_state := Pub_Skipped, pb_last_error := None\<rparr>
      in (Inr p', set_pub (Some p') w))"

definition skip_pub ::
  "pub_config \<Rightarrow> int \<Rightarrow> vault_user \<Rightarrow> pull_request reply \<Rightarrow> unit reply \<Rightarrow> pub_world \<Rightarrow> (pub_fault + publication) \<times> pub_world" where
  "skip_pub cfg now actor shut deleted w =
     (if \<not> may_publish_for actor then (Inl (Publish_Error 403 ''only the owner and admins publish notes''), w)
      else (case pw_session w of
        None \<Rightarrow> (Inl (Publish_Error 404 ''session not found''), w)
      | Some s \<Rightarrow>
          if \<not> may_publish_for (ns_user s) then (Inl (Publish_Error 409 ''only the owner's and admins' notes are published''), w)
          else (case map_option pb_state (pw_pub w) of
            Some Pub_Merged \<Rightarrow> (Inl (Publish_Error 409 ''already merged into the vault''), w)
          | Some Pub_Open \<Rightarrow>
              if \<not> pc_enabled cfg then (Inl (Publish_Error 503 ''publishing is not configured''), w)
              else (case close_locked now shut deleted w of
                (Inl e, w1) \<Rightarrow> (Inl e, w1)
              | (Inr _, w1) \<Rightarrow> mark_skipped w1)
          | _ \<Rightarrow> mark_skipped w)))"

definition unskip_pub :: "vault_user \<Rightarrow> pub_world \<Rightarrow> (pub_fault + publication option) \<times> pub_world" where
  "unskip_pub actor w =
     (if \<not> may_publish_for actor then (Inl (Publish_Error 403 ''only the owner and admins publish notes''), w)
      else (case pw_pub w of
        None \<Rightarrow> (Inl (Publish_Error 409 ''the note is not skipped''), w)
      | Some p \<Rightarrow>
          if pb_state p \<noteq> Pub_Skipped then (Inl (Publish_Error 409 ''the note is not skipped''), w)
          else if pb_pr_number p = None then (Inr None, set_pub None w)
          else (Inr (Some (p\<lparr>pb_state := Pub_Closed\<rparr>)), set_pub (Some (p\<lparr>pb_state := Pub_Closed\<rparr>)) w)))"

section \<open>Keeping up with GitHub\<close>

text \<open>\<open>refresh\<close>: \<open>now\<close> is the monotonic clock, \<open>today\<close> the time of day. \<open>None\<close> is an exception that leaves it.\<close>

definition refresh_pub ::
  "pub_config \<Rightarrow> real \<Rightarrow> int \<Rightarrow> bool \<Rightarrow> pull_request reply \<Rightarrow> unit reply \<Rightarrow> pub_world \<Rightarrow> unit option \<times> pub_world" where
  "refresh_pub cfg now today force got deleted w =
     (if \<not> pc_enabled cfg then (Some (), w)
      else if \<not> force \<and> now - pw_refreshed w < REFRESH_MIN_INTERVAL_S then (Some (), w)
      else (let w1 = w\<lparr>pw_refreshed := now\<rparr>
            in case pw_pub w1 of
                 None \<Rightarrow> (Some (), w1)
               | Some p \<Rightarrow>
                   if pb_state p \<noteq> Pub_Open \<or> pb_pr_number p = None then (Some (), w1)
                   else (case got of
                     Gone \<Rightarrow> (None, w1)
                   | Gh_Error _ _ \<Rightarrow> (Some (), w1)
                   | Reply pr \<Rightarrow>
                       if \<not> pq_merged pr \<and> pq_state pr = ''open'' then (Some (), w1)
                       else (let w2 = snd (settle_pub today pr w1)
                             in if truthy (pb_branch p)
                                then (case drop_branch (the (pb_branch p)) deleted w2 of
                                  (None, w3) \<Rightarrow> (None, w3) | (Some w3, _) \<Rightarrow> (Some (), w3))
                                else (Some (), w2)))))"

text \<open>\<open>on_note_ready\<close>: a refusal of \<open>publish\<close> is only logged.\<close>

definition on_note_ready :: "pub_config \<Rightarrow> publish_replies \<Rightarrow> pub_world \<Rightarrow> pub_world" where
  "on_note_ready cfg re w =
     (if \<not> pc_enabled cfg then w
      else (case pw_session w of
        None \<Rightarrow> w
      | Some s \<Rightarrow>
          if \<not> vu_auto_publish (ns_user s) \<or> \<not> may_publish_for (ns_user s) \<or> pw_pub w \<noteq> None then w
          else if ns_restricted s then w
          else snd (publish cfg (ns_user s) re w)))"

text \<open>Which list of the dashboard's queue a session stands in.\<close>

datatype queue_list = Queue_Ready | Queue_Open | Queue_Recent

definition queue_of :: "pub_world \<Rightarrow> queue_list option" where
  "queue_of w = (case (pw_session w, pw_note w) of
     (Some s, Some _) \<Rightarrow>
       if \<not> may_publish_for (ns_user s) \<or> ns_restricted s \<or> ns_deleted s then None
       else (case pw_pub w of
         None \<Rightarrow> if ns_status s = ''done'' then Some Queue_Ready else None
       | Some p \<Rightarrow> if pb_state p \<in> {Pub_Open, Pub_Publishing} then Some Queue_Open else Some Queue_Recent)
   | _ \<Rightarrow> None)"

section \<open>Runs\<close>

text \<open>
  One step: an operation with any actor and any answers, or something outside the publisher that changes the session, its
  recorded note or the outbox (the finalizer, a regeneration, a deletion, a lifted restriction). A session is restricted
  from its creation or never; a commit GitHub reports has a name.
\<close>

definition named :: "string reply \<Rightarrow> bool" where "named r \<longleftrightarrow> r \<noteq> Reply []"

definition may_become :: "note_session option \<Rightarrow> note_session option \<Rightarrow> bool" where
  "may_become s s' \<longleftrightarrow> (\<forall>b. s' = Some b \<longrightarrow> (\<exists>a. s = Some a \<and> (ns_restricted b \<longrightarrow> ns_restricted a)))"

inductive pub_step :: "pub_config \<Rightarrow> pub_world \<Rightarrow> pub_world \<Rightarrow> bool" for cfg where
  Publish: "named (re_put re) \<Longrightarrow> publish cfg actor re w = (out, w') \<Longrightarrow> pub_step cfg w w'"
| Edit: "named put \<Longrightarrow> edit_note cfg text blob put w = (res, w') \<Longrightarrow> pub_step cfg w w'"
| Merge: "merge_pub cfg now actor rm w = (out, w') \<Longrightarrow> pub_step cfg w w'"
| Close: "close_pub cfg now actor shut deleted w = (out, w') \<Longrightarrow> pub_step cfg w w'"
| Skip: "skip_pub cfg now actor shut deleted w = (out, w') \<Longrightarrow> pub_step cfg w w'"
| Unskip: "unskip_pub actor w = (res, w') \<Longrightarrow> pub_step cfg w w'"
| Refresh: "refresh_pub cfg clock now force got deleted w = (ended, w') \<Longrightarrow> pub_step cfg w w'"
| Ready: "named (re_put re) \<Longrightarrow> on_note_ready cfg re w = w' \<Longrightarrow> pub_step cfg w w'"
| Outside: "may_become (pw_session w) s \<Longrightarrow> pub_step cfg w (w\<lparr>pw_session := s, pw_note := note, pw_files := files\<rparr>)"

definition unpublished :: "pub_world \<Rightarrow> bool" where
  "unpublished w \<longleftrightarrow> pw_pub w = None \<and> pw_calls w = []"

text \<open>What the last successful \<open>put_file\<close> wrote, and where.\<close>

fun after_call :: "gh_call \<Rightarrow> (string \<times> string \<times> string \<times> string) option \<Rightarrow> (string \<times> string \<times> string \<times> string) option" where
  "after_call (Gh_Put path branch text (Reply commit)) p = Some (path, branch, text, commit)"
| "after_call _ p = p"

definition last_push :: "gh_call list \<Rightarrow> (string \<times> string \<times> string \<times> string) option" where
  "last_push calls = fold after_call calls None"

definition open_row_ok :: "pub_config \<Rightarrow> gh_call list \<Rightarrow> publication \<Rightarrow> bool" where
  "open_row_ok cfg calls p \<longleftrightarrow> pb_pr_number p \<noteq> None \<and>
     (\<exists>path branch text head. path \<noteq> [] \<and> branch \<noteq> [] \<and> head \<noteq> [] \<and> pb_repo_path p = Some path \<and> pb_branch p = Some branch \<and>
        pb_head_sha p = Some head \<and> pb_content_sha256 p = Some (pc_sha256 cfg text) \<and> last_push calls = Some (path, branch, text, head))"

definition row_sound :: "pub_config \<Rightarrow> gh_call list \<Rightarrow> publication option \<Rightarrow> bool" where
  "row_sound cfg calls pub \<longleftrightarrow> (\<forall>p. pub = Some p \<longrightarrow> pb_state p = Pub_Open \<longrightarrow> open_row_ok cfg calls p)"

definition merges_ok :: "gh_call list \<Rightarrow> bool" where
  "merges_ok calls \<longleftrightarrow> (\<forall>before n head title r later. calls = before @ Gh_Merge n head title r # later \<longrightarrow>
     (\<exists>path branch text. last_push before = Some (path, branch, text, head)))"

definition pub_ok :: "pub_config \<Rightarrow> pub_world \<Rightarrow> bool" where
  "pub_ok cfg w \<longleftrightarrow> row_sound cfg (pw_calls w) (pw_pub w) \<and> merges_ok (pw_calls w)"

lemma pub_world_sel [simp]:
  "pw_calls (called c w) = pw_calls w @ [c]" "pw_pub (called c w) = pw_pub w" "pw_session (called c w) = pw_session w"
  "pw_calls (set_pub p w) = pw_calls w" "pw_pub (set_pub p w) = p" "pw_session (set_pub p w) = pw_session w"
  by (simp_all add: called_def set_pub_def)

lemma last_push_append [simp]: "last_push (xs @ ys) = fold after_call ys (last_push xs)"
  by (simp add: last_push_def)

lemma merges_snoc:
  "merges_ok (calls @ [c]) \<longleftrightarrow> merges_ok calls \<and>
     (\<forall>n head title r. c = Gh_Merge n head title r \<longrightarrow> (\<exists>path branch text. last_push calls = Some (path, branch, text, head)))"
  (is "?l \<longleftrightarrow> ?r")
proof
  assume l: ?l
  have "merges_ok calls"
    unfolding merges_ok_def
  proof (intro allI impI)
    fix before n head title r later assume "calls = before @ Gh_Merge n head title r # later"
    then have "calls @ [c] = before @ Gh_Merge n head title r # (later @ [c])" by simp
    then show "\<exists>path branch text. last_push before = Some (path, branch, text, head)" using l unfolding merges_ok_def by blast
  qed
  then show ?r using l unfolding merges_ok_def by blast
next
  assume r: ?r
  show ?l
    unfolding merges_ok_def
  proof (intro allI impI)
    fix before n head title r' later assume eq: "calls @ [c] = before @ Gh_Merge n head title r' # later"
    then show "\<exists>path branch text. last_push before = Some (path, branch, text, head)"
      using r by (cases later rule: rev_cases) (auto simp: merges_ok_def)
  qed
qed

text \<open>Calls that neither push nor merge change nothing the invariant speaks of.\<close>

fun harmless :: "gh_call \<Rightarrow> bool" where
  "harmless (Gh_Put path branch text (Reply commit)) = False"
| "harmless (Gh_Merge n head title r) = False"
| "harmless _ = True"

lemma harmless_call: "harmless c \<Longrightarrow> last_push (calls @ [c]) = last_push calls \<and> (merges_ok (calls @ [c]) \<longleftrightarrow> merges_ok calls)"
  by (cases c rule: harmless.cases) (auto simp: merges_snoc)

lemma pub_ok_call: "harmless c \<Longrightarrow> pub_ok cfg w \<Longrightarrow> pub_ok cfg (called c w)"
  using harmless_call [of c "pw_calls w"] by (simp add: pub_ok_def row_sound_def open_row_ok_def)

lemma pub_ok_shut: "pub_ok cfg w \<Longrightarrow> (\<And>p. pub = Some p \<Longrightarrow> pb_state p \<noteq> Pub_Open) \<Longrightarrow> pub_ok cfg (set_pub pub w)"
  by (auto simp: pub_ok_def row_sound_def)

lemma pub_ok_put: "pub_ok cfg w \<Longrightarrow> map_option pb_state (pw_pub w) \<noteq> Some Pub_Open \<Longrightarrow> pub_ok cfg (called (Gh_Put path branch text re) w)"
  by (auto simp: pub_ok_def row_sound_def merges_snoc)

lemma open_rowD:
  assumes "pub_ok cfg w" "pw_pub w = Some p" "pb_state p = Pub_Open"
  obtains path branch body head where "path \<noteq> []" "branch \<noteq> []" "head \<noteq> []" "pb_repo_path p = Some path" "pb_branch p = Some branch"
    "pb_head_sha p = Some head" "pb_content_sha256 p = Some (pc_sha256 cfg body)" "last_push (pw_calls w) = Some (path, branch, body, head)"
    "pb_pr_number p \<noteq> None"
  using assms by (auto simp: pub_ok_def row_sound_def open_row_ok_def)

lemma and_then_cases:
  assumes "and_then r f = (out, w')"
  obtains x w where "r = (Reply x, w)" "f x w = (out, w')"
  | status message where "r = (Gh_Error status message, w')" "out = Gh_Error status message"
  | "r = (Gone, w')" "out = Gone"
  using assms by (cases r; cases "fst r") (auto simp: and_then_def)

lemma open_on_github_ok:
  assumes "open_on_github path branch title body re w = (out, w')" "pub_ok cfg w" "map_option pb_state (pw_pub w) \<noteq> Some Pub_Open"
  shows "pub_ok cfg w' \<and> pw_pub w' = pw_pub w \<and> pw_session w' = pw_session w \<and>
    (\<forall>commit pr. out = Reply (commit, pr) \<longrightarrow> re_put re = Reply commit \<and> last_push (pw_calls w') = Some (path, branch, body, commit))"
proof -
  have ens: "pub_ok cfg (called (Gh_Ensure branch base (re_ensure re)) w)" for base
    by (rule pub_ok_call [OF _ assms(2)]) simp
  have put: "pub_ok cfg (called (Gh_Put path branch body (re_put re)) (called (Gh_Ensure branch base (re_ensure re)) w))" for base
    by (rule pub_ok_put [OF ens]) (use assms(3) in simp)
  have opn: "pub_ok cfg (called (Gh_Open branch t (re_open re)) (called (Gh_Put path branch body (re_put re)) (called (Gh_Ensure branch base (re_ensure re)) w)))" for base t
    by (rule pub_ok_call [OF _ put]) simp
  show ?thesis
    using assms(1,2) ens put opn unfolding open_on_github_def
    by (cases "re_base re"; cases "re_ensure re"; cases "re_blob re"; cases "re_put re"; cases "re_open re")
       (auto simp: and_then_def)
qed

lemma note_file_ne: "note_file path = Some p \<Longrightarrow> path \<noteq> []"
  by (auto simp: note_file_def split: if_splits)

lemma load_note_path: "load_note w = Inr (s, path, title, body) \<Longrightarrow> path \<noteq> [] \<and> pw_session w = Some s \<and> \<not> ns_restricted s"
  by (auto simp: load_note_def read_note_def dest: note_file_ne split: option.splits if_splits)

lemma str_or_ne: "d \<noteq> [] \<Longrightarrow> str_or s d \<noteq> []"
  by (auto simp: str_or_def split: option.splits)

lemma publishing_row_sel:
  "pb_state (publishing_row cfg actor sid s path pub) = Pub_Publishing"
  "path \<noteq> [] \<Longrightarrow> \<exists>rp. rp \<noteq> [] \<and> pb_repo_path (publishing_row cfg actor sid s path pub) = Some rp"
  "\<exists>b. b \<noteq> [] \<and> pb_branch (publishing_row cfg actor sid s path pub) = Some b"
  by (auto simp: publishing_row_def Let_def repo_path_of_def branch_of_def intro!: str_or_ne)

lemma publish_ok:
  assumes "publish cfg actor re w = (out, w')" "pub_ok cfg w" "named (re_put re)"
  shows "pub_ok cfg w' \<and> out \<noteq> Inl Assertion \<and> pw_session w' = pw_session w"
proof (cases "check_actor cfg actor")
  case (Some e)
  then show ?thesis using assms by (auto simp: publish_def check_actor_def split: if_splits)
next
  case None
  note actor = None
  show ?thesis
  proof (cases "load_note w")
    case (Inl e)
    have "e \<noteq> Assertion" using Inl by (auto simp: load_note_def split: option.splits if_splits)
    then show ?thesis using assms actor Inl by (auto simp: publish_def)
  next
    case (Inr loaded)
    obtain s path title body where l: "loaded = (s, path, title, body)" by (cases loaded)
    show ?thesis
    proof (cases "publish_refusal cfg s body (pw_pub w)")
      case (Some e)
      then have "e \<noteq> Assertion" by (auto simp: publish_refusal_def split: option.splits if_splits)
      then show ?thesis using assms actor Inr l Some by (auto simp: publish_def)
    next
      case None
      let ?p = "publishing_row cfg actor (pw_id w) s path (pw_pub w)"
      obtain rp b where rp: "rp \<noteq> []" "pb_repo_path ?p = Some rp" and b: "b \<noteq> []" "pb_branch ?p = Some b"
        using publishing_row_sel(2,3) load_note_path [of w s path title body] Inr l by metis
      obtain r w1 where g: "open_on_github rp b title body re (set_pub (Some ?p) w) = (r, w1)" by fastforce
      have start: "pub_ok cfg (set_pub (Some ?p) w)" using assms(2) by (intro pub_ok_shut) (auto simp: publishing_row_sel)
      have w1: "pub_ok cfg w1" "pw_pub w1 = Some ?p" "pw_session w1 = pw_session w"
        "\<And>commit pr. r = Reply (commit, pr) \<Longrightarrow> re_put re = Reply commit \<and> last_push (pw_calls w1) = Some (rp, b, body, commit)"
        using open_on_github_ok [OF g start] by (auto simp: publishing_row_sel)
      show ?thesis
      proof (cases r)
        case (Reply cp)
        obtain commit pr where cp: "cp = (commit, pr)" by (cases cp)
        then have put: "re_put re = Reply commit" "last_push (pw_calls w1) = Some (rp, b, body, commit)" using w1(4) Reply by auto
        then have "commit \<noteq> []" using assms(3) by (auto simp: named_def)
        then show ?thesis
          using assms(1) actor Inr l None g rp b Reply cp w1 put by (auto simp: publish_def Let_def pub_ok_def row_sound_def open_row_ok_def)
      next
        case (Gh_Error status message)
        then show ?thesis using assms(1) actor Inr l None g rp b w1
          by (auto simp: publish_def Let_def fail_publication_def intro!: pub_ok_shut)
      next
        case Gone
        then show ?thesis using assms(1) actor Inr l None g rp b w1 by (auto simp: publish_def Let_def)
      qed
    qed
  qed
qed

lemma pub_ok_cong: "pub_ok cfg w \<Longrightarrow> pw_pub w' = pw_pub w \<Longrightarrow> pw_calls w' = pw_calls w \<Longrightarrow> pub_ok cfg w'"
  by (simp add: pub_ok_def)

lemma open_kept:
  "pub_ok cfg w \<Longrightarrow> pw_pub w = Some p \<Longrightarrow> pub_ok cfg (set_pub (Some (p\<lparr>pb_last_error := e\<rparr>)) w)"
  by (auto simp: pub_ok_def row_sound_def open_row_ok_def)

lemma push_edit_ok:
  assumes "push_edit cfg p body blob put w = (out, w')" "pub_ok cfg w" "pw_pub w = Some p" "pb_state p = Pub_Open" "named put"
  shows "pub_ok cfg w' \<and> out \<noteq> Inl Assertion \<and> pw_session w' = pw_session w"
proof -
  obtain path branch old head where o: "path \<noteq> []" "branch \<noteq> []" "pb_repo_path p = Some path" "pb_branch p = Some branch"
    "pb_head_sha p = Some head" "pb_pr_number p \<noteq> None" "pb_content_sha256 p = Some (pc_sha256 cfg old)" "last_push (pw_calls w) = Some (path, branch, old, head)"
    "head \<noteq> []"
    by (rule open_rowD [OF assms(2-4)])
  have t: "truthy (pb_repo_path p)" "truthy (pb_branch p)" using o by (simp_all add: truthy_def)
  let ?w = "called (Gh_Put path branch body put) w"
  have merges: "merges_ok (pw_calls ?w)" using assms(2) by (simp add: pub_ok_def merges_snoc)
  show ?thesis
  proof (cases "pc_enabled cfg")
    case True
    note e = assms(1) [unfolded push_edit_def]
    show ?thesis
    proof (cases blob)
      case (Reply b)
      show ?thesis
      proof (cases put)
        case put: (Reply commit)
        then have "commit \<noteq> []" using assms(5) by (auto simp: named_def)
        then show ?thesis
          using e True t Reply put o assms(2,3) merges
          by (auto simp: and_then_def Let_def pub_ok_def row_sound_def open_row_ok_def)
      next
        case (Gh_Error status message)
        have "pub_ok cfg ?w" by (rule pub_ok_call) (simp_all add: Gh_Error assms(2))
        then show ?thesis using e True t Reply Gh_Error o assms(3) open_kept [of cfg ?w p] by (auto simp: and_then_def Let_def)
      next
        case Gone
        have "pub_ok cfg ?w" by (rule pub_ok_call) (simp_all add: Gone assms(2))
        then show ?thesis using e True t Reply Gone o assms(3) by (auto simp: and_then_def Let_def)
      qed
    next
      case (Gh_Error status message)
      then show ?thesis using e True t assms(2,3) open_kept [of cfg w p] by (auto simp: and_then_def Let_def)
    next
      case Gone
      then show ?thesis using e True t assms(2) by (auto simp: and_then_def Let_def)
    qed
  qed (use assms in \<open>auto simp: push_edit_def\<close>)
qed

lemma edit_note_ok:
  assumes "edit_note cfg body blob put w = (out, w')" "pub_ok cfg w" "named put"
  shows "pub_ok cfg w' \<and> out \<noteq> Inl Assertion \<and> pw_session w' = pw_session w"
proof (cases "utf8_length body > MAX_NOTE_BYTES \<or> \<not> contains body (''session_id: '' @ pw_id w) \<or> pw_session w = None")
  case True
  then show ?thesis using assms(1,2) by (auto simp: edit_note_def split: if_splits)
next
  case False
  then obtain s where s: "pw_session w = Some s" by auto
  note e = assms(1) [unfolded edit_note_def]
  show ?thesis
  proof (cases "ns_status s \<notin> {''done'', ''failed''} \<or> pw_note w = None")
    case True
    then show ?thesis using e False s assms(2) by (auto split: if_splits)
  next
    case writable: False
    then obtain path title where nt: "pw_note w = Some (path, title)" by auto
    show ?thesis
    proof (cases "note_file path")
      case None
      then show ?thesis using e False s writable nt assms(2) by auto
    next
      case (Some target)
      let ?w = "w\<lparr>pw_files := (pw_files w)(target := Some body)\<rparr>"
      have w: "pub_ok cfg ?w" by (rule pub_ok_cong [OF assms(2)]) simp_all
      have e': "(case pw_pub w of None \<Rightarrow> (Inr None, ?w)
          | Some p \<Rightarrow> if pb_state p \<noteq> Pub_Open then (Inr (Some p), ?w) else push_edit cfg p body blob put ?w) = (out, w')"
        using e False s writable nt Some by (simp add: Let_def)
      show ?thesis
      proof (cases "\<exists>p. pw_pub w = Some p \<and> pb_state p = Pub_Open")
        case True
        then obtain p where p: "pw_pub w = Some p" "pb_state p = Pub_Open" by blast
        then have "push_edit cfg p body blob put ?w = (out, w')" using e' by simp
        from push_edit_ok [OF this w _ p(2) assms(3)] show ?thesis using p(1) by simp
      next
        case False
        then show ?thesis using e' w by (auto split: option.splits if_splits)
      qed
    qed
  qed
qed

lemma open_pub_Inl: "open_pub w = Inl e \<Longrightarrow> e \<noteq> Assertion"
  by (auto simp: open_pub_def Let_def split: option.splits if_splits)

lemma open_pub_Inr: "open_pub w = Inr (p, title) \<Longrightarrow> pw_pub w = Some p \<and> pb_state p = Pub_Open"
  by (auto simp: open_pub_def Let_def split: option.splits if_splits)

lemma settle_pub_ok:
  assumes "settle_pub now pr w = (out, w')" "pub_ok cfg w" "pw_pub w = Some p"
  shows "pub_ok cfg w' \<and> out \<noteq> Inl Assertion \<and> pw_session w' = pw_session w"
  using assms by (auto simp: settle_pub_def Let_def pub_ok_def row_sound_def)

lemma drop_branch_ok:
  assumes "drop_branch branch re w = (r, w')" "pub_ok cfg w"
  shows "pub_ok cfg w' \<and> pw_pub w' = pw_pub w \<and> pw_session w' = pw_session w \<and> (r = None \<or> r = Some w')"
  using assms pub_ok_call [of "Gh_Delete branch re" cfg w] by (auto simp: drop_branch_def Let_def split: if_splits)

lemma open_row_basic:
  "pub_ok cfg w \<Longrightarrow> pw_pub w = Some p \<Longrightarrow> pb_state p = Pub_Open \<Longrightarrow>
     \<exists>n h b. pb_pr_number p = Some n \<and> pb_head_sha p = Some h \<and> h \<noteq> [] \<and> pb_branch p = Some b \<and> b \<noteq> [] \<and>
       (\<exists>path body. last_push (pw_calls w) = Some (path, b, body, h))"
  by (auto simp: pub_ok_def row_sound_def open_row_ok_def)

lemma close_locked_ok:
  assumes "close_locked now shut deleted w = (out, w')" "pub_ok cfg w"
  shows "pub_ok cfg w' \<and> out \<noteq> Inl Assertion \<and> pw_session w' = pw_session w"
proof (cases "open_pub w")
  case (Inl e)
  then show ?thesis using assms open_pub_Inl by (auto simp: close_locked_def)
next
  case (Inr x)
  obtain p title where x: "x = (p, title)" by (cases x)
  then have p: "pw_pub w = Some p" "pb_state p = Pub_Open" using Inr open_pub_Inr by auto
  obtain n where n: "pb_pr_number p = Some n" "truthy (pb_branch p)" using open_row_basic [OF assms(2) p] by (auto simp: truthy_def)
  let ?w = "called (Gh_Close n shut) w"
  have w: "pub_ok cfg ?w" "pw_pub ?w = Some p" "pw_session ?w = pw_session w" using pub_ok_call [OF _ assms(2)] p by simp_all
  show ?thesis
  proof (cases shut)
    case (Reply pr)
    obtain r w2 where d: "drop_branch (the (pb_branch p)) deleted ?w = (r, w2)" by fastforce
    have w2: "pub_ok cfg w2" "pw_pub w2 = Some p" "pw_session w2 = pw_session w" "r = None \<or> r = Some w2"
      using drop_branch_ok [OF d w(1)] w by auto
    show ?thesis
    proof (cases r)
      case None
      then show ?thesis using assms(1) Inr x n Reply d w2 by (auto simp: close_locked_def)
    next
      case (Some w3)
      then have "settle_pub now pr w2 = (out, w')" using assms(1) Inr x n Reply d w2(4) by (simp add: close_locked_def)
      from settle_pub_ok [OF this w2(1,2)] show ?thesis using w2(3) by simp
    qed
  qed (use assms(1) Inr x n w in \<open>auto simp: close_locked_def\<close>)
qed

lemma close_pub_ok:
  assumes "close_pub cfg now actor shut deleted w = (out, w')" "pub_ok cfg w"
  shows "pub_ok cfg w' \<and> out \<noteq> Inl Assertion \<and> pw_session w' = pw_session w"
proof (cases "check_actor cfg actor")
  case None
  then show ?thesis using close_locked_ok [of now shut deleted w out w'] assms by (simp add: close_pub_def)
qed (use assms in \<open>auto simp: close_pub_def check_actor_def split: if_splits\<close>)

lemma mark_skipped_ok:
  assumes "mark_skipped w = (out, w')" "pub_ok cfg w"
  shows "pub_ok cfg w' \<and> out \<noteq> Inl Assertion \<and> pw_session w' = pw_session w"
  using assms by (auto simp: mark_skipped_def Let_def intro!: pub_ok_shut)

lemma skip_pub_ok:
  assumes "skip_pub cfg now actor shut deleted w = (out, w')" "pub_ok cfg w"
  shows "pub_ok cfg w' \<and> out \<noteq> Inl Assertion \<and> pw_session w' = pw_session w"
proof -
  consider (refused) e where "out = Inl e" "e \<noteq> Assertion" "w' = w" | (marked) "mark_skipped w = (out, w')"
    | (shut) r w1 where "close_locked now shut deleted w = (r, w1)" "(\<exists>e. r = Inl e \<and> out = Inl e \<and> w' = w1) \<or> mark_skipped w1 = (out, w')"
    using assms(1) unfolding skip_pub_def
    by (auto split: if_splits option.splits pub_state.splits prod.splits sum.splits)
  then show ?thesis
  proof cases
    case shut
    have w1: "pub_ok cfg w1 \<and> r \<noteq> Inl Assertion \<and> pw_session w1 = pw_session w" by (rule close_locked_ok [OF shut(1) assms(2)])
    then show ?thesis using shut(2) mark_skipped_ok [of w1 out w' cfg] by auto
  qed (use assms(2) mark_skipped_ok in auto)
qed

lemma unskip_pub_ok:
  assumes "unskip_pub actor w = (out, w')" "pub_ok cfg w"
  shows "pub_ok cfg w' \<and> out \<noteq> Inl Assertion \<and> pw_session w' = pw_session w"
  using assms by (auto simp: unskip_pub_def split: option.splits if_splits intro!: pub_ok_shut)

lemma merge_calls_ok:
  assumes "merge_calls n head title pr re w = (r, w')" "pub_ok cfg w" "last_push (pw_calls w) = Some (path, branch, body, head)"
  shows "pub_ok cfg w' \<and> pw_pub w' = pw_pub w \<and> pw_session w' = pw_session w"
proof -
  have call: "pub_ok cfg (called (Gh_Merge n head title a) v) \<and> last_push (pw_calls (called (Gh_Merge n head title a) v)) = Some (path, branch, body, head)"
    if "pub_ok cfg v" "last_push (pw_calls v) = Some (path, branch, body, head)" for a v
    using that by (simp add: pub_ok_def merges_snoc row_sound_def open_row_ok_def)
  show ?thesis
    using assms(1) call [OF assms(2,3)] call unfolding merge_calls_def
    by (cases "rm_first re") (auto simp: Let_def split: if_splits)
qed

lemma merge_pub_ok:
  assumes "merge_pub cfg now actor re w = (out, w')" "pub_ok cfg w"
  shows "pub_ok cfg w' \<and> out \<noteq> Inl Assertion \<and> pw_session w' = pw_session w"
proof (cases "check_actor cfg actor")
  case (Some e)
  then show ?thesis using assms by (auto simp: merge_pub_def check_actor_def split: if_splits)
next
  case actor: None
  show ?thesis
  proof (cases "open_pub w")
    case (Inl e)
    then show ?thesis using assms actor open_pub_Inl by (auto simp: merge_pub_def)
  next
    case (Inr x)
    obtain p title where x: "x = (p, title)" by (cases x)
    then have p: "pw_pub w = Some p" "pb_state p = Pub_Open" using Inr open_pub_Inr by auto
    obtain n h b path body where o: "pb_pr_number p = Some n" "pb_head_sha p = Some h" "truthy (pb_head_sha p)" "truthy (pb_branch p)"
      "last_push (pw_calls w) = Some (path, b, body, h)" using open_row_basic [OF assms(2) p] by (auto simp: truthy_def)
    note e = assms(1) [unfolded merge_pub_def]
    show ?thesis
    proof (cases "rm_pr re")
      case (Reply pr)
      obtain r w1 where mc: "merge_calls n h (merge_title title n) pr re w = (r, w1)" by fastforce
      consider (gone) "pq_merged pr \<or> pq_state pr \<noteq> ''open''" | (moved) "\<not> (pq_merged pr \<or> pq_state pr \<noteq> ''open'')" "pq_head_sha pr \<noteq> h"
        | (merging) "\<not> (pq_merged pr \<or> pq_state pr \<noteq> ''open'')" "pq_head_sha pr = h" by blast
      then show ?thesis
      proof cases
        case gone
        then have "settle_pub now pr w = (out, w')" using e actor Inr x o Reply by simp
        then show ?thesis by (rule settle_pub_ok [OF _ assms(2) p(1)])
      next
        case moved
        then show ?thesis using e actor Inr x o Reply assms(2) by auto
      next
        case merging
        have w1: "pub_ok cfg w1" "pw_pub w1 = Some p" "pw_session w1 = pw_session w"
          using merge_calls_ok [OF mc assms(2) o(5)] p(1) by auto
        show ?thesis
        proof (cases r)
          case merged: (Reply u)
          obtain d w2 where d: "drop_branch (the (pb_branch p)) (rm_delete re) w1 = (d, w2)" by fastforce
          have w2: "pub_ok cfg w2" "pw_pub w2 = Some p" "pw_session w2 = pw_session w" "d = None \<or> d = Some w2"
            using drop_branch_ok [OF d w1(1)] w1 by auto
          show ?thesis
          proof (cases d)
            case None
            then show ?thesis using e actor Inr x o Reply merging mc merged d w2 by auto
          next
            case (Some w3)
            then show ?thesis using e actor Inr x o Reply merging mc merged d w2 by (auto simp: Let_def intro!: pub_ok_shut)
          qed
        qed (use e actor Inr x o Reply merging mc w1 in auto)
      qed
    qed (use e actor Inr x o assms(2) in auto)
  qed
qed

lemma refresh_pub_ok:
  assumes "refresh_pub cfg clock now force got deleted w = (ended, w')" "pub_ok cfg w"
  shows "pub_ok cfg w' \<and> pw_session w' = pw_session w"
proof -
  let ?w = "w\<lparr>pw_refreshed := clock\<rparr>"
  have w: "pub_ok cfg ?w" by (rule pub_ok_cong [OF assms(2)]) simp_all
  consider "w' = w" | "w' = ?w" | p pr where "pw_pub w = Some p"
      "w' = snd (settle_pub now pr ?w) \<or> (\<exists>r. drop_branch (the (pb_branch p)) deleted (snd (settle_pub now pr ?w)) = (r, w')) "
    using assms(1) drop_branch_ok [OF _ w] unfolding refresh_pub_def
    by (auto simp: Let_def drop_branch_def split: if_splits option.splits reply.splits)
  then show ?thesis
  proof cases
    case (3 p pr)
    obtain o2 w2 where s: "settle_pub now pr ?w = (o2, w2)" by fastforce
    then have w2: "pub_ok cfg w2" "pw_session w2 = pw_session w" using settle_pub_ok [OF s w, of p] 3(1) by auto
    then show ?thesis using 3(2) s drop_branch_ok [of "the (pb_branch p)" deleted w2 _ w' cfg] by auto
  qed (use assms(2) w in auto)
qed

lemma on_note_ready_ok:
  assumes "pub_ok cfg w" "named (re_put re)"
  shows "pub_ok cfg (on_note_ready cfg re w) \<and> pw_session (on_note_ready cfg re w) = pw_session w"
proof -
  have "pub_ok cfg (snd (publish cfg a re w)) \<and> pw_session (snd (publish cfg a re w)) = pw_session w" for a
    using publish_ok [of cfg a re w "fst (publish cfg a re w)" "snd (publish cfg a re w)"] assms by simp
  then show ?thesis using assms(1) by (auto simp: on_note_ready_def split: option.splits)
qed

lemma pub_step_ok: "pub_step cfg w w' \<Longrightarrow> pub_ok cfg w \<Longrightarrow> pub_ok cfg w'"
proof (induction rule: pub_step.induct)
  case (Ready re w w')
  then show ?case using on_note_ready_ok by blast
next
  case (Outside w s nt files)
  then show ?case by (auto intro: pub_ok_cong)
next
  case (Publish re actor w out w')
  then show ?case using publish_ok by metis
next
  case (Edit put body blob w res w')
  then show ?case using edit_note_ok by metis
next
  case (Merge now actor rm w out w')
  then show ?case using merge_pub_ok by metis
next
  case (Close now actor shut deleted w out w')
  then show ?case using close_pub_ok by metis
next
  case (Skip now actor shut deleted w out w')
  then show ?case using skip_pub_ok by metis
next
  case (Unskip actor w res w')
  then show ?case using unskip_pub_ok by metis
next
  case (Refresh clock now force got deleted w ended w')
  then show ?case using refresh_pub_ok by metis
qed

abbreviation pub_steps :: "pub_config \<Rightarrow> pub_world \<Rightarrow> pub_world \<Rightarrow> bool" where
  "pub_steps cfg \<equiv> (pub_step cfg)\<^sup>*\<^sup>*"

lemma pub_steps_ok: "pub_steps cfg w w' \<Longrightarrow> pub_ok cfg w \<Longrightarrow> pub_ok cfg w'"
  by (induction rule: rtranclp_induct) (auto intro: pub_step_ok)

lemma unpublished_ok: "unpublished w \<Longrightarrow> pub_ok cfg w"
  by (simp add: unpublished_def pub_ok_def row_sound_def merges_ok_def)

definition is_restricted :: "pub_world \<Rightarrow> bool" where
  "is_restricted w \<longleftrightarrow> (\<exists>s. pw_session w = Some s \<and> ns_restricted s)"

definition untouched :: "pub_world \<Rightarrow> bool" where
  "untouched w \<longleftrightarrow> pw_calls w = [] \<and> (\<forall>p. pw_pub w = Some p \<longrightarrow> pb_state p = Pub_Skipped \<and> pb_pr_number p = None)"

lemma restricted_before:
  assumes "pub_step cfg w w'" "pub_ok cfg w" "is_restricted w'"
  shows "is_restricted w"
  using assms(1)
proof cases
  case (Ready re)
  then show ?thesis using on_note_ready_ok [OF assms(2) Ready(1)] assms(3) by (simp add: is_restricted_def)
next
  case (Outside s nt files)
  then show ?thesis using assms(3) by (auto simp: is_restricted_def may_become_def)
qed (use assms(2,3) publish_ok edit_note_ok merge_pub_ok close_pub_ok skip_pub_ok unskip_pub_ok refresh_pub_ok in \<open>metis is_restricted_def\<close>)+

lemma load_restricted: "is_restricted w \<Longrightarrow> \<exists>e. load_note w = Inl e"
  by (auto simp: load_note_def is_restricted_def)

lemma publish_restricted: "is_restricted w \<Longrightarrow> snd (publish cfg actor re w) = w"
  using load_restricted [of w] by (auto simp: publish_def split: option.splits)

lemma open_pub_untouched: "untouched w \<Longrightarrow> \<exists>e. open_pub w = Inl e"
  by (auto simp: open_pub_def untouched_def split: option.splits)

lemma untouched_step:
  assumes "pub_step cfg w w'" "is_restricted w" "untouched w"
  shows "untouched w'"
  using assms(1)
proof cases
  case (Publish re actor out)
  then show ?thesis using publish_restricted [OF assms(2), of cfg actor re] assms(3) by simp
next
  case (Edit put body blob res)
  have "pw_pub w = Some p \<Longrightarrow> pb_state p \<noteq> Pub_Open" for p using assms(3) by (auto simp: untouched_def)
  then have "pw_calls w' = pw_calls w \<and> pw_pub w' = pw_pub w"
    using Edit(2) unfolding edit_note_def by (simp add: Let_def split: if_splits option.splits prod.splits; auto)
  then show ?thesis using assms(3) by (simp add: untouched_def)
next
  case (Merge now actor rm out)
  then show ?thesis using open_pub_untouched [OF assms(3)] assms(3) by (auto simp: merge_pub_def split: option.splits)
next
  case (Close now actor shut deleted out)
  then show ?thesis using open_pub_untouched [OF assms(3)] assms(3) by (auto simp: close_pub_def close_locked_def split: option.splits)
next
  case (Skip now actor shut deleted out)
  have "map_option pb_state (pw_pub w) = None \<or> map_option pb_state (pw_pub w) = Some Pub_Skipped" using assms(3) by (auto simp: untouched_def)
  then have "w' = w \<or> mark_skipped w = (out, w')"
    using Skip unfolding skip_pub_def by (elim disjE) (auto split: if_splits option.splits)
  then show ?thesis using assms(3) by (auto simp: mark_skipped_def Let_def untouched_def new_publication_def split: option.splits)
next
  case (Unskip actor res)
  then show ?thesis using assms(3) by (auto simp: unskip_pub_def untouched_def split: option.splits if_splits)
next
  case (Refresh clock now force got deleted ended)
  then show ?thesis using assms(3) by (auto simp: refresh_pub_def untouched_def Let_def split: option.splits if_splits)
next
  case (Ready re)
  then show ?thesis using publish_restricted [OF assms(2), of cfg _ re] assms(3) by (auto simp: on_note_ready_def split: option.splits)
next
  case (Outside s nt files)
  then show ?thesis using assms(3) by (simp add: untouched_def)
qed

text \<open>C8: The note of a restricted session is never published: as long as the restriction stands, whoever asks for
  whatever, nothing is written to GitHub for it (no branch, no file, no pull request, no merge), and its publication is
  at most marked skipped.\<close>

theorem restricted_never_published:
  assumes "pub_steps cfg w w'" "unpublished w" "is_restricted w'"
  shows "pw_calls w' = [] \<and> (\<forall>p. pw_pub w' = Some p \<longrightarrow> pb_state p = Pub_Skipped)"
proof -
  have "is_restricted w' \<longrightarrow> untouched w'"
    using assms(1)
  proof (induction rule: rtranclp_induct)
    case base
    then show ?case using assms(2) by (simp add: unpublished_def untouched_def)
  next
    case (step y z)
    have "pub_ok cfg y" by (rule pub_steps_ok [OF step(1) unpublished_ok [OF assms(2)]])
    then show ?case using restricted_before [OF step(2)] untouched_step [OF step(2)] step(3) by blast
  qed
  then show ?thesis using assms(3) by (auto simp: untouched_def)
qed

text \<open>C17: A merge names the commit of the text that was pushed last: whatever edits, failures, restarts and changes on GitHub
  came before, when the service asks GitHub to merge, it quotes the commit its last successful push of this session's
  note returned.\<close>

theorem merges_last_push:
  assumes "pub_steps cfg w w'" "unpublished w" "pw_calls w' = before @ Gh_Merge n head title r # later"
  shows "\<exists>path branch body. last_push before = Some (path, branch, body, head)"
  using pub_steps_ok [OF assms(1) unpublished_ok [OF assms(2)]] assms(3) by (auto simp: pub_ok_def merges_ok_def)

text \<open>C24: An open publication is complete: it has a pull request, a branch, a file and the commit and hash of the text pushed
  last. So no assertion of the publisher fails in any operation after any history.\<close>

theorem no_assertion_fails:
  assumes "pub_steps cfg w w'" "unpublished w" "named put" "named (re_put re)"
  shows "(\<forall>p. pw_pub w' = Some p \<longrightarrow> pb_state p = Pub_Open \<longrightarrow> open_row_ok cfg (pw_calls w') p) \<and>
    fst (publish cfg actor re w') \<noteq> Inl Assertion \<and> fst (edit_note cfg body blob put w') \<noteq> Inl Assertion \<and>
    fst (merge_pub cfg now actor rm w') \<noteq> Inl Assertion \<and> fst (close_pub cfg now actor shut deleted w') \<noteq> Inl Assertion \<and>
    fst (skip_pub cfg now actor shut deleted w') \<noteq> Inl Assertion \<and> fst (unskip_pub actor w') \<noteq> Inl Assertion"
proof -
  have ok: "pub_ok cfg w'" by (rule pub_steps_ok [OF assms(1) unpublished_ok [OF assms(2)]])
  then have "\<forall>p. pw_pub w' = Some p \<longrightarrow> pb_state p = Pub_Open \<longrightarrow> open_row_ok cfg (pw_calls w') p"
    by (simp add: pub_ok_def row_sound_def)
  then show ?thesis
    using publish_ok [OF prod.collapse [symmetric] ok assms(4)] edit_note_ok [OF prod.collapse [symmetric] ok assms(3)]
      merge_pub_ok [OF prod.collapse [symmetric] ok] close_pub_ok [OF prod.collapse [symmetric] ok]
      skip_pub_ok [OF prod.collapse [symmetric] ok] unskip_pub_ok [OF prod.collapse [symmetric] ok] by blast
qed

section \<open>A run\<close>

definition demo_cfg_pub :: pub_config where
  "demo_cfg_pub = \<lparr>pc_enabled = True, pc_sha256 = id, pc_subdir = ''in'', pc_branch_prefix = ''j/'', pc_base_branch = ''main'',
     pc_local_day = (\<lambda>_. ''d'')\<rparr>"

definition demo_user :: vault_user where "demo_user = \<lparr>vu_id = 1, vu_admin = False, vu_auto_publish = False\<rparr>"

definition demo_note_session :: "bool \<Rightarrow> note_session" where
  "demo_note_session r = \<lparr>ns_user = demo_user, ns_deleted = False, ns_restricted = r, ns_status = ''done'', ns_title = None, ns_started_at = 0\<rparr>"

definition demo_world :: "bool \<Rightarrow> pub_world" where
  "demo_world r = \<lparr>pw_id = ''7'', pw_session = Some (demo_note_session r), pw_note = Some (''n'', ''t''),
     pw_files = [[''n''] \<mapsto> ''hi''], pw_pub = None, pw_refreshed = 0, pw_calls = []\<rparr>"

definition demo_pr :: pull_request where
  "demo_pr = \<lparr>pq_number = 3, pq_url = ''u'', pq_state = ''open'', pq_merged = False, pq_head_sha = ''c'', pq_mergeable = Some True\<rparr>"

definition demo_replies :: publish_replies where
  "demo_replies = \<lparr>re_base = Reply ''b'', re_ensure = Reply (), re_blob = Reply None, re_put = Reply ''c'', re_open = Reply demo_pr\<rparr>"

definition demo_merge :: merge_replies where
  "demo_merge = \<lparr>rm_pr = Reply demo_pr, rm_first = Reply (), rm_second = Gone, rm_delete = Reply ()\<rparr>"

definition demo_published :: pub_world where "demo_published = snd (publish demo_cfg_pub demo_user demo_replies (demo_world False))"
definition demo_merged :: pub_world where "demo_merged = snd (merge_pub demo_cfg_pub 9 demo_user demo_merge demo_published)"

lemma demo_load: "load_note (demo_world False) = Inr (demo_note_session False, ''n'', ''t'', ''hi'')"
  by (simp add: load_note_def demo_world_def demo_note_session_def demo_user_def may_publish_for_def OWNER_USER_ID_def
    read_note_def note_file_def path_parts_def is_absolute_def str_or_def)

lemmas demo_pub_simps = demo_cfg_pub_def demo_user_def demo_note_session_def demo_world_def demo_pr_def demo_replies_def demo_merge_def

lemma demo_published: "demo_published = (demo_world False)\<lparr>pw_pub := Some \<lparr>pb_state = Pub_Open, pb_repo_path = Some ''in/n'',
     pb_branch = Some ''j/d-7'', pb_pr_number = Some 3, pb_pr_url = Some ''u'', pb_head_sha = Some ''c'', pb_content_sha256 = Some ''hi'',
     pb_last_error = None, pb_published_by = Some 1, pb_merged_at = None\<rparr>,
   pw_calls := [Gh_Ensure ''j/d-7'' ''b'' (Reply ()), Gh_Put ''in/n'' ''j/d-7'' ''hi'' (Reply ''c''),
     Gh_Open ''j/d-7'' ''jarvis-live: t'' (Reply demo_pr)]\<rparr>"
  unfolding demo_published_def publish_def demo_load
  by (simp add: check_actor_def may_publish_for_def OWNER_USER_ID_def publish_refusal_def publishing_row_def new_publication_def
    str_or_def repo_path_of_def branch_of_def open_on_github_def and_then_def called_def set_pub_def Let_def demo_pub_simps)

lemma demo_merged_calls: "pw_calls demo_merged = pw_calls demo_published @ Gh_Merge 3 ''c'' (merge_title ''t'' 3) (Reply ()) # [Gh_Delete ''j/d-7'' (Reply ())]"
  unfolding demo_merged_def merge_pub_def demo_published
  by (simp add: check_actor_def may_publish_for_def OWNER_USER_ID_def open_pub_def truthy_def str_or_def merge_calls_def drop_branch_def
    called_def set_pub_def Let_def demo_pub_simps)

lemma demo_pub_steps: "pub_steps demo_cfg_pub (demo_world False) demo_published" "pub_steps demo_cfg_pub (demo_world False) demo_merged"
proof -
  have 1: "pub_step demo_cfg_pub (demo_world False) demo_published"
    using pub_step.Publish [of demo_replies demo_cfg_pub demo_user "demo_world False", OF _ prod.collapse [symmetric]]
    by (simp add: demo_published_def named_def demo_replies_def)
  have 2: "pub_step demo_cfg_pub demo_published demo_merged"
    using pub_step.Merge [of demo_cfg_pub 9 demo_user demo_merge demo_published, OF prod.collapse [symmetric]] by (simp add: demo_merged_def)
  show "pub_steps demo_cfg_pub (demo_world False) demo_published" "pub_steps demo_cfg_pub (demo_world False) demo_merged"
    using 1 2 by (meson rtranclp.rtrancl_into_rtrancl rtranclp.rtrancl_refl)+
qed

lemma demo_unpublished: "unpublished (demo_world r)"
  by (simp add: unpublished_def demo_world_def)

theorem restricted_never_published_witness: "pw_calls (demo_world True) = []"
  using restricted_never_published [OF rtranclp.rtrancl_refl [of "pub_step demo_cfg_pub"] demo_unpublished [of True]]
  by (simp add: is_restricted_def demo_world_def demo_note_session_def)

theorem merges_last_push_witness: "\<exists>path branch body. last_push (pw_calls demo_published) = Some (path, branch, body, ''c'')"
  by (rule merges_last_push [OF demo_pub_steps(2) demo_unpublished demo_merged_calls])

theorem no_assertion_fails_witness: "fst (unskip_pub demo_user demo_merged) \<noteq> Inl Assertion"
  using no_assertion_fails [OF demo_pub_steps(2) demo_unpublished, of "Reply ''c''" demo_replies demo_user]
  by (simp add: named_def demo_replies_def)

section \<open>Merges that are forgotten\<close>

text \<open>
  A pull request merged on GitHub just before the owner skips the note: closing it answers \<open>merged\<close>, and the note that is in
  the vault is recorded as skipped.
\<close>

lemma skip_forgets_merge:
  assumes "may_publish_for actor" "pw_session w = Some s" "may_publish_for (ns_user s)" "pc_enabled cfg"
    "pw_pub w = Some p" "pb_state p = Pub_Open" "pb_pr_number p = Some n" "truthy (pb_branch p)" "pq_merged pr" "deleted \<noteq> Gone"
  shows "\<exists>p' w'. skip_pub cfg now actor (Reply pr) deleted w = (Inr p', w') \<and> pw_pub w' = Some p' \<and>
    pb_state p' = Pub_Skipped \<and> pb_merged_at p' \<noteq> None"
  using assms by (simp add: skip_pub_def close_locked_def open_pub_def drop_branch_def settle_pub_def mark_skipped_def Let_def)

text \<open>
  A merged note that was edited: publishing it again fails at GitHub (the number of its pull request is already cleared), the owner
  skips it and takes that back, and its publication is deleted as if it had never been published, with the path in the vault that the
  first publish fixed.
\<close>

lemma unskip_forgets_merge:
  assumes p: "pw_pub w = Some p" "pb_state p = Pub_Merged" "pb_content_sha256 p \<noteq> Some (pc_sha256 cfg body)"
    and l: "load_note w = Inr (s, path, title, body)" "ns_status s = ''done''"
    and a: "pc_enabled cfg" "may_publish_for actor" "may_publish_for (ns_user s)"
    and g: "re_base re = Gh_Error 503 ''down''"
  shows "pw_pub (snd (unskip_pub actor (snd (skip_pub cfg now actor shut deleted (snd (publish cfg actor re w)))))) = None"
proof -
  let ?p = "publishing_row cfg actor (pw_id w) s path (Some p)"
  have pr: "pb_pr_number ?p = None" by (simp add: publishing_row_def Let_def)
  have s: "pw_session w = Some s" using load_note_path [OF l(1)] by simp
  have "snd (publish cfg actor re w) = fail_publication (gh_text 503 ''down'') (set_pub (Some ?p) w)"
    using p l a g by (simp add: publish_def check_actor_def publish_refusal_def open_on_github_def and_then_def Let_def)
  then show ?thesis
    using pr s a by (simp add: fail_publication_def skip_pub_def mark_skipped_def unskip_pub_def Let_def)
qed

end
