(* ===== verification/Route.thy ===== *)
theory Route
  imports PyText
begin

text \<open>
  Headphones only (linux/src/jarvis_desktop/route.py): from PipeWire's dump of its objects to whether a reply may be
  spoken. The dump is the JSON value \<open>json.loads\<close> returned; reading it is I/O.
\<close>

section \<open>JSON values\<close>

text \<open>A dict is its list of entries, keys distinct, in order. A number that is an integer is \<open>JNum\<close>; other numbers do not
  occur as identifiers and are not modelled.\<close>

datatype json = JNull | JBool bool | JNum int | JStr string | JList "json list" | JDict "(string \<times> json) list"

text \<open>Python's \<open>==\<close> on these values: \<open>True == 1\<close>, and the order of a dict's entries does not matter.\<close>

fun number_of :: "json \<Rightarrow> int option" where
  "number_of (JBool b) = Some (of_bool b)"
| "number_of (JNum n) = Some n"
| "number_of _ = None"

function py_eq :: "json \<Rightarrow> json \<Rightarrow> bool" where
  "py_eq JNull w \<longleftrightarrow> w = JNull"
| "py_eq (JBool b) w \<longleftrightarrow> number_of w = Some (of_bool b)"
| "py_eq (JNum n) w \<longleftrightarrow> number_of w = Some n"
| "py_eq (JStr s) w \<longleftrightarrow> w = JStr s"
| "py_eq (JList vs) w \<longleftrightarrow> (case w of JList ws \<Rightarrow> length vs = length ws \<and> list_all (\<lambda>(v, u). py_eq v u) (zip vs ws) | _ \<Rightarrow> False)"
| "py_eq (JDict es) w \<longleftrightarrow> (case w of
     JDict fs \<Rightarrow> length es = length fs \<and>
       list_all (\<lambda>(k, v). case map_of fs k of None \<Rightarrow> False | Some u \<Rightarrow> py_eq v u) es
   | _ \<Rightarrow> False)"
  by pat_completeness auto

lemma size_zip_left: "(v, u) \<in> set (zip vs ws) \<Longrightarrow> size v < Suc (size_list size vs)"
  by (auto dest!: set_zip_leftD intro: size_list_estimation' [of _ _ _ size] simp: less_Suc_eq_le)

lemma size_entry: "(k, v) \<in> set es \<Longrightarrow> size v < Suc (size_list (size_prod (\<lambda>x. 0) size) es)"
  by (auto intro!: size_list_estimation' [of "(k, v)"] simp: less_Suc_eq_le)

termination py_eq
  by (relation "measure (size \<circ> fst)") (auto dest: size_zip_left size_entry)

text \<open>\<open>d.get(key)\<close>, and the entries of a value that is a dict.\<close>

definition jget :: "(string \<times> json) list \<Rightarrow> string \<Rightarrow> json" where
  "jget d k = (case map_of d k of None \<Rightarrow> JNull | Some v \<Rightarrow> v)"

fun as_dict :: "json \<Rightarrow> (string \<times> json) list option" where
  "as_dict (JDict d) = Some d"
| "as_dict _ = None"

fun as_list :: "json \<Rightarrow> json list option" where
  "as_list (JList xs) = Some xs"
| "as_list _ = None"

fun str_of :: "json \<Rightarrow> string option" where
  "str_of (JStr s) = Some s"
| "str_of _ = None"

type_synonym obj = "(string \<times> json) list"

section \<open>Routes\<close>

datatype route = HEADPHONES | USB_HEADSET | BLUETOOTH | SPEAKERS | HDMI | UNKNOWN


record sink =
  sk_name :: string
  sk_api :: "string option"
  sk_bus :: "string option"
  sk_form_factor :: "string option"
  sk_profile :: "string option"
  sk_port_type :: "string option"
  sk_port_available :: "string option"

definition HEADPHONE_PORTS :: "string list" where "HEADPHONE_PORTS = [''headphones'', ''headset'']"
definition HEADPHONE_FORMS :: "string list" where "HEADPHONE_FORMS = [''headset'', ''headphone'']"
definition SPEAKER_FORMS :: "string list" where "SPEAKER_FORMS = [''speaker'', ''internal'']"
definition BLUETOOTH_PROFILES :: "string list" where "BLUETOOTH_PROFILES = [''a2dp-sink'', ''headset-head-unit'']"

definition one_of :: "string option \<Rightarrow> string list \<Rightarrow> bool" where
  "one_of s xs \<longleftrightarrow> (case s of None \<Rightarrow> False | Some t \<Rightarrow> t \<in> set xs)"

definition or_blank :: "string option \<Rightarrow> string" where
  "or_blank s = (case s of None \<Rightarrow> [] | Some t \<Rightarrow> t)"

section \<open>The default sink in a dump\<close>

definition props_of :: "obj \<Rightarrow> obj" where
  "props_of ob = (case as_dict (jget ob ''info'') of
     None \<Rightarrow> []
   | Some info \<Rightarrow> (case as_dict (jget info ''props'') of None \<Rightarrow> [] | Some p \<Rightarrow> p))"

text \<open>The first entry for the default sink: \<open>Some\<close> of what it names, \<open>None\<close> if there is no such entry.\<close>

fun sink_entry :: "json list \<Rightarrow> string option option" where
  "sink_entry [] = None"
| "sink_entry (e # es) =
     (case as_dict e of
        None \<Rightarrow> sink_entry es
      | Some d \<Rightarrow>
          if jget d ''key'' = JStr ''default.audio.sink''
          then Some (case as_dict (jget d ''value'') of None \<Rightarrow> None | Some v \<Rightarrow> str_of (jget v ''name''))
          else sink_entry es)"

definition is_default_metadata :: "obj \<Rightarrow> bool" where
  "is_default_metadata ob \<longleftrightarrow> jget ob ''type'' = JStr ''PipeWire:Interface:Metadata'' \<and>
     (case as_dict (jget ob ''props'') of None \<Rightarrow> False | Some p \<Rightarrow> jget p ''metadata.name'' = JStr ''default'')"

fun default_sink_name :: "obj list \<Rightarrow> string option" where
  "default_sink_name [] = None"
| "default_sink_name (ob # os) =
     (if is_default_metadata ob
      then case sink_entry (case as_list (jget ob ''metadata'') of None \<Rightarrow> [] | Some es \<Rightarrow> es) of
             Some name \<Rightarrow> name
           | None \<Rightarrow> default_sink_name os
      else default_sink_name os)"

definition is_route :: "json \<Rightarrow> json \<Rightarrow> bool" where
  "is_route device r \<longleftrightarrow> (case as_dict r of None \<Rightarrow> False | Some d \<Rightarrow>
     jget d ''direction'' = JStr ''Output'' \<and> py_eq (jget d ''device'') device)"

definition output_route :: "obj \<Rightarrow> json \<Rightarrow> obj option" where
  "output_route dev profile_device =
     (let routes = (case as_dict (jget dev ''info'') of None \<Rightarrow> JNull | Some info \<Rightarrow>
                      (case as_dict (jget info ''params'') of None \<Rightarrow> JNull | Some params \<Rightarrow> jget params ''Route''))
      in case find (is_route profile_device) (case as_list routes of None \<Rightarrow> [] | Some rs \<Rightarrow> rs) of
           None \<Rightarrow> None | Some r \<Rightarrow> as_dict r)"

text \<open>\<open>zip(pairs[::2], pairs[1::2])\<close>.\<close>

fun pairs_of :: "json list \<Rightarrow> (json \<times> json) list" where
  "pairs_of (k # v # rest) = (k, v) # pairs_of rest"
| "pairs_of _ = []"

definition port_type :: "obj \<Rightarrow> string option" where
  "port_type r = (case as_list (jget r ''info'') of
     None \<Rightarrow> None
   | Some info \<Rightarrow> (case find (\<lambda>(k, v). k = JStr ''port.type'') (pairs_of (drop 1 info)) of
        None \<Rightarrow> None | Some (k, v) \<Rightarrow> str_of v))"

definition prop_of :: "obj \<Rightarrow> obj \<Rightarrow> string \<Rightarrow> string option" where
  "prop_of props dev_props k = str_of (case map_of props k of Some v \<Rightarrow> v | None \<Rightarrow> jget dev_props k)"

definition is_sink_node :: "string \<Rightarrow> obj \<Rightarrow> bool" where
  "is_sink_node name ob \<longleftrightarrow> jget (props_of ob) ''media.class'' = JStr ''Audio/Sink'' \<and> jget (props_of ob) ''node.name'' = JStr name"

definition sink_of :: "string \<Rightarrow> obj \<Rightarrow> obj option \<Rightarrow> sink" where
  "sink_of name node dev =
     (let props = props_of node;
          dev_props = (case dev of None \<Rightarrow> [] | Some d \<Rightarrow> props_of d);
          route = (case dev of None \<Rightarrow> None | Some d \<Rightarrow> output_route d (jget props ''card.profile.device''));
          bluez = prop_of props dev_props ''api.bluez5.profile''
      in \<lparr>sk_name = name, sk_api = prop_of props dev_props ''device.api'', sk_bus = prop_of props dev_props ''device.bus'',
          sk_form_factor = prop_of props dev_props ''device.form-factor'',
          sk_profile = (if or_blank bluez = [] then prop_of props dev_props ''device.profile.name'' else bluez),
          sk_port_type = (case route of None \<Rightarrow> None | Some r \<Rightarrow> port_type r),
          sk_port_available = (case route of None \<Rightarrow> None | Some r \<Rightarrow> str_of (jget r ''available''))\<rparr>)"

definition default_sink :: "json \<Rightarrow> sink option" where
  "default_sink dump = (case as_list dump of
     None \<Rightarrow> None
   | Some xs \<Rightarrow>
       (let objects = List.map_filter as_dict xs in
        case default_sink_name objects of
          None \<Rightarrow> None
        | Some name \<Rightarrow>
            (case find (is_sink_node name) objects of
               None \<Rightarrow> None
             | Some node \<Rightarrow>
                 Some (sink_of name node (find (\<lambda>ob. py_eq (jget ob ''id'') (jget (props_of node) ''device.id'')) objects)))))"

section \<open>The decision\<close>

definition classify :: "sink option \<Rightarrow> route" where
  "classify sink = (case sink of
     None \<Rightarrow> UNKNOWN
   | Some s \<Rightarrow>
       (let profile = or_blank (sk_profile s);
            plugged = (one_of (sk_port_type s) HEADPHONE_PORTS \<and> sk_port_available s = Some ''yes'')
        in if sk_port_type s = Some ''hdmi'' \<or> contains profile ''hdmi'' then HDMI
           else if one_of (sk_form_factor s) SPEAKER_FORMS \<or> sk_port_type s = Some ''speaker'' then SPEAKERS
           else if sk_api s = Some ''bluez5'' then
             (if one_of (sk_form_factor s) HEADPHONE_FORMS \<and> list_ex (startswith profile) BLUETOOTH_PROFILES then BLUETOOTH else UNKNOWN)
           else if sk_api s \<noteq> Some ''alsa'' then UNKNOWN
           else if sk_bus s = Some ''usb'' then
             (if plugged \<or> one_of (sk_form_factor s) HEADPHONE_FORMS then USB_HEADSET else UNKNOWN)
           else if plugged then HEADPHONES else UNKNOWN))"

text \<open>\<open>loaded\<close> is \<open>None\<close> when the command could not run or its output is not JSON.\<close>

definition read_route :: "json option \<Rightarrow> route \<times> sink option" where
  "read_route loaded = (case loaded of
     None \<Rightarrow> (UNKNOWN, None)
   | Some dump \<Rightarrow> (let s = default_sink dump in (classify s, s)))"

section \<open>Only the listener hears it\<close>









definition metadata_object :: json where
  "metadata_object = JDict [(''id'', JNum 30), (''type'', JStr ''PipeWire:Interface:Metadata''), (''props'', JDict [(''metadata.name'', JStr ''default'')]),
     (''metadata'', JList [JDict [(''key'', JStr ''default.audio.sink''), (''value'', JDict [(''name'', JStr ''out'')])]])]"

definition sink_object :: "(string \<times> json) list \<Rightarrow> json" where
  "sink_object extra = JDict [(''id'', JNum 40), (''info'', JDict [(''props'', JDict ([(''media.class'', JStr ''Audio/Sink''),
     (''node.name'', JStr ''out''), (''device.api'', JStr ''alsa'')] @ extra))])]"

definition card_object :: "(string \<times> json) list \<Rightarrow> (string \<times> json) list \<Rightarrow> json" where
  "card_object ident dev = JDict (ident @ [(''info'', JDict [(''params'', JDict [(''Route'', JList [JDict ([(''direction'', JStr ''Output''),
     (''available'', JStr ''yes''), (''info'', JList [JNum 1, JStr ''port.type'', JStr ''headphones''])] @ dev)])])])])"

lemma jack_examples:
  "fst (read_route (Some (JList [metadata_object,
     sink_object [(''device.id'', JNum 7), (''card.profile.device'', JNum 2)], card_object [(''id'', JNum 7)] [(''device'', JNum 2)]]))) = HEADPHONES"
  "fst (read_route (Some (JList [metadata_object,
     sink_object [(''device.id'', JNum 7), (''card.profile.device'', JNum 3)], card_object [(''id'', JNum 7)] [(''device'', JNum 2)]]))) = UNKNOWN"
  by code_simp+

text \<open>
  What is missing does not always fail closed: a sink with no device matches the first object with no id, and a route
  with no device number matches a sink with none, so the jack of another card can let a reply through.
\<close>

lemma missing_ids_match:
  "fst (read_route (Some (JList [metadata_object, sink_object [], card_object [] []]))) = HEADPHONES"
  by code_simp

end
