(* ===== verification/Orchestrator.thy ===== *)
theory Orchestrator
  imports Hub
begin

text \<open>
  The jobs that follow a session (server/src/jarvis_live/orchestrator.py, with the two entry points of
  api/publishing.py that start them): ending, writing the note again, transcribing again, and the backfill of audio
  kept while no tier was up. A job is a coroutine, cut at the awaits where other tasks can run: \<open>At_Start\<close> before its
  transcript is settled, \<open>At_Note\<close> before the finalizer writes, \<open>At_Close\<close> while the note is announced and published.
  The watchdog's own decisions follow in the second half.
\<close>

section \<open>State\<close>

record session_row =
  sr_status :: status
  sr_local_only :: bool
  sr_restricted :: bool
  sr_pending :: bool
  sr_deleted :: bool
  sr_may_review :: bool            \<comment> \<open>the session's user is the owner or an admin\<close>
  sr_started_at :: real
  sr_publication :: "string option"
  sr_recorded :: bool              \<comment> \<open>audio is stored for one of its channels\<close>
  sr_has_lines :: bool
  sr_note :: "string option"

datatype run_kind = End_Run | Regenerate_Run "string option" | Reprocess_Run "string option" status bool

datatype run_at = At_Start | At_Note | At_Close

record run =
  rn_id :: nat
  rn_sid :: sid
  rn_kind :: run_kind
  rn_at :: run_at

record orch =
  oc_rows :: "sid \<Rightarrow> session_row option"
  oc_jobs :: "sid \<Rightarrow> (nat \<times> job) option"      \<comment> \<open>\<open>_jobs\<close>, with the run each belongs to\<close>
  oc_runs :: "run list"
  oc_next :: nat
  oc_failed :: "sid \<Rightarrow> bool"
  oc_backfilling :: "sid option"
  oc_after :: "sid \<Rightarrow> real option"
  oc_draining :: "sid list"
  oc_llm :: "sid list"                          \<comment> \<open>sessions whose transcript went to an LLM\<close>
  oc_notes :: "(sid \<times> bool) list"              \<comment> \<open>notes written, and whether they were announced\<close>

definition new_orch :: "(sid \<Rightarrow> session_row option) \<Rightarrow> orch" where
  "new_orch rows = \<lparr>oc_rows = rows, oc_jobs = (\<lambda>_. None), oc_runs = [], oc_next = 0, oc_failed = (\<lambda>_. False),
     oc_backfilling = None, oc_after = (\<lambda>_. None), oc_draining = [], oc_llm = [], oc_notes = []\<rparr>"

definition status_of :: "sid \<Rightarrow> orch \<Rightarrow> status option" where
  "status_of s oc = map_option sr_status (oc_rows oc s)"

definition upd_row :: "sid \<Rightarrow> (session_row \<Rightarrow> session_row) \<Rightarrow> orch \<Rightarrow> orch" where
  "upd_row s f oc = oc\<lparr>oc_rows := (oc_rows oc)(s := map_option f (oc_rows oc s))\<rparr>"

section \<open>Jobs\<close>

definition is_finalizing :: "sid \<Rightarrow> orch \<Rightarrow> bool" where
  "is_finalizing s oc \<longleftrightarrow> oc_jobs oc s \<noteq> None"

definition job_of :: "sid \<Rightarrow> orch \<Rightarrow> job option" where
  "job_of s oc = map_option snd (oc_jobs oc s)"

definition track :: "real \<Rightarrow> sid \<Rightarrow> job_source \<Rightarrow> stage \<Rightarrow> run_kind \<Rightarrow> orch \<Rightarrow> orch" where
  "track now s source stage kind oc =
     oc\<lparr>oc_jobs := (oc_jobs oc)(s := Some (oc_next oc, \<lparr>jb_source = source, jb_stage = stage, jb_started_at = now\<rparr>)),
        oc_runs := oc_runs oc @ [\<lparr>rn_id = oc_next oc, rn_sid = s, rn_kind = kind, rn_at = At_Start\<rparr>],
        oc_next := Suc (oc_next oc)\<rparr>"

definition on_end :: "real \<Rightarrow> sid \<Rightarrow> orch \<Rightarrow> orch" where
  "on_end now s oc = track now s JFinalize SSummary End_Run oc"

definition regenerate :: "real \<Rightarrow> sid \<Rightarrow> string option \<Rightarrow> orch \<Rightarrow> orch" where
  "regenerate now s replace oc = track now s JRegenerate SSummary (Regenerate_Run replace) oc"

definition reprocess :: "real \<Rightarrow> sid \<Rightarrow> string option \<Rightarrow> status \<Rightarrow> orch \<Rightarrow> orch" where
  "reprocess now s replace restore oc =
     track now s JReprocess STranscription (Reprocess_Run replace restore False) (oc\<lparr>oc_failed := (oc_failed oc)(s := False)\<rparr>)"

text \<open>\<open>UPDATE ... WHERE status = 'finalizing'\<close>.\<close>

definition set_status :: "sid \<Rightarrow> status \<Rightarrow> orch \<Rightarrow> orch" where
  "set_status s st oc = upd_row s (\<lambda>r. if sr_status r = Finalizing then r\<lparr>sr_status := st\<rparr> else r) oc"

definition clear_pending :: "sid \<Rightarrow> orch \<Rightarrow> orch" where
  "clear_pending s oc = upd_row s (\<lambda>r. r\<lparr>sr_pending := False\<rparr>) (oc\<lparr>oc_after := (oc_after oc)(s := None)\<rparr>)"

definition ideas_eligible :: "session_row \<Rightarrow> bool" where
  "ideas_eligible r \<longleftrightarrow> \<not> sr_local_only r \<and> \<not> sr_restricted r \<and> sr_may_review r"

definition flush_ideas :: "sid \<Rightarrow> orch \<Rightarrow> orch" where
  "flush_ideas s oc = (case oc_rows oc s of
       None \<Rightarrow> oc
     | Some r \<Rightarrow> if sr_status r \<noteq> Finalizing \<or> \<not> ideas_eligible r then oc else oc\<lparr>oc_llm := oc_llm oc @ [s]\<rparr>)"

definition waits_for_transcript :: "sid \<Rightarrow> orch \<Rightarrow> bool" where
  "waits_for_transcript s oc = (case oc_rows oc s of None \<Rightarrow> False | Some r \<Rightarrow> sr_pending r)"

text \<open>The finalizer's run: \<open>wrote\<close> is the note's path, or \<open>None\<close> when the LLM or writing failed.\<close>

definition finalize :: "sid \<Rightarrow> bool \<Rightarrow> string option \<Rightarrow> orch \<Rightarrow> orch" where
  "finalize s notify wrote oc = (case oc_rows oc s of
       None \<Rightarrow> oc
     | Some r \<Rightarrow>
         if sr_status r \<noteq> Finalizing then oc
         else if sr_local_only r \<or> \<not> sr_has_lines r then set_status s Done oc
         else (let sent = oc\<lparr>oc_llm := oc_llm oc @ [s]\<rparr> in case wrote of
                 None \<Rightarrow> set_status s Failed sent
               | Some path \<Rightarrow> (set_status s Done (upd_row s (\<lambda>r. r\<lparr>sr_note := Some path\<rparr>) sent))
                   \<lparr>oc_notes := oc_notes oc @ [(s, notify)]\<rparr>))"

section \<open>The steps of a run\<close>

definition find_run :: "nat \<Rightarrow> orch \<Rightarrow> run option" where
  "find_run i oc = find (\<lambda>r. rn_id r = i) (oc_runs oc)"

definition move_run :: "nat \<Rightarrow> run_at \<Rightarrow> orch \<Rightarrow> orch" where
  "move_run i a oc = oc\<lparr>oc_runs := map (\<lambda>r. if rn_id r = i then r\<lparr>rn_at := a\<rparr> else r) (oc_runs oc)\<rparr>"

text \<open>\<open>job.stage = "summary"\<close>: seen through \<open>_jobs\<close> only while the entry is still this run's.\<close>

definition stage_summary :: "nat \<Rightarrow> sid \<Rightarrow> orch \<Rightarrow> orch" where
  "stage_summary i s oc = (case oc_jobs oc s of
       None \<Rightarrow> oc
     | Some (j, jb) \<Rightarrow> if j = i then oc\<lparr>oc_jobs := (oc_jobs oc)(s := Some (j, jb\<lparr>jb_stage := SSummary\<rparr>))\<rparr> else oc)"

record orch_config =
  ob_retry_s :: real
  ob_idle_s :: real
  ob_grace_s :: real
  ob_outage_s :: real

text \<open>\<open>_reprocess\<close> up to the finalizer; \<open>transcribed\<close> tells whether the audio could be transcribed.\<close>

definition reprocess_start :: "orch_config \<Rightarrow> real \<Rightarrow> bool \<Rightarrow> run \<Rightarrow> status \<Rightarrow> bool \<Rightarrow> orch \<Rightarrow> orch" where
  "reprocess_start cfg now transcribed r restore backfill oc =
     (let s = rn_sid r; i = rn_id r in
      if oc_rows oc s = None then move_run i At_Close oc
      else if \<not> transcribed then
        move_run i At_Close (set_status s restore
          (if backfill then oc\<lparr>oc_after := (oc_after oc)(s := Some (now + ob_retry_s cfg))\<rparr>
           else oc\<lparr>oc_failed := (oc_failed oc)(s := True)\<rparr>))
      else (let oc1 = stage_summary i s (clear_pending s oc)
            in move_run i At_Note (if backfill then flush_ideas s oc1 else oc1)))"

definition run_start :: "orch_config \<Rightarrow> real \<Rightarrow> bool \<Rightarrow> run \<Rightarrow> orch \<Rightarrow> orch" where
  "run_start cfg now transcribed r oc = (case rn_kind r of
     End_Run \<Rightarrow>
       if waits_for_transcript (rn_sid r) oc then move_run (rn_id r) At_Close (set_status (rn_sid r) Done oc)
       else move_run (rn_id r) At_Note (flush_ideas (rn_sid r) oc)
   | Regenerate_Run replace \<Rightarrow> move_run (rn_id r) At_Note oc
   | Reprocess_Run replace restore backfill \<Rightarrow> reprocess_start cfg now transcribed r restore backfill oc)"

fun run_notifies :: "run_kind \<Rightarrow> bool" where
  "run_notifies End_Run = True"
| "run_notifies (Regenerate_Run replace) = False"
| "run_notifies (Reprocess_Run replace restore backfill) = backfill"

fun is_backfill :: "run_kind \<Rightarrow> bool" where
  "is_backfill (Reprocess_Run replace restore backfill) = backfill"
| "is_backfill _ = False"

text \<open>The end of a run: \<open>_backfill\<close>'s and then \<open>_track\<close>'s \<open>finally\<close>.\<close>

definition run_close :: "run \<Rightarrow> orch \<Rightarrow> orch" where
  "run_close r oc =
     oc\<lparr>oc_jobs := (oc_jobs oc)(rn_sid r := None), oc_runs := filter (\<lambda>q. rn_id q \<noteq> rn_id r) (oc_runs oc),
        oc_backfilling := (if is_backfill (rn_kind r) then None else oc_backfilling oc)\<rparr>"

definition advance :: "orch_config \<Rightarrow> real \<Rightarrow> bool \<Rightarrow> string option \<Rightarrow> nat \<Rightarrow> orch \<Rightarrow> orch" where
  "advance cfg now transcribed wrote i oc = (case find_run i oc of
       None \<Rightarrow> oc
     | Some r \<Rightarrow> (case rn_at r of
           At_Start \<Rightarrow> run_start cfg now transcribed r oc
         | At_Note \<Rightarrow> move_run i At_Close (finalize (rn_sid r) (run_notifies (rn_kind r)) wrote oc)
         | At_Close \<Rightarrow> run_close r oc))"

section \<open>What starts a run\<close>

text \<open>\<open>IngestHub.end\<close> moves the row and drains the pipeline before it calls \<open>on_end\<close>.\<close>

definition end_begin :: "sid \<Rightarrow> orch \<Rightarrow> orch" where
  "end_begin s oc = (if status_of s oc = Some Live
     then (upd_row s (\<lambda>r. r\<lparr>sr_status := Finalizing\<rparr>) oc)\<lparr>oc_draining := oc_draining oc @ [s]\<rparr> else oc)"

definition end_drained :: "real \<Rightarrow> sid \<Rightarrow> orch \<Rightarrow> orch" where
  "end_drained now s oc = (if s \<in> set (oc_draining oc)
     then on_end now s (oc\<lparr>oc_draining := filter (\<lambda>x. x \<noteq> s) (oc_draining oc)\<rparr>) else oc)"

definition is_open_publication :: "string option \<Rightarrow> bool" where
  "is_open_publication p \<longleftrightarrow> p = Some ''open'' \<or> p = Some ''publishing''"

text \<open>\<open>_reopen\<close>: the status before, and the session finalizing; \<open>None\<close> when it refuses.\<close>

definition reopen_session :: "sid \<Rightarrow> orch \<Rightarrow> (status \<times> orch) option" where
  "reopen_session s oc = (case oc_rows oc s of
       None \<Rightarrow> None
     | Some r \<Rightarrow>
         if is_open_publication (sr_publication r) then None
         else if sr_status r \<in> {Done, Failed} \<or> sr_status r = Finalizing \<and> \<not> is_finalizing s oc
         then Some (sr_status r, upd_row s (\<lambda>r. r\<lparr>sr_status := Finalizing\<rparr>) oc)
         else None)"

definition note_of :: "sid \<Rightarrow> orch \<Rightarrow> string option" where
  "note_of s oc = (case oc_rows oc s of None \<Rightarrow> None | Some r \<Rightarrow> sr_note r)"

definition api_regenerate :: "real \<Rightarrow> sid \<Rightarrow> orch \<Rightarrow> orch" where
  "api_regenerate now s oc = (case oc_rows oc s of
       None \<Rightarrow> oc
     | Some r \<Rightarrow> if sr_local_only r then oc else (case reopen_session s oc of
           None \<Rightarrow> oc
         | Some (before, oc1) \<Rightarrow> regenerate now s (note_of s oc1) oc1))"

text \<open>What \<open>processing_of\<close> derives the state from; \<open>uploading\<close> and \<open>streaming\<close> are the hub's.\<close>

definition flight_of :: "real \<Rightarrow> real option \<Rightarrow> bool \<Rightarrow> sid \<Rightarrow> session_row \<Rightarrow> orch \<Rightarrow> in_flight" where
  "flight_of since uploading streaming s r oc =
     \<lparr>fl_status = sr_status r, fl_started_at = sr_started_at r, fl_local_only = sr_local_only r,
      fl_streaming = (sr_status r = Live \<and> streaming), fl_uploading_since = uploading,
      fl_draining_since = (if s \<in> set (oc_draining oc) then Some since else None), fl_job = job_of s oc,
      fl_transcription_failed = oc_failed oc s, fl_transcription_pending = sr_pending r\<rparr>"

definition api_process :: "real \<Rightarrow> real option \<Rightarrow> bool \<Rightarrow> sid \<Rightarrow> orch \<Rightarrow> orch" where
  "api_process now uploading streaming s oc = (case oc_rows oc s of
       None \<Rightarrow> oc
     | Some r \<Rightarrow>
         if sr_local_only r \<or> busy (derive (flight_of now uploading streaming s r oc) None) then oc
         else (case reopen_session s oc of
           None \<Rightarrow> oc
         | Some (before, oc1) \<Rightarrow>
             if sr_recorded r then reprocess now s (note_of s oc1) (if before = Finalizing then Failed else before) oc1
             else regenerate now s (note_of s oc1) oc1))"

text \<open>\<open>_backfill_one\<close>: \<open>ids\<close> are the sessions of the table.\<close>

definition waiting :: "sid list \<Rightarrow> orch \<Rightarrow> (sid \<times> session_row) list" where
  "waiting ids oc = sort_key (\<lambda>sr. sr_started_at (snd sr))
     (filter (\<lambda>(s, r). sr_pending r \<and> sr_status r \<in> {Done, Failed} \<and> \<not> sr_local_only r \<and> \<not> sr_deleted r \<and>
                \<not> is_open_publication (sr_publication r))
       (List.map_filter (\<lambda>s. map_option (Pair s) (oc_rows oc s)) ids))"

definition backfill_one :: "real \<Rightarrow> bool \<Rightarrow> bool \<Rightarrow> sid list \<Rightarrow> orch \<Rightarrow> orch" where
  "backfill_one now any_live tier_up ids oc =
     (if any_live \<or> oc_backfilling oc \<noteq> None \<or> \<not> tier_up then oc
      else case find (\<lambda>(s, r). case oc_after oc s of None \<Rightarrow> True | Some t \<Rightarrow> now \<ge> t) (waiting ids oc) of
        None \<Rightarrow> oc
      | Some (s, r) \<Rightarrow>
          (let oc1 = upd_row s (\<lambda>r. r\<lparr>sr_status := Finalizing\<rparr>) oc in
           if \<not> sr_recorded r then regenerate now s (sr_note r) (clear_pending s oc1)
           else track now s JReprocess STranscription (Reprocess_Run (sr_note r) (sr_status r) True)
                  (oc1\<lparr>oc_backfilling := Some s\<rparr>)))"

text \<open>\<open>recover\<close>: the sessions a previous process left finalizing, if they ended recently (\<open>ended\<close>).\<close>

definition recover :: "real \<Rightarrow> (sid \<Rightarrow> bool) \<Rightarrow> sid list \<Rightarrow> orch \<Rightarrow> orch" where
  "recover now ended ids oc =
     fold (on_end now) (filter (\<lambda>s. status_of s oc = Some Finalizing \<and> ended s) ids) oc"

section \<open>Everything that can happen\<close>

datatype orch_event =
    New_Session sid session_row
  | Row_Deleted sid
  | End_Begin sid
  | End_Drained real sid
  | Regenerate real sid
  | Process real "real option" bool sid
  | Backfill real bool bool "sid list"
  | Advance real bool "string option" nat

definition new_session :: "sid \<Rightarrow> session_row \<Rightarrow> orch \<Rightarrow> orch" where
  "new_session s r oc = (if oc_rows oc s = None \<and> s \<notin> set (oc_llm oc) \<and> sr_status r = Live
     then oc\<lparr>oc_rows := (oc_rows oc)(s := Some r)\<rparr> else oc)"

fun orch_do :: "orch_config \<Rightarrow> orch_event \<Rightarrow> orch \<Rightarrow> orch" where
  "orch_do cfg (New_Session s r) oc = new_session s r oc"
| "orch_do cfg (Row_Deleted s) oc = oc\<lparr>oc_rows := (oc_rows oc)(s := None)\<rparr>"
| "orch_do cfg (End_Begin s) oc = end_begin s oc"
| "orch_do cfg (End_Drained now s) oc = end_drained now s oc"
| "orch_do cfg (Regenerate now s) oc = api_regenerate now s oc"
| "orch_do cfg (Process now up st s) oc = api_process now up st s oc"
| "orch_do cfg (Backfill now live up ids) oc = backfill_one now live up ids oc"
| "orch_do cfg (Advance now ok wrote i) oc = advance cfg now ok wrote i oc"

definition orch_run :: "orch_config \<Rightarrow> orch_event list \<Rightarrow> orch \<Rightarrow> orch" where
  "orch_run cfg es oc = fold (orch_do cfg) es oc"

section \<open>What the operations leave alone\<close>

lemma status_upd_row [simp]:
  "status_of t (upd_row s f oc) = (if t = s then map_option (\<lambda>r. sr_status (f r)) (oc_rows oc s) else status_of t oc)"
  by (simp add: status_of_def upd_row_def option.map_comp comp_def)

lemma upd_row_frame [simp, frame_simps]:
  "oc_runs (upd_row s f oc) = oc_runs oc" "oc_draining (upd_row s f oc) = oc_draining oc" "oc_next (upd_row s f oc) = oc_next oc"
  "oc_backfilling (upd_row s f oc) = oc_backfilling oc" "oc_llm (upd_row s f oc) = oc_llm oc" "oc_jobs (upd_row s f oc) = oc_jobs oc"
  "oc_notes (upd_row s f oc) = oc_notes oc"
  by (simp_all add: upd_row_def)

lemma status_set_status [simp]:
  "status_of t (set_status s st oc) = (if t = s \<and> status_of s oc = Some Finalizing then Some st else status_of t oc)"
  by (cases "oc_rows oc s") (auto simp: set_status_def upd_row_def status_of_def)

lemma set_status_frame [simp, frame_simps]:
  "oc_runs (set_status s st oc) = oc_runs oc" "oc_draining (set_status s st oc) = oc_draining oc"
  "oc_next (set_status s st oc) = oc_next oc" "oc_backfilling (set_status s st oc) = oc_backfilling oc"
  "oc_llm (set_status s st oc) = oc_llm oc" "oc_jobs (set_status s st oc) = oc_jobs oc" "oc_notes (set_status s st oc) = oc_notes oc"
  by (simp_all add: set_status_def)

lemma clear_pending_frame [simp, frame_simps]:
  "oc_runs (clear_pending s oc) = oc_runs oc" "oc_draining (clear_pending s oc) = oc_draining oc"
  "oc_next (clear_pending s oc) = oc_next oc" "oc_backfilling (clear_pending s oc) = oc_backfilling oc"
  "oc_llm (clear_pending s oc) = oc_llm oc" "status_of t (clear_pending s oc) = status_of t oc"
  by (auto simp: clear_pending_def status_of_def upd_row_def option.map_comp comp_def)

lemma flush_ideas_frame [simp, frame_simps]:
  "oc_runs (flush_ideas s oc) = oc_runs oc" "oc_draining (flush_ideas s oc) = oc_draining oc"
  "oc_next (flush_ideas s oc) = oc_next oc" "oc_backfilling (flush_ideas s oc) = oc_backfilling oc"
  "oc_rows (flush_ideas s oc) = oc_rows oc" "status_of t (flush_ideas s oc) = status_of t oc"
  by (auto simp: flush_ideas_def status_of_def split: option.split)

lemma stage_summary_frame [simp, frame_simps]:
  "oc_runs (stage_summary i s oc) = oc_runs oc" "oc_draining (stage_summary i s oc) = oc_draining oc"
  "oc_next (stage_summary i s oc) = oc_next oc" "oc_backfilling (stage_summary i s oc) = oc_backfilling oc"
  "oc_rows (stage_summary i s oc) = oc_rows oc" "oc_llm (stage_summary i s oc) = oc_llm oc"
  "status_of t (stage_summary i s oc) = status_of t oc"
  by (auto simp: stage_summary_def status_of_def split: option.split)

lemma status_cong: "oc_rows oc' = oc_rows oc \<Longrightarrow> status_of t oc' = status_of t oc"
  by (simp add: status_of_def)

lemma move_run_frame [simp, frame_simps]:
  "oc_draining (move_run i a oc) = oc_draining oc" "oc_next (move_run i a oc) = oc_next oc"
  "oc_backfilling (move_run i a oc) = oc_backfilling oc" "oc_rows (move_run i a oc) = oc_rows oc"
  "oc_llm (move_run i a oc) = oc_llm oc" "status_of t (move_run i a oc) = status_of t oc"
  "map rn_id (oc_runs (move_run i a oc)) = map rn_id (oc_runs oc)"
  "map rn_kind (oc_runs (move_run i a oc)) = map rn_kind (oc_runs oc)"
  by (auto simp: move_run_def status_of_def)

lemma finalize_frame [simp, frame_simps]:
  "oc_runs (finalize s notify wrote oc) = oc_runs oc" "oc_draining (finalize s notify wrote oc) = oc_draining oc"
  "oc_next (finalize s notify wrote oc) = oc_next oc" "oc_backfilling (finalize s notify wrote oc) = oc_backfilling oc"
  by (auto simp: finalize_def Let_def split: option.splits)

lemma finalize_status:
  "status_of t (finalize s notify wrote oc) =
     (if t = s \<and> status_of s oc = Some Finalizing
      then Some (case oc_rows oc s of None \<Rightarrow> Done | Some r \<Rightarrow>
             if sr_local_only r \<or> \<not> sr_has_lines r \<or> wrote \<noteq> None then Done else Failed)
      else status_of t oc)"
proof (cases "oc_rows oc s")
  case None
  then show ?thesis by (simp add: finalize_def status_of_def)
next
  case (Some r)
  have llm: "status_of u (oc\<lparr>oc_llm := l\<rparr>) = status_of u oc" for u l by (rule status_cong) simp
  have nts: "status_of u (p\<lparr>oc_notes := l\<rparr>) = status_of u p" for u l and p :: orch by (rule status_cong) simp
  show ?thesis using Some
    by (cases wrote) (auto simp: finalize_def Let_def llm nts status_of_def [of s oc])
qed

section \<open>Nothing is left finalizing\<close>

definition in_hand :: "orch \<Rightarrow> sid \<Rightarrow> bool" where
  "in_hand oc s \<longleftrightarrow> s \<in> set (oc_draining oc) \<or> (\<exists>r \<in> set (oc_runs oc). rn_sid r = s \<and> rn_at r \<noteq> At_Close)"

definition orch_ok :: "orch \<Rightarrow> bool" where
  "orch_ok oc \<longleftrightarrow> distinct (map rn_id (oc_runs oc)) \<and> (\<forall>i \<in> set (map rn_id (oc_runs oc)). i < oc_next oc) \<and>
     (\<forall>s. status_of s oc = Some Finalizing \<longrightarrow> in_hand oc s) \<and>
     (\<forall>k \<in> set (map rn_kind (oc_runs oc)). \<forall>rp st b. k = Reprocess_Run rp st b \<longrightarrow> st \<noteq> Finalizing)"

lemma orch_okD:
  assumes "orch_ok oc"
  shows "distinct (map rn_id (oc_runs oc))" "i \<in> set (map rn_id (oc_runs oc)) \<Longrightarrow> i < oc_next oc"
    "status_of s oc = Some Finalizing \<Longrightarrow> in_hand oc s"
    "Reprocess_Run rp st b \<in> set (map rn_kind (oc_runs oc)) \<Longrightarrow> st \<noteq> Finalizing"
  using assms unfolding orch_ok_def by blast+

lemma find_runD: "find_run i oc = Some r \<Longrightarrow> r \<in> set (oc_runs oc) \<and> rn_id r = i"
  by (auto simp: find_run_def find_Some_iff)

text \<open>The state after a run moved: whatever else the step changed, a session that is finalizing still was.\<close>

lemma move_ok:
  assumes ok: "orch_ok oc" and r: "find_run i oc = Some r"
    and same: "oc_runs oc' = oc_runs oc" "oc_draining oc' = oc_draining oc" "oc_next oc' = oc_next oc"
    and fin: "\<And>s. status_of s oc' = Some Finalizing \<Longrightarrow> status_of s oc = Some Finalizing"
    and closing: "a = At_Close \<Longrightarrow> status_of (rn_sid r) oc' \<noteq> Some Finalizing"
  shows "orch_ok (move_run i a oc')"
proof -
  note r' = find_runD [OF r]
  have "in_hand (move_run i a oc') s" if s: "status_of s oc' = Some Finalizing" for s
  proof (cases "s \<in> set (oc_draining oc)")
    case True
    then show ?thesis by (simp add: in_hand_def same)
  next
    case False
    with orch_okD(3) [OF ok fin [OF s]] obtain q where q: "q \<in> set (oc_runs oc)" "rn_sid q = s" "rn_at q \<noteq> At_Close"
      by (auto simp: in_hand_def)
    let ?q = "if rn_id q = i then q\<lparr>rn_at := a\<rparr> else q"
    have m: "?q \<in> set (oc_runs (move_run i a oc'))" using q(1) by (simp add: move_run_def same image_iff) (auto intro: bexI [of _ q])
    have "rn_at ?q \<noteq> At_Close"
    proof (cases "rn_id q = i")
      case True
      have "q = r" using orch_okD(1) [OF ok] q(1) r' True by (auto simp: distinct_map dest: inj_onD)
      with s q(2) closing show ?thesis using True by auto
    qed (use q(3) in simp)
    with m q(2) show ?thesis unfolding in_hand_def by (intro disjI2 bexI [of _ ?q]) auto
  qed
  moreover have "map rn_id (oc_runs (move_run i a oc')) = map rn_id (oc_runs oc)"
    "map rn_kind (oc_runs (move_run i a oc')) = map rn_kind (oc_runs oc)"
    by (simp_all add: same)
  ultimately show ?thesis using ok unfolding orch_ok_def by (simp only: move_run_frame same) blast
qed

lemma track_frame [simp, frame_simps]:
  "oc_rows (track now s src stg kind oc) = oc_rows oc" "oc_draining (track now s src stg kind oc) = oc_draining oc"
  "oc_llm (track now s src stg kind oc) = oc_llm oc" "oc_backfilling (track now s src stg kind oc) = oc_backfilling oc"
  "status_of t (track now s src stg kind oc) = status_of t oc"
  by (simp_all add: track_def status_of_def)

text \<open>A new run of \<open>s\<close>: the step before it may have made \<open>s\<close> finalizing and taken it from the draining ones.\<close>

lemma track_ok:
  assumes ok: "orch_ok oc"
    and same: "oc_runs oc' = oc_runs oc" "oc_next oc' = oc_next oc"
    and drain: "\<And>t. t \<noteq> s \<Longrightarrow> t \<in> set (oc_draining oc) \<Longrightarrow> t \<in> set (oc_draining oc')"
    and fin: "\<And>t. t \<noteq> s \<Longrightarrow> status_of t oc' = Some Finalizing \<Longrightarrow> status_of t oc = Some Finalizing"
    and kind: "\<And>rp st b. kind = Reprocess_Run rp st b \<Longrightarrow> st \<noteq> Finalizing"
  shows "orch_ok (track now s src stg kind oc')"
proof -
  let ?oc = "track now s src stg kind oc'"
  have runs: "oc_runs ?oc = oc_runs oc @ [\<lparr>rn_id = oc_next oc, rn_sid = s, rn_kind = kind, rn_at = At_Start\<rparr>]"
    and nxt: "oc_next ?oc = Suc (oc_next oc)"
    by (simp_all add: track_def same)
  have ids: "distinct (map rn_id (oc_runs ?oc))" "\<forall>i \<in> set (map rn_id (oc_runs ?oc)). i < oc_next ?oc"
    using orch_okD(1,2) [OF ok] by (fastforce simp: runs nxt)+
  have "in_hand ?oc t" if t: "status_of t ?oc = Some Finalizing" for t
  proof (cases "t = s")
    case True
    then show ?thesis by (simp add: in_hand_def runs)
  next
    case False
    with t fin have "in_hand oc t" using orch_okD(3) [OF ok] by simp
    then show ?thesis using drain [OF False] by (auto simp: in_hand_def runs)
  qed
  moreover have "\<forall>k \<in> set (map rn_kind (oc_runs ?oc)). \<forall>rp st b. k = Reprocess_Run rp st b \<longrightarrow> st \<noteq> Finalizing"
    using orch_okD(4) [OF ok] kind by (fastforce simp: runs)
  ultimately show ?thesis using ids unfolding orch_ok_def by blast
qed

lemma orch_ok_cong:
  assumes "orch_ok oc" "oc_runs oc' = oc_runs oc" "oc_next oc' = oc_next oc" "set (oc_draining oc) \<subseteq> set (oc_draining oc')"
    and "\<And>t. status_of t oc' = Some Finalizing \<Longrightarrow> status_of t oc = Some Finalizing \<or> t \<in> set (oc_draining oc')"
  shows "orch_ok oc'"
proof -
  have "in_hand oc' t" if "status_of t oc' = Some Finalizing" for t
    using assms(5) [OF that] orch_okD(3) [OF assms(1), of t] assms(2,4) by (auto simp: in_hand_def)
  with assms(1-3) show ?thesis unfolding orch_ok_def by simp
qed

lemma run_start_ok:
  assumes ok: "orch_ok oc" and r: "find_run i oc = Some r"
  shows "orch_ok (run_start cfg now transcribed r oc)"
proof -
  note r' = find_runD [OF r]
  show ?thesis
  proof (cases "rn_kind r")
    case End_Run
    show ?thesis
    proof (cases "waits_for_transcript (rn_sid r) oc")
      case True
      have "orch_ok (move_run i At_Close (set_status (rn_sid r) Done oc))" by (rule move_ok [OF ok r]) (auto split: if_splits)
      with End_Run True r' show ?thesis by (simp add: run_start_def)
    next
      case False
      have "orch_ok (move_run i At_Note (flush_ideas (rn_sid r) oc))" by (rule move_ok [OF ok r]) auto
      with End_Run False r' show ?thesis by (simp add: run_start_def)
    qed
  next
    case (Regenerate_Run rp)
    have "orch_ok (move_run i At_Note oc)" by (rule move_ok [OF ok r]) auto
    with Regenerate_Run r' show ?thesis by (simp add: run_start_def)
  next
    case (Reprocess_Run rp restore backfill)
    have restore: "restore \<noteq> Finalizing"
      using orch_okD(4) [OF ok] r' Reprocess_Run by (metis image_eqI image_set)
    let ?oc = "if backfill then oc\<lparr>oc_after := (oc_after oc)(rn_sid r := Some (now + ob_retry_s cfg))\<rparr>
           else oc\<lparr>oc_failed := (oc_failed oc)(rn_sid r := True)\<rparr>"
    have q: "oc_runs ?oc = oc_runs oc" "oc_draining ?oc = oc_draining oc" "oc_next ?oc = oc_next oc" "status_of t ?oc = status_of t oc" for t
      by (simp_all add: status_of_def)
    consider (gone) "oc_rows oc (rn_sid r) = None" | (failed) "oc_rows oc (rn_sid r) \<noteq> None" "\<not> transcribed"
      | (again) "oc_rows oc (rn_sid r) \<noteq> None" "transcribed" by blast
    then show ?thesis
    proof cases
      case gone
      have "orch_ok (move_run i At_Close oc)" by (rule move_ok [OF ok r]) (simp_all add: status_of_def gone)
      with Reprocess_Run gone r' show ?thesis by (simp add: run_start_def reprocess_start_def)
    next
      case failed
      have "orch_ok (move_run i At_Close (set_status (rn_sid r) restore ?oc))"
        by (rule move_ok [OF ok r]) (use restore in \<open>auto simp: q simp del: if_split split: if_splits\<close>)
      with Reprocess_Run failed r' show ?thesis by (auto simp: run_start_def reprocess_start_def Let_def)
    next
      case again
      let ?oc1 = "stage_summary i (rn_sid r) (clear_pending (rn_sid r) oc)"
      have "orch_ok (move_run i At_Note (if backfill then flush_ideas (rn_sid r) ?oc1 else ?oc1))"
        by (rule move_ok [OF ok r]) (auto split: if_splits)
      with Reprocess_Run again r' show ?thesis by (auto simp: run_start_def reprocess_start_def Let_def)
    qed
  qed
qed

lemma close_ok:
  assumes ok: "orch_ok oc" and r: "find_run i oc = Some r" "rn_at r = At_Close"
  shows "orch_ok (run_close r oc)"
proof -
  note r' = find_runD [OF r(1)]
  have runs: "oc_runs (run_close r oc) = filter (\<lambda>q. rn_id q \<noteq> rn_id r) (oc_runs oc)"
    and same: "oc_draining (run_close r oc) = oc_draining oc" "oc_next (run_close r oc) = oc_next oc"
    "status_of t (run_close r oc) = status_of t oc" for t
    by (simp_all add: run_close_def status_of_def)
  have "in_hand (run_close r oc) s" if s: "status_of s oc = Some Finalizing" for s
  proof (cases "s \<in> set (oc_draining oc)")
    case True
    then show ?thesis by (simp add: in_hand_def same)
  next
    case False
    with orch_okD(3) [OF ok s] obtain q where q: "q \<in> set (oc_runs oc)" "rn_sid q = s" "rn_at q \<noteq> At_Close"
      by (auto simp: in_hand_def)
    have "rn_id q \<noteq> rn_id r"
      using orch_okD(1) [OF ok] q(1,3) r' r(2) by (auto simp: distinct_map dest: inj_onD)
    with q show ?thesis by (auto simp: in_hand_def runs)
  qed
  moreover have "distinct (map rn_id (oc_runs (run_close r oc)))"
    using orch_okD(1) [OF ok] by (simp add: runs distinct_map inj_on_def)
  moreover have "\<forall>i \<in> set (map rn_id (oc_runs (run_close r oc))). i < oc_next (run_close r oc)"
    using orch_okD(2) [OF ok] by (auto simp: runs same)
  moreover have "\<forall>k \<in> set (map rn_kind (oc_runs (run_close r oc))). \<forall>rp st b. k = Reprocess_Run rp st b \<longrightarrow> st \<noteq> Finalizing"
    using orch_okD(4) [OF ok] by (fastforce simp: runs)
  ultimately show ?thesis unfolding orch_ok_def same(3) by blast
qed

lemma advance_ok:
  assumes "orch_ok oc"
  shows "orch_ok (advance cfg now transcribed wrote i oc)"
proof (cases "find_run i oc")
  case None
  with assms show ?thesis by (simp add: advance_def)
next
  case (Some r)
  show ?thesis
  proof (cases "rn_at r")
    case At_Start
    with Some run_start_ok [OF assms Some] show ?thesis by (simp add: advance_def)
  next
    case At_Note
    have "orch_ok (move_run i At_Close (finalize (rn_sid r) (run_notifies (rn_kind r)) wrote oc))"
      by (rule move_ok [OF assms Some]) (auto simp: finalize_status split: if_splits option.splits)
    with Some At_Note show ?thesis by (simp add: advance_def)
  next
    case At_Close
    with Some close_ok [OF assms Some] show ?thesis by (simp add: advance_def)
  qed
qed

lemma reopen_sessionD:
  assumes "reopen_session s oc = Some (before, oc1)"
  shows "oc1 = upd_row s (\<lambda>r. r\<lparr>sr_status := Finalizing\<rparr>) oc" "status_of s oc = Some before"
    "before \<in> {Done, Failed} \<or> before = Finalizing \<and> \<not> is_finalizing s oc"
  using assms by (auto simp: reopen_session_def status_of_def split: option.splits if_splits)

lemma fold_on_end_ok: "orch_ok oc \<Longrightarrow> orch_ok (fold (on_end now) ids oc)"
proof (induction ids arbitrary: oc)
  case (Cons s ids)
  have "orch_ok (on_end now s oc)" unfolding on_end_def by (rule track_ok [OF Cons.prems]) auto
  with Cons.IH show ?case by simp
qed simp

lemma waiting_row: "(s, r) \<in> set (waiting ids oc) \<Longrightarrow> oc_rows oc s = Some r \<and> \<not> sr_local_only r \<and> sr_status r \<in> {Done, Failed} \<and>
    sr_pending r \<and> \<not> sr_deleted r \<and> \<not> is_open_publication (sr_publication r)"
proof -
  have "(s, r) \<in> set (List.map_filter (\<lambda>s. map_option (Pair s) (oc_rows oc s)) ids) \<Longrightarrow> oc_rows oc s = Some r"
    by (induction ids) (auto simp: List.map_filter_simps split: option.splits)
  then show "(s, r) \<in> set (waiting ids oc) \<Longrightarrow> ?thesis" by (auto simp: waiting_def)
qed

lemma regenerate_ok:
  assumes "orch_ok oc" "oc_runs oc' = oc_runs oc" "oc_next oc' = oc_next oc" "oc_draining oc' = oc_draining oc"
    and "\<And>t. t \<noteq> s \<Longrightarrow> status_of t oc' = status_of t oc"
  shows "orch_ok (regenerate now s rp oc')"
  unfolding regenerate_def by (rule track_ok [OF assms(1-3)]) (simp_all add: assms(4,5))

lemma orch_do_ok:
  assumes ok: "orch_ok oc"
  shows "orch_ok (orch_do cfg e oc)"
proof (cases e)
  case (New_Session s r)
  show ?thesis unfolding New_Session orch_do.simps new_session_def
    by (rule orch_ok_cong [OF ok]) (auto simp: status_of_def split: if_splits)
next
  case (Row_Deleted s)
  show ?thesis unfolding Row_Deleted orch_do.simps
    by (rule orch_ok_cong [OF ok]) (auto simp: status_of_def split: if_splits)
next
  case (End_Begin s)
  have "status_of t (p\<lparr>oc_draining := d\<rparr>) = status_of t p" for t d and p :: orch by (rule status_cong) simp
  then show ?thesis unfolding End_Begin orch_do.simps end_begin_def
    by (intro orch_ok_cong [OF ok]) (auto split: if_splits)
next
  case (End_Drained now s)
  show ?thesis
  proof (cases "s \<in> set (oc_draining oc)")
    case True
    have "orch_ok (on_end now s (oc\<lparr>oc_draining := filter (\<lambda>x. x \<noteq> s) (oc_draining oc)\<rparr>))"
      unfolding on_end_def by (rule track_ok [OF ok]) (auto simp: status_of_def)
    with True show ?thesis by (simp add: End_Drained end_drained_def)
  qed (use ok in \<open>simp add: End_Drained end_drained_def\<close>)
next
  case (Regenerate now s)
  show ?thesis
  proof (cases "\<exists>r before oc1. oc_rows oc s = Some r \<and> \<not> sr_local_only r \<and> reopen_session s oc = Some (before, oc1)")
    case True
    then obtain r before oc1 where r: "oc_rows oc s = Some r" "\<not> sr_local_only r" "reopen_session s oc = Some (before, oc1)"
      by blast
    have "orch_ok (regenerate now s (note_of s oc1) oc1)"
      by (rule regenerate_ok [OF ok]) (simp_all add: reopen_sessionD(1) [OF r(3)])
    with r show ?thesis by (simp add: Regenerate api_regenerate_def)
  next
    case False
    with ok show ?thesis by (auto simp: Regenerate api_regenerate_def split: option.splits)
  qed
next
  case (Process now up st s)
  show ?thesis
  proof (cases "oc_rows oc s")
    case None
    with ok show ?thesis by (simp add: Process api_process_def)
  next
    case r: (Some r)
    show ?thesis
    proof (cases "sr_local_only r \<or> busy (derive (flight_of now up st s r oc) None) \<or> reopen_session s oc = None")
      case True
      with ok r show ?thesis by (auto simp: Process api_process_def)
    next
      case False
      then obtain before oc1 where b: "reopen_session s oc = Some (before, oc1)" by auto
      have "orch_ok (regenerate now s (note_of s oc1) oc1)"
        by (rule regenerate_ok [OF ok]) (simp_all add: reopen_sessionD(1) [OF b])
      moreover have "orch_ok (reprocess now s (note_of s oc1) (if before = Finalizing then Failed else before) oc1)"
        unfolding reprocess_def
        by (rule track_ok [OF ok]) (auto simp: reopen_sessionD(1) [OF b] status_of_def upd_row_def split: if_splits)
      ultimately show ?thesis using r False b by (simp add: Process api_process_def)
    qed
  qed
next
  case (Backfill now live up ids)
  show ?thesis
  proof (cases "live \<or> oc_backfilling oc \<noteq> None \<or> \<not> up")
    case True
    with ok show ?thesis by (auto simp: Backfill backfill_one_def)
  next
    case idle: False
    show ?thesis
    proof (cases "find (\<lambda>(s, r). case oc_after oc s of None \<Rightarrow> True | Some t \<Rightarrow> now \<ge> t) (waiting ids oc)")
      case None
      with ok idle show ?thesis by (simp add: Backfill backfill_one_def)
    next
      case (Some sr)
      obtain s r where sr: "sr = (s, r)" by (cases sr)
      have "(s, r) \<in> set (waiting ids oc)" using Some by (metis sr find_Some_iff nth_mem)
      from waiting_row [OF this] have r: "sr_status r \<in> {Done, Failed}" by simp
      let ?oc1 = "upd_row s (\<lambda>r. r\<lparr>sr_status := Finalizing\<rparr>) oc"
      have a: "orch_ok (regenerate now s (sr_note r) (clear_pending s ?oc1))" by (rule regenerate_ok [OF ok]) simp_all
      have b: "orch_ok (track now s JReprocess STranscription (Reprocess_Run (sr_note r) (sr_status r) True)
          (?oc1\<lparr>oc_backfilling := Some s\<rparr>))"
        by (rule track_ok [OF ok]) (use r in \<open>auto simp: status_of_def upd_row_def\<close>)
      show ?thesis using idle Some sr a b by (simp add: Backfill backfill_one_def Let_def)
    qed
  qed
next
  case (Advance now ok' wrote i)
  then show ?thesis using advance_ok [OF ok] by simp
qed

lemma orch_run_ok: "orch_ok oc \<Longrightarrow> orch_ok (orch_run cfg es oc)"
  unfolding orch_run_def by (induction es arbitrary: oc) (simp_all add: orch_do_ok)

lemma new_orch_ok: "\<forall>s. status_of s (new_orch rows) \<noteq> Some Finalizing \<Longrightarrow> orch_ok (new_orch rows)"
  unfolding orch_ok_def by (simp add: new_orch_def)









definition demo_row :: session_row where
  "demo_row = \<lparr>sr_status = Live, sr_local_only = False, sr_restricted = False, sr_pending = False, sr_deleted = False,
     sr_may_review = True, sr_started_at = 0, sr_publication = None, sr_recorded = True, sr_has_lines = True, sr_note = None\<rparr>"

definition demo_table :: "sid \<Rightarrow> session_row option" where
  "demo_table s = (if s = 1 then Some demo_row else None)"

definition demo_ocfg :: orch_config where
  "demo_ocfg = \<lparr>ob_retry_s = 600, ob_idle_s = 300, ob_grace_s = 60, ob_outage_s = 300\<rparr>"

lemma demo_table_live: "\<forall>t. status_of t (new_orch demo_table) \<noteq> Some Finalizing"
  by (simp add: status_of_def new_orch_def demo_table_def demo_row_def)

lemmas orch_eval = orch_run_def new_orch_def demo_table_def demo_row_def end_begin_def end_drained_def on_end_def track_def
  status_of_def upd_row_def advance_def find_run_def run_start_def move_run_def flush_ideas_def ideas_eligible_def
  waits_for_transcript_def finalize_def set_status_def run_close_def api_regenerate_def reopen_session_def is_finalizing_def
  is_open_publication_def regenerate_def note_of_def api_process_def reprocess_def flight_of_def derive_def derive_phases_def
  processing_def busy_def job_of_def Let_def


section \<open>Local-only sessions\<close>







lemma local_upd_row [simp]:
  "(\<And>r. sr_local_only (f r) = sr_local_only r) \<Longrightarrow>
   map_option sr_local_only (oc_rows (upd_row s f oc) t) = map_option sr_local_only (oc_rows oc t)"
  by (simp add: upd_row_def option.map_comp comp_def)

lemma local_set_status [simp]:
  "map_option sr_local_only (oc_rows (set_status s st oc) t) = map_option sr_local_only (oc_rows oc t)"
  by (simp add: set_status_def)

lemma local_clear_pending [simp]:
  "map_option sr_local_only (oc_rows (clear_pending s oc) t) = map_option sr_local_only (oc_rows oc t)"
  by (simp add: clear_pending_def)









section \<open>One backfill at a time\<close>

definition backfills :: "orch \<Rightarrow> nat" where
  "backfills oc = length (filter is_backfill (map rn_kind (oc_runs oc)))"

definition backfill_ok :: "orch \<Rightarrow> bool" where
  "backfill_ok oc \<longleftrightarrow> backfills oc = (if oc_backfilling oc = None then 0 else 1)"

lemma backfill_ok_cong:
  "oc_runs oc' = oc_runs oc \<Longrightarrow> oc_backfilling oc' = oc_backfilling oc \<Longrightarrow> backfill_ok oc' = backfill_ok oc"
  by (simp add: backfill_ok_def backfills_def)

lemma backfill_move: "backfill_ok (move_run i a oc) = backfill_ok oc"
  by (simp add: backfill_ok_def backfills_def)

lemma backfill_track:
  assumes "backfill_ok oc" "oc_runs oc' = oc_runs oc" "oc_backfilling oc' = oc_backfilling oc" "\<not> is_backfill kind"
  shows "backfill_ok (track now s src stg kind oc')"
proof -
  have "map rn_kind (oc_runs (track now s src stg kind oc')) = map rn_kind (oc_runs oc) @ [kind]" by (simp add: track_def assms(2))
  with assms show ?thesis by (simp add: backfill_ok_def backfills_def del: filter_map map_map)
qed

lemma removed_backfills:
  assumes "distinct (map rn_id rs)" "r \<in> set rs"
  shows "length (filter is_backfill (map rn_kind (filter (\<lambda>q. rn_id q \<noteq> rn_id r) rs))) + of_bool (is_backfill (rn_kind r)) =
    length (filter is_backfill (map rn_kind rs))"
  using assms
proof (induction rs)
  case (Cons q rs)
  show ?case
  proof (cases "q = r")
    case True
    with Cons.prems(1) have "filter (\<lambda>p. rn_id p \<noteq> rn_id r) rs = rs" by (auto simp: filter_id_conv image_iff)
    with True show ?thesis by simp
  next
    case False
    with Cons.prems have "r \<in> set rs" "rn_id q \<noteq> rn_id r" by auto
    with Cons show ?thesis by simp
  qed
qed simp

lemma backfill_close:
  assumes "backfill_ok oc" "orch_ok oc" "find_run i oc = Some r"
  shows "backfill_ok (run_close r oc)"
proof -
  have runs: "oc_runs (run_close r oc) = filter (\<lambda>q. rn_id q \<noteq> rn_id r) (oc_runs oc)" by (simp add: run_close_def)
  have "backfills (run_close r oc) + of_bool (is_backfill (rn_kind r)) = backfills oc"
    unfolding backfills_def runs
    by (rule removed_backfills [OF orch_okD(1) [OF assms(2)]]) (simp add: find_runD [OF assms(3)])
  with assms(1) show ?thesis
    by (cases "is_backfill (rn_kind r)") (auto simp: backfill_ok_def run_close_def split: if_splits)
qed

lemma backfill_advance:
  assumes "backfill_ok oc" "orch_ok oc"
  shows "backfill_ok (advance cfg now tr wrote i oc)"
proof (cases "find_run i oc")
  case None
  with assms show ?thesis by (simp add: advance_def)
next
  case (Some r)
  have st: "backfill_ok (run_start cfg now tr r oc)"
  proof (cases "rn_kind r")
    case End_Run
    with assms(1) show ?thesis
      by (simp add: run_start_def backfill_move backfill_ok_cong [of "set_status (rn_sid r) Done oc" oc]
          backfill_ok_cong [of "flush_ideas (rn_sid r) oc" oc])
  next
    case (Regenerate_Run rp)
    with assms(1) show ?thesis by (simp add: run_start_def backfill_move)
  next
    case (Reprocess_Run rp restore b)
    have "backfill_ok (run_start cfg now tr r oc) = backfill_ok oc"
      unfolding run_start_def reprocess_start_def Let_def
      by (auto simp: Reprocess_Run backfill_move intro!: backfill_ok_cong)
    with assms(1) show ?thesis by simp
  qed
  have "backfill_ok (finalize (rn_sid r) n wrote oc)" for n
    using assms(1) backfill_ok_cong [of "finalize (rn_sid r) n wrote oc" oc] by simp
  then show ?thesis using Some st backfill_close [OF assms Some] by (cases "rn_at r") (simp_all add: advance_def backfill_move)
qed

lemma orch_do_backfill:
  assumes ok: "backfill_ok oc" "orch_ok oc"
  shows "backfill_ok (orch_do cfg e oc)"
proof (cases e)
  case (New_Session s r)
  have "backfill_ok (new_session s r oc) = backfill_ok oc" by (rule backfill_ok_cong) (simp_all add: new_session_def)
  with ok(1) show ?thesis by (simp add: New_Session)
next
  case (Row_Deleted s)
  have "backfill_ok (oc\<lparr>oc_rows := (oc_rows oc)(s := None)\<rparr>) = backfill_ok oc" by (rule backfill_ok_cong) simp_all
  with ok(1) show ?thesis by (simp add: Row_Deleted)
next
  case (End_Begin s)
  have "backfill_ok (end_begin s oc) = backfill_ok oc" by (rule backfill_ok_cong) (simp_all add: end_begin_def)
  with ok(1) show ?thesis by (simp add: End_Begin)
next
  case (End_Drained now s)
  have "backfill_ok (on_end now s (oc\<lparr>oc_draining := d\<rparr>))" for d
    unfolding on_end_def by (rule backfill_track [OF ok(1)]) simp_all
  with ok(1) show ?thesis by (simp add: End_Drained end_drained_def)
next
  case (Regenerate now s)
  have "backfill_ok (regenerate now s rp oc1)" if "reopen_session s oc = Some (b, oc1)" for b oc1 rp
    unfolding regenerate_def by (rule backfill_track [OF ok(1)]) (simp_all add: reopen_sessionD(1) [OF that])
  with ok(1) show ?thesis by (simp add: Regenerate api_regenerate_def split: option.split prod.split)
next
  case (Process now up st s)
  have "backfill_ok (regenerate now s rp oc1)" "backfill_ok (reprocess now s rp q oc1)"
    if "reopen_session s oc = Some (b, oc1)" for b oc1 rp q
    unfolding regenerate_def reprocess_def
    by (rule backfill_track [OF ok(1)], simp_all add: reopen_sessionD(1) [OF that])+
  with ok(1) show ?thesis by (simp add: Process api_process_def split: option.split prod.split)
next
  case (Backfill now live up ids)
  have a: "backfill_ok (regenerate now s rp (clear_pending s (upd_row s f oc)))" for s rp f
    unfolding regenerate_def by (rule backfill_track [OF ok(1)]) simp_all
  have b: "backfill_ok (track now s src stg (Reprocess_Run rp q True) ((upd_row s f oc)\<lparr>oc_backfilling := Some s\<rparr>))"
    if "oc_backfilling oc = None" for s src stg rp q f
  proof -
    have "map rn_kind (oc_runs (track now s src stg (Reprocess_Run rp q True) ((upd_row s f oc)\<lparr>oc_backfilling := Some s\<rparr>))) =
        map rn_kind (oc_runs oc) @ [Reprocess_Run rp q True]" by (simp add: track_def)
    with ok(1) that show ?thesis by (simp add: backfill_ok_def backfills_def del: filter_map map_map)
  qed
  show ?thesis
  proof (cases "oc_backfilling oc = None")
    case True
    with ok(1) a b show ?thesis by (simp add: Backfill backfill_one_def Let_def split: option.split prod.split)
  next
    case False
    with ok(1) show ?thesis by (auto simp: Backfill backfill_one_def)
  qed
next
  case (Advance now tr wrote i)
  with ok show ?thesis by (simp add: backfill_advance)
qed

text \<open>
  The backfill never swamps Whisper. In every run of the service at most one session is transcribed by the
  backfill, \<open>_backfilling\<close> is set exactly then, and a check while it is set starts nothing.
\<close>

theorem one_backfill:
  assumes "\<forall>t. status_of t (new_orch rows) \<noteq> Some Finalizing"
  shows "backfills (orch_run cfg es (new_orch rows)) = (if oc_backfilling (orch_run cfg es (new_orch rows)) = None then 0 else 1)"
proof -
  have "backfill_ok (orch_run cfg es oc) \<and> orch_ok (orch_run cfg es oc)" if "backfill_ok oc" "orch_ok oc" for oc
    unfolding orch_run_def using that
    by (induction es arbitrary: oc) (simp_all add: orch_do_backfill orch_do_ok)
  moreover have "backfill_ok (new_orch rows)" by (simp add: backfill_ok_def backfills_def new_orch_def)
  ultimately show ?thesis using new_orch_ok [OF assms] by (simp add: backfill_ok_def)
qed

theorem one_backfill_witness:
  "backfills (orch_run demo_ocfg [End_Begin 1, End_Drained 0 1, Backfill 1 False True [1]] (new_orch demo_table)) \<le> 1"
  using one_backfill [OF demo_table_live, of demo_ocfg "[End_Begin 1, End_Drained 0 1, Backfill 1 False True [1]]"]
  by (simp split: if_splits)

text \<open>What the backfill picks: the first in order of start that is not held back, never local-only, deleted or under review.\<close>

lemma backfill_picks:
  assumes "oc_backfilling (backfill_one now live up ids oc) = Some s" "oc_backfilling oc = None"
  shows "\<not> live \<and> up \<and> (\<exists>r. oc_rows oc s = Some r \<and> sr_pending r \<and> \<not> sr_local_only r \<and> \<not> sr_deleted r \<and>
    \<not> is_open_publication (sr_publication r) \<and> (\<forall>t. oc_after oc s = Some t \<longrightarrow> t \<le> now))"
proof -
  have go: "\<not> live" "up" using assms by (auto simp: backfill_one_def split: if_splits)
  let ?due = "\<lambda>(s, r). case oc_after oc s of None \<Rightarrow> True | Some t \<Rightarrow> now \<ge> t"
  show ?thesis
  proof (cases "find ?due (waiting ids oc)")
    case None
    with assms go show ?thesis by (simp add: backfill_one_def)
  next
    case (Some sr)
    obtain t r where sr: "sr = (t, r)" by (cases sr)
    have "t = s" using assms go Some sr by (auto simp: backfill_one_def Let_def regenerate_def split: if_splits)
    moreover have "(t, r) \<in> set (waiting ids oc)" using Some by (metis sr find_Some_iff nth_mem)
    moreover have "?due (t, r)" using Some by (metis sr find_Some_iff)
    ultimately show ?thesis using go waiting_row by (auto split: option.splits)
  qed
qed

section \<open>Runs that overlap\<close>

text \<open>
  C27: a note asked for again while the last run is still announcing its note loses its entry. The closing run's
  cleanup removes whatever run \<open>_jobs\<close> names, so the new run is in flight, the session is finalizing, and yet nothing
  is tracked: the session counts as stuck, and a further request starts a second run beside the first.
\<close>

theorem second_run_untracked:
  assumes r: "find_run i oc = Some r" "rn_at r = At_Close" and ok: "orch_ok oc"
    and row: "oc_rows oc (rn_sid r) = Some row" "sr_status row \<in> {Done, Failed}" "\<not> sr_local_only row"
      "\<not> is_open_publication (sr_publication row)"
  shows "\<exists>oc'. oc' = advance cfg now tr wrote i (api_regenerate now (rn_sid r) oc) \<and>
    status_of (rn_sid r) oc' = Some Finalizing \<and> \<not> is_finalizing (rn_sid r) oc' \<and>
    (\<exists>q \<in> set (oc_runs oc'). rn_sid q = rn_sid r \<and> rn_at q = At_Start) \<and>
    (\<exists>q1 \<in> set (oc_runs (api_regenerate now' (rn_sid r) oc')). \<exists>q2 \<in> set (oc_runs (api_regenerate now' (rn_sid r) oc')).
       rn_id q1 \<noteq> rn_id q2 \<and> rn_sid q1 = rn_sid r \<and> rn_sid q2 = rn_sid r \<and> rn_at q1 = At_Start \<and> rn_at q2 = At_Start)"
proof -
  let ?s = "rn_sid r" and ?n = "oc_next oc"
  note r' = find_runD [OF r(1)]
  have old: "j < ?n" if "j \<in> set (map rn_id (oc_runs oc))" for j using orch_okD(2) [OF ok that] .
  then have i: "i < ?n" using r' by auto
  let ?q = "\<lambda>n rp. \<lparr>rn_id = n, rn_sid = ?s, rn_kind = Regenerate_Run rp, rn_at = At_Start\<rparr>"
  define fin where "fin = row\<lparr>sr_status := Finalizing\<rparr>"
  define oc1 where "oc1 = api_regenerate now ?s oc"
  have row1: "oc_rows oc1 ?s = Some fin" and runs1: "oc_runs oc1 = oc_runs oc @ [?q ?n (sr_note row)]" and nx1: "oc_next oc1 = Suc ?n"
    using row by (auto simp: oc1_def api_regenerate_def reopen_session_def regenerate_def track_def upd_row_def note_of_def fin_def)
  have find1: "find_run i oc1 = Some r"
  proof -
    have "find P (xs @ ys) = Some x" if "find P xs = Some x" for P and xs ys :: "run list" and x
      using that by (induction xs) (auto split: if_splits)
    with r(1) show ?thesis by (simp add: find_run_def runs1)
  qed
  define oc2 where "oc2 = advance cfg now tr wrote i oc1"
  have oc2: "oc2 = run_close r oc1" using find1 r(2) by (simp add: oc2_def advance_def)
  have row2: "oc_rows oc2 ?s = Some fin" and job2: "oc_jobs oc2 ?s = None" and nx2: "oc_next oc2 = Suc ?n"
    and q2: "?q ?n (sr_note row) \<in> set (oc_runs oc2)"
    using row1 nx1 runs1 i r' by (auto simp: oc2 run_close_def)
  have st2: "status_of ?s oc2 = Some Finalizing" by (simp add: status_of_def row2 fin_def)
  have runs3: "oc_runs (api_regenerate now' ?s oc2) = oc_runs oc2 @ [?q (Suc ?n) (sr_note row)]"
    using row2 row(3,4) job2 nx2
    by (simp add: api_regenerate_def reopen_session_def regenerate_def track_def upd_row_def note_of_def fin_def is_finalizing_def)
  have "\<exists>q1 \<in> set (oc_runs (api_regenerate now' ?s oc2)). \<exists>q2 \<in> set (oc_runs (api_regenerate now' ?s oc2)).
       rn_id q1 \<noteq> rn_id q2 \<and> rn_sid q1 = ?s \<and> rn_sid q2 = ?s \<and> rn_at q1 = At_Start \<and> rn_at q2 = At_Start"
    by (rule bexI [of _ "?q ?n (sr_note row)"], rule bexI [of _ "?q (Suc ?n) (sr_note row)"]) (simp_all add: runs3 q2)
  moreover have "\<exists>q \<in> set (oc_runs oc2). rn_sid q = ?s \<and> rn_at q = At_Start"
    by (rule bexI [OF _ q2]) simp
  ultimately show ?thesis using st2 job2 by (simp add: is_finalizing_def oc2_def oc1_def)
qed

definition announcing :: orch where
  "announcing = orch_run demo_ocfg [End_Begin 1, End_Drained 0 1, Advance 1 True None 0, Advance 2 True (Some ''n.md'') 0] (new_orch demo_table)"

lemma announcing:
  "find_run 0 announcing = Some \<lparr>rn_id = 0, rn_sid = 1, rn_kind = End_Run, rn_at = At_Close\<rparr>"
  "oc_rows announcing 1 = Some (demo_row\<lparr>sr_status := Done, sr_note := Some ''n.md''\<rparr>)" "orch_ok announcing"
proof -
  show "find_run 0 announcing = Some \<lparr>rn_id = 0, rn_sid = 1, rn_kind = End_Run, rn_at = At_Close\<rparr>"
    "oc_rows announcing 1 = Some (demo_row\<lparr>sr_status := Done, sr_note := Some ''n.md''\<rparr>)"
    by (simp_all add: announcing_def orch_eval)
  show "orch_ok announcing" unfolding announcing_def by (rule orch_run_ok [OF new_orch_ok [OF demo_table_live]])
qed

theorem second_run_untracked_witness:
  "\<exists>oc'. oc' = advance demo_ocfg 3 True None 0 (api_regenerate 3 1 announcing) \<and>
     status_of 1 oc' = Some Finalizing \<and> \<not> is_finalizing 1 oc'"
  using second_run_untracked [OF announcing(1) _ announcing(3), where row = "demo_row\<lparr>sr_status := Done, sr_note := Some ''n.md''\<rparr>"
      and cfg = demo_ocfg and now = 3 and tr = True and wrote = None] announcing(2)
  by (auto simp: demo_row_def is_open_publication_def)

text \<open>
  A regeneration asked for while an ended session still drains writes the note before the last words are transcribed,
  and the session's own run then finds it done and writes none.
\<close>

lemma regenerate_while_draining:
  "(let oc = orch_run demo_ocfg [End_Begin 1, Regenerate 1 1, Advance 2 True None 0, Advance 3 True (Some ''early.md'') 0]
        (new_orch demo_table);
        oc' = orch_run demo_ocfg [Advance 4 True None 0, End_Drained 5 1, Advance 6 True None 1, Advance 7 True (Some ''late.md'') 1] oc
    in (oc_draining oc, oc_notes oc, oc_notes oc', note_of 1 oc')) = ([1], [(1, False)], [(1, False)], Some ''early.md'')"
  by (simp add: orch_eval)

section \<open>The watchdog\<close>

record live_session =
  lv_sid :: sid
  lv_uploading :: bool
  lv_last_audio_at :: real
  lv_has_producer :: bool
  lv_gone_at :: "real option"

definition producer_may_return :: "orch_config \<Rightarrow> real \<Rightarrow> live_session \<Rightarrow> bool" where
  "producer_may_return cfg now st \<longleftrightarrow> \<not> lv_has_producer st \<and>
     (case lv_gone_at st of None \<Rightarrow> False | Some gone \<Rightarrow> now - gone < ob_grace_s cfg)"

definition ends_idle :: "orch_config \<Rightarrow> real \<Rightarrow> live_session \<Rightarrow> bool" where
  "ends_idle cfg now st \<longleftrightarrow> \<not> lv_uploading st \<and> now - lv_last_audio_at st > ob_idle_s cfg \<and> \<not> producer_may_return cfg now st"

text \<open>\<open>db_live\<close>: the sessions the table has as live, when it is read.\<close>

definition end_orphans ::
  "orch_config \<Rightarrow> real \<Rightarrow> sid list \<Rightarrow> sid list \<Rightarrow> (sid \<Rightarrow> real option) \<Rightarrow> sid list \<times> (sid \<Rightarrow> real option)" where
  "end_orphans cfg now db_live in_hub orphans =
     (let ids = remdups (filter (\<lambda>s. s \<notin> set in_hub) db_live);
          seen = (\<lambda>s. case orphans s of None \<Rightarrow> now | Some t \<Rightarrow> t);
          ended = filter (\<lambda>s. now - seen s > ob_idle_s cfg) ids
      in (ended, \<lambda>s. if s \<in> set ids \<and> s \<notin> set ended then Some (seen s) else None))"

text \<open>Whether this check alerts, and whether the fault counts as notified.\<close>

definition check_stt_fault :: "orch_config \<Rightarrow> real \<Rightarrow> bool \<Rightarrow> bool \<times> bool" where
  "check_stt_fault cfg fault notified =
     (if fault \<le> 0 then (False, False)
      else if \<not> notified \<and> fault > ob_outage_s cfg then (True, True)
      else (False, notified))"

record watchdog =
  wd_orphans :: "sid \<Rightarrow> real option"
  wd_notified :: bool

record check =
  ck_now :: real
  ck_live :: "live_session list"
  ck_db_live :: "sid list"      \<comment> \<open>the table, before the idle sessions are ended\<close>
  ck_fault_s :: real

text \<open>One check: the alert, the idle sessions it ends, the orphans it ends. The backfill and the SLO monitor are apart.\<close>

definition check_once :: "orch_config \<Rightarrow> check \<Rightarrow> watchdog \<Rightarrow> (bool \<times> sid list \<times> sid list) \<times> watchdog" where
  "check_once cfg c w =
     (let (alert, notified) = check_stt_fault cfg (ck_fault_s c) (wd_notified w);
          idle = map lv_sid (filter (ends_idle cfg (ck_now c)) (ck_live c));
          (orphaned, orphans) = end_orphans cfg (ck_now c) (filter (\<lambda>s. s \<notin> set idle) (ck_db_live c))
            (map lv_sid (ck_live c)) (wd_orphans w)
      in ((alert, idle, orphaned), \<lparr>wd_orphans = orphans, wd_notified = notified\<rparr>))"

fun run_checks :: "orch_config \<Rightarrow> check list \<Rightarrow> watchdog \<Rightarrow> (bool \<times> sid list \<times> sid list) list \<times> watchdog" where
  "run_checks cfg [] w = ([], w)"
| "run_checks cfg (c # cs) w =
     (let (r, w') = check_once cfg c w; (rs, w'') = run_checks cfg cs w' in (r # rs, w''))"

definition is_orphan :: "sid \<Rightarrow> check \<Rightarrow> bool" where
  "is_orphan s c \<longleftrightarrow> s \<in> set (ck_db_live c) \<and> s \<notin> lv_sid ` set (ck_live c)"

lemma check_orphan:
  assumes "is_orphan s c" "check_once cfg c w = ((alert, idle, orphaned), w')"
    and "t = (case wd_orphans w s of None \<Rightarrow> ck_now c | Some t \<Rightarrow> t)"
  shows "s \<in> set orphaned \<longleftrightarrow> ck_now c - t > ob_idle_s cfg"
    and "ck_now c - t \<le> ob_idle_s cfg \<Longrightarrow> wd_orphans w' s = Some t"
    and "s \<notin> set idle"
proof -
  have idle: "idle = map lv_sid (filter (ends_idle cfg (ck_now c)) (ck_live c))"
    using assms(2) by (auto simp: check_once_def Let_def split: prod.splits)
  show ni: "s \<notin> set idle" using assms(1) by (auto simp: idle is_orphan_def)
  have o: "end_orphans cfg (ck_now c) (filter (\<lambda>s. s \<notin> set idle) (ck_db_live c)) (map lv_sid (ck_live c)) (wd_orphans w) =
      (orphaned, wd_orphans w')"
    using assms(2) by (auto simp: check_once_def Let_def idle split: prod.splits)
  have mem: "s \<in> set (filter (\<lambda>s. s \<notin> set (map lv_sid (ck_live c))) (filter (\<lambda>s. s \<notin> set idle) (ck_db_live c)))"
    using assms(1) ni by (simp add: is_orphan_def)
  show "s \<in> set orphaned \<longleftrightarrow> ck_now c - t > ob_idle_s cfg"
    using o mem assms(3) by (auto simp: end_orphans_def Let_def)
  have w': "wd_orphans w' = snd (end_orphans cfg (ck_now c) (filter (\<lambda>s. s \<notin> set idle) (ck_db_live c))
      (map lv_sid (ck_live c)) (wd_orphans w))" by (simp add: o)
  show "wd_orphans w' s = Some t" if "ck_now c - t \<le> ob_idle_s cfg"
    unfolding w' using mem assms(3) that by (auto simp: end_orphans_def Let_def)
qed

lemma waiting_orphan:
  assumes "wd_orphans w s = Some t" "\<forall>c \<in> set cs. is_orphan s c \<and> ck_now c - t \<le> ob_idle_s cfg"
  shows "(\<forall>(alert, idle, orphaned) \<in> set (fst (run_checks cfg cs w)). s \<notin> set idle \<and> s \<notin> set orphaned) \<and>
    wd_orphans (snd (run_checks cfg cs w)) s = Some t"
  using assms
proof (induction cs arbitrary: w)
  case (Cons c cs)
  obtain alert idle orphaned w' where c: "check_once cfg c w = ((alert, idle, orphaned), w')" by (metis surj_pair)
  have o: "is_orphan s c" "ck_now c - t \<le> ob_idle_s cfg" using Cons.prems(2) by simp_all
  note f = check_orphan [OF o(1) c, of t]
  have "wd_orphans w' s = Some t" using f(2) o(2) Cons.prems(1) by simp
  moreover have "\<forall>c \<in> set cs. is_orphan s c \<and> ck_now c - t \<le> ob_idle_s cfg" using Cons.prems(2) by simp
  ultimately have "(\<forall>(alert, idle, orphaned) \<in> set (fst (run_checks cfg cs w')). s \<notin> set idle \<and> s \<notin> set orphaned) \<and>
    wd_orphans (snd (run_checks cfg cs w')) s = Some t" by (rule Cons.IH)
  with f(1,3) o(2) Cons.prems(1) show ?case by (auto simp: c split: prod.splits)
qed simp

text \<open>
  A session that is live in the table but has no producer here ends after the idle period and not before: through
  every check of that period it is left alone, however many there are, and the first check after it ends the session.
\<close>

theorem orphan_ends_after_idle:
  assumes "wd_orphans w s = None" "0 \<le> ob_idle_s cfg" "\<forall>c \<in> set (c0 # cs). is_orphan s c \<and> ck_now c - ck_now c0 \<le> ob_idle_s cfg"
    and "is_orphan s c'" "ck_now c' - ck_now c0 > ob_idle_s cfg"
  shows "(\<forall>(alert, idle, orphaned) \<in> set (fst (run_checks cfg (c0 # cs) w)). s \<notin> set idle \<and> s \<notin> set orphaned) \<and>
    s \<in> set (snd (snd (fst (check_once cfg c' (snd (run_checks cfg (c0 # cs) w))))))"
proof -
  obtain alert idle orphaned w1 where c: "check_once cfg c0 w = ((alert, idle, orphaned), w1)" by (metis surj_pair)
  have "is_orphan s c0" using assms(3) by simp
  note f = check_orphan [OF this c, of "ck_now c0"]
  have first: "s \<notin> set idle" "s \<notin> set orphaned" "wd_orphans w1 s = Some (ck_now c0)"
    using f assms(1,2) by simp_all
  have "\<forall>c \<in> set cs. is_orphan s c \<and> ck_now c - ck_now c0 \<le> ob_idle_s cfg" using assms(3) by simp
  note rest = waiting_orphan [OF first(3) this]
  define w2 where "w2 = snd (run_checks cfg cs w1)"
  obtain a i orph w3 where c': "check_once cfg c' w2 = ((a, i, orph), w3)" by (metis surj_pair)
  have "s \<in> set orph" using check_orphan(1) [OF assms(4) c', of "ck_now c0"] rest assms(5) by (simp add: w2_def)
  then show ?thesis using first rest c' by (auto simp: c w2_def split: prod.splits)
qed

definition lone_check :: "real \<Rightarrow> check" where
  "lone_check now = \<lparr>ck_now = now, ck_live = [], ck_db_live = [1], ck_fault_s = 0\<rparr>"

theorem orphan_ends_after_idle_witness:
  "1 \<in> set (snd (snd (fst (check_once demo_ocfg (lone_check 301)
     (snd (run_checks demo_ocfg (lone_check 0 # [lone_check 150, lone_check 300]) \<lparr>wd_orphans = (\<lambda>_. None), wd_notified = False\<rparr>))))))"
  using orphan_ends_after_idle [of "\<lparr>wd_orphans = (\<lambda>_. None), wd_notified = False\<rparr>" 1 demo_ocfg "lone_check 0"
      "[lone_check 150, lone_check 300]" "lone_check 301"]
  by (simp add: demo_ocfg_def lone_check_def is_orphan_def)

text \<open>A fault alerts once: while the readings stay above zero, at most one check of all alerts.\<close>

lemma notified_silent:
  assumes "wd_notified w" "\<forall>c \<in> set cs. ck_fault_s c > 0"
  shows "\<forall>r \<in> set (fst (run_checks cfg cs w)). \<not> fst r"
  using assms
proof (induction cs arbitrary: w)
  case (Cons c cs)
  obtain a i orph w1 where c: "check_once cfg c w = ((a, i, orph), w1)" by (metis surj_pair)
  have "\<not> a" "wd_notified w1"
    using Cons.prems c by (auto simp: check_once_def check_stt_fault_def Let_def split: prod.splits if_splits)
  with Cons.IH [of w1] Cons.prems(2) show ?case by (auto simp: c split: prod.splits)
qed simp

lemma one_alert_per_fault:
  assumes "\<forall>c \<in> set cs. ck_fault_s c > 0"
  shows "length (filter fst (fst (run_checks cfg cs w))) \<le> 1"
  using assms
proof (induction cs arbitrary: w)
  case (Cons c cs)
  obtain a i orph w1 where c: "check_once cfg c w = ((a, i, orph), w1)" by (metis surj_pair)
  obtain rs w2 where rs: "run_checks cfg cs w1 = (rs, w2)" by (cases "run_checks cfg cs w1")
  show ?case
  proof (cases a)
    case True
    then have "wd_notified w1"
      using c by (auto simp: check_once_def check_stt_fault_def Let_def split: prod.splits if_splits)
    with notified_silent [of w1 cs cfg] Cons.prems have "filter fst rs = []" by (auto simp: rs filter_empty_conv)
    then show ?thesis by (simp add: c rs)
  next
    case False
    with Cons.IH [of w1] Cons.prems show ?thesis by (simp add: c rs)
  qed
qed simp

end
